(* ===== verification/Prelude.thy ===== *)
theory Prelude
  imports Main "HOL-Library.Word"
begin

text \<open>
  Shared vocabulary of the development: the machine integers of the 32-bit target, the
  outcome of kernel code (a value, a Rust panic, or a spin on a lock another hart holds), the
  state monad in which the trap handler is written, and the lemmas on bounded option arrays,
  words and monadic programs that the component theories use.

  Integers follow the release profile of \<^verbatim>\<open>Cargo.toml\<close> (no overflow checks): \<open>+\<close> and \<open>-\<close>
  on words wrap. Array indices that the code bounds are \<open>nat\<close>.
\<close>

unbundle bit_operations_syntax

section \<open>Machine integers\<close>

type_synonym u8 = "8 word"
type_synonym u16 = "16 word"
type_synonym u32 = "32 word"
type_synonym u64 = "64 word"
type_synonym usize = "32 word"

section \<open>Outcomes of kernel code\<close>

text \<open>
  A Rust panic ends the hart in \<^verbatim>\<open>loop { wfi }\<close> (\<^verbatim>\<open>panic = "abort"\<close>): nothing is unwound, no
  guard is dropped. The state reached so far is therefore part of the outcome.
\<close>

datatype panic =
    IndexOutOfBounds
  | UnwrapNone
  | AssertFailed
  | UnsupportedPmpEntry
  | UnhandledException u32

datatype 'a res = Ok 'a | Panic panic | Spin

type_synonym ('s, 'a) km = "'s \<Rightarrow> 's \<times> 'a res"

definition kret :: "'a \<Rightarrow> ('s, 'a) km" where
  "kret a = (\<lambda>s. (s, Ok a))"

definition kbind :: "('s, 'a) km \<Rightarrow> ('a \<Rightarrow> ('s, 'b) km) \<Rightarrow> ('s, 'b) km" where
  "kbind m f = (\<lambda>s. case m s of
       (s', Ok a) \<Rightarrow> f a s'
     | (s', Panic p) \<Rightarrow> (s', Panic p)
     | (s', Spin) \<Rightarrow> (s', Spin))"

definition kseq :: "('s, unit) km \<Rightarrow> ('s, 'b) km \<Rightarrow> ('s, 'b) km" where
  "kseq m n = kbind m (\<lambda>_. n)"

definition kpanic :: "panic \<Rightarrow> ('s, 'a) km" where
  "kpanic p = (\<lambda>s. (s, Panic p))"

definition kgets :: "('s \<Rightarrow> 'a) \<Rightarrow> ('s, 'a) km" where
  "kgets f = (\<lambda>s. (s, Ok (f s)))"

definition kmodify :: "('s \<Rightarrow> 's) \<Rightarrow> ('s, unit) km" where
  "kmodify f = (\<lambda>s. (f s, Ok ()))"

definition kassert :: "panic \<Rightarrow> bool \<Rightarrow> ('s, unit) km" where
  "kassert p b = (\<lambda>s. if b then (s, Ok ()) else (s, Panic p))"

text \<open>\<^verbatim>\<open>.unwrap()\<close> on an option.\<close>

definition kunwrap :: "'a option \<Rightarrow> ('s, 'a) km" where
  "kunwrap x = (\<lambda>s. case x of None \<Rightarrow> (s, Panic UnwrapNone) | Some a \<Rightarrow> (s, Ok a))"

text \<open>\<^verbatim>\<open>xs[i]\<close> on an array: out of range is a panic.\<close>

definition kindex :: "'a list \<Rightarrow> nat \<Rightarrow> ('s, 'a) km" where
  "kindex xs i = (\<lambda>s. if i < length xs then (s, Ok (xs ! i)) else (s, Panic IndexOutOfBounds))"

text \<open>\<^verbatim>\<open>for x in xs { body }\<close>.\<close>

fun kforeach :: "'x list \<Rightarrow> ('x \<Rightarrow> ('s, unit) km) \<Rightarrow> ('s, unit) km" where
  "kforeach [] f = kret ()"
| "kforeach (x # xs) f = kseq (f x) (kforeach xs f)"

text \<open>An operation on one field of a larger state.\<close>

definition zoom :: "('s \<Rightarrow> 'l) \<Rightarrow> ('l \<Rightarrow> 's \<Rightarrow> 's) \<Rightarrow> ('l, 'a) km \<Rightarrow> ('s, 'a) km" where
  "zoom get put m = (\<lambda>s. case m (get s) of (l, r) \<Rightarrow> (put l s, r))"

section \<open>Transition systems\<close>

text \<open>The states that steps reach from an initial state.\<close>

inductive reach :: "('s \<Rightarrow> bool) \<Rightarrow> ('s \<Rightarrow> 's \<Rightarrow> bool) \<Rightarrow> 's \<Rightarrow> bool"
  for init step where
  reach_init: "init s \<Longrightarrow> reach init step s"
| reach_step: "reach init step s \<Longrightarrow> step s t \<Longrightarrow> reach init step t"

text \<open>An inductive invariant holds in every reachable state.\<close>

locale inductive_invariant =
  fixes init :: "'s \<Rightarrow> bool" and step :: "'s \<Rightarrow> 's \<Rightarrow> bool" and inv :: "'s \<Rightarrow> bool"
  assumes init_inv: "init s \<Longrightarrow> inv s"
    and step_inv: "inv s \<Longrightarrow> step s t \<Longrightarrow> inv t"
begin

lemma reach_inv: "reach init step s \<Longrightarrow> inv s"
  by (induction rule: reach.induct) (auto intro: init_inv step_inv)

end

section \<open>Weakest preconditions\<close>

text \<open>
  \<open>wp m Q E s\<close>: run from \<open>s\<close>, the program does not spin, a normal return satisfies \<open>Q\<close> and a
  panic satisfies \<open>E\<close>. The rules below compute it by simplification.
\<close>

definition wp :: "('s, 'a) km \<Rightarrow> ('a \<Rightarrow> 's \<Rightarrow> bool) \<Rightarrow> (panic \<Rightarrow> 's \<Rightarrow> bool) \<Rightarrow> 's \<Rightarrow> bool" where
  "wp m Q E s = (case m s of
       (s', Ok a) \<Rightarrow> Q a s'
     | (s', Panic p) \<Rightarrow> E p s'
     | (s', Spin) \<Rightarrow> False)"

named_theorems kdefs \<open>the definitions of the monad, for symbolic evaluation\<close>
named_theorems kvc \<open>weakest preconditions of the monad's operations\<close>

lemmas [kdefs] = kret_def kseq_def kpanic_def kgets_def kmodify_def kassert_def kunwrap_def
  kindex_def

lemma kbind_eval [kdefs]:
  "kbind m f s = (case m s of
       (s', Ok a) \<Rightarrow> f a s'
     | (s', Panic p) \<Rightarrow> (s', Panic p)
     | (s', Spin) \<Rightarrow> (s', Spin))"
  by (simp add: kbind_def)

lemma kbind_kret [simp]: "kbind (kret a) f = f a"
  by (simp add: kbind_def kret_def fun_eq_iff)

lemma kbind_assoc: "kbind (kbind m f) g = kbind m (\<lambda>a. kbind (f a) g)"
  by (rule ext) (simp add: kbind_def split: prod.split res.split)

lemma wp_kbind [kvc]: "wp (kbind m f) Q E = wp m (\<lambda>a. wp (f a) Q E) E"
  by (rule ext) (simp add: wp_def kbind_def split: prod.split res.split)

lemma wp_kseq [kvc]: "wp (kseq m n) Q E = wp m (\<lambda>_. wp n Q E) E"
  by (simp add: kseq_def wp_kbind)

lemma wp_kret [kvc]: "wp (kret a) Q E = Q a"
  by (rule ext) (simp add: wp_def kret_def)

lemma wp_kpanic [kvc]: "wp (kpanic p) Q E s = E p s"
  by (simp add: wp_def kpanic_def)

lemma wp_kgets [kvc]: "wp (kgets g) Q E s = Q (g s) s"
  by (simp add: wp_def kgets_def)

lemma wp_kmodify [kvc]: "wp (kmodify f) Q E s = Q () (f s)"
  by (simp add: wp_def kmodify_def)

lemma wp_kassert [kvc]: "wp (kassert p b) Q E s = (if b then Q () s else E p s)"
  by (simp add: wp_def kassert_def)

lemma wp_kunwrap [kvc]:
  "wp (kunwrap x) Q E s = (case x of None \<Rightarrow> E UnwrapNone s | Some a \<Rightarrow> Q a s)"
  by (simp add: wp_def kunwrap_def split: option.split)

lemma wp_kindex [kvc]:
  "wp (kindex xs i) Q E s = (if i < length xs then Q (xs ! i) s else E IndexOutOfBounds s)"
  by (simp add: wp_def kindex_def)

lemma wp_if [kvc]: "wp (if b then m else n) Q E s = (if b then wp m Q E s else wp n Q E s)"
  by simp

lemma wp_case_option [kvc]:
  "wp (case x of None \<Rightarrow> m | Some a \<Rightarrow> f a) Q E s
     = (case x of None \<Rightarrow> wp m Q E s | Some a \<Rightarrow> wp (f a) Q E s)"
  by (simp split: option.split)

lemma wp_case_prod [kvc]:
  "wp (case x of (a, b) \<Rightarrow> f a b) Q E s = (case x of (a, b) \<Rightarrow> wp (f a b) Q E s)"
  by (simp split: prod.split)

lemma wp_zoom [kvc]:
  "wp (zoom get put m) Q E s
     = wp m (\<lambda>a l. Q a (put l s)) (\<lambda>p l. E p (put l s)) (get s)"
  by (simp add: wp_def zoom_def split: prod.split res.split)

lemma wp_mono:
  assumes "wp m Q' E' s" and "\<And>a s'. Q' a s' \<Longrightarrow> Q a s'" and "\<And>p s'. E' p s' \<Longrightarrow> E p s'"
  shows "wp m Q E s"
  using assms by (auto simp: wp_def split: prod.splits res.splits)

lemma wp_run: "m s = (s', Ok a) \<Longrightarrow> wp m Q E s = Q a s'"
  by (simp add: wp_def)

lemma wp_Ok: "wp m Q E s \<Longrightarrow> m s = (s', Ok a) \<Longrightarrow> Q a s'"
  by (simp add: wp_def)

lemma wp_total:
  assumes "wp m Q E s"
  obtains s' a where "m s = (s', Ok a)" "Q a s'" | s' p where "m s = (s', Panic p)" "E p s'"
  using assms by (auto simp: wp_def split: prod.splits res.splits)

lemma wp_eq: "wp m Q E s \<Longrightarrow> wp m (\<lambda>a s'. Q a s' \<and> m s = (s', Ok a)) E s"
  by (auto simp: wp_def split: prod.splits res.splits)

lemma wp_no_panic: "wp m Q (\<lambda>_ _. False) s \<longleftrightarrow> (\<exists>s' a. m s = (s', Ok a) \<and> Q a s')"
  by (auto simp: wp_def split: prod.splits res.splits)

lemma wp_kforeach:
  assumes "I s" and "\<And>x s. x \<in> set xs \<Longrightarrow> I s \<Longrightarrow> wp (f x) (\<lambda>_. I) E s"
  shows "wp (kforeach xs f) (\<lambda>_. I) E s"
  using assms by (induction xs arbitrary: s) (auto simp: kvc intro: wp_mono)

section \<open>Bounded option arrays\<close>

text \<open>
  \<open>slot xs i\<close> reads an array of options and is \<open>None\<close> out of range; \<open>upd_slot\<close> changes the
  value of an occupied slot, which is what \<^verbatim>\<open>if let Some(x) = &mut xs[i]\<close> does.
\<close>

definition slot :: "'a option list \<Rightarrow> nat \<Rightarrow> 'a option" where
  "slot xs i = (if i < length xs then xs ! i else None)"

definition upd_slot :: "'a option list \<Rightarrow> nat \<Rightarrow> ('a \<Rightarrow> 'a) \<Rightarrow> 'a option list" where
  "upd_slot xs i f = (case slot xs i of None \<Rightarrow> xs | Some a \<Rightarrow> xs[i := Some (f a)])"

lemma slot_list_update:
  "slot (xs[i := v]) j = (if i = j \<and> j < length xs then v else slot xs j)"
  by (auto simp: slot_def nth_list_update)

lemma length_upd_slot [simp]: "length (upd_slot xs i f) = length xs"
  by (simp add: upd_slot_def split: option.split)

lemma slot_upd_slot:
  "slot (upd_slot xs i f) j = (if i = j then map_option f (slot xs j) else slot xs j)"
  by (auto simp: upd_slot_def slot_def split: option.split)

lemma slot_upd_slot_same [simp]: "slot (upd_slot xs i f) i = map_option f (slot xs i)"
  by (simp add: slot_upd_slot)

lemma slot_upd_slot_other [simp]: "i \<noteq> j \<Longrightarrow> slot (upd_slot xs i f) j = slot xs j"
  by (simp add: slot_upd_slot)

lemma upd_slot_None [simp]: "slot xs i = None \<Longrightarrow> upd_slot xs i f = xs"
  by (simp add: upd_slot_def)

lemma slot_Some_less: "slot xs i = Some a \<Longrightarrow> i < length xs"
  by (simp add: slot_def split: if_splits)

lemma slot_nth: "i < length xs \<Longrightarrow> slot xs i = xs ! i"
  by (simp add: slot_def)

lemma slot_ext:
  assumes "length xs = length ys" and "\<And>i. slot xs i = slot ys i"
  shows "xs = ys"
proof (rule nth_equalityI)
  show "length xs = length ys" by (rule assms(1))
  fix i assume "i < length xs"
  then show "xs ! i = ys ! i" using assms by (metis slot_nth)
qed

lemma upd_slot_id [simp]: "upd_slot xs i (\<lambda>t. t) = xs"
  by (rule slot_ext) (simp_all add: slot_upd_slot option.map_ident)

lemma slot_replicate [simp]: "slot (replicate n None) i = None"
  by (simp add: slot_def)

lemma replicate_num: "replicate (numeral k) x = x # replicate (pred_numeral k) x"
  by (simp add: numeral_eq_Suc)

lemma find_SomeE: "find P xs = Some x \<Longrightarrow> (P x \<Longrightarrow> x \<in> set xs \<Longrightarrow> R) \<Longrightarrow> R"
  by (metis find_Some_iff nth_mem)

section \<open>Words\<close>

lemma word_neq_add_nonzero:
  fixes a k :: "'a::len word"
  shows "(a + k = a) = (k = 0)" and "(a = a + k) = (k = 0)"
  by simp_all

lemma unat_u8_less: "unat (a :: u8) < 256"
  using unsigned_less [of a, where ?'a = nat] by simp

lemma unat_u16_less: "unat (a :: u16) < 65536"
  using unsigned_less [of a, where ?'a = nat] by simp

lemma unat_u32_less: "unat (a :: u32) < 4294967296"
  using unsigned_less [of a, where ?'a = nat] by simp

lemma unat_ucast_8_16 [simp]: "unat (ucast (a :: u8) :: u16) = unat a"
  using unat_u8_less [of a] by (simp add: unsigned_ucast_eq take_bit_nat_eq_self)

lemma unat_ucast_8_32 [simp]: "unat (ucast (a :: u8) :: u32) = unat a"
  using unat_u8_less [of a] by (simp add: unsigned_ucast_eq take_bit_nat_eq_self)

lemma unat_ucast_16_8: "unat (ucast (a :: u16) :: u8) = unat a mod 256"
  by (simp add: unsigned_ucast_eq take_bit_eq_mod)

lemma unat_and_mask: "unat (d AND mask n) = unat d mod 2 ^ n" for d :: "'a::len word"
proof -
  have "unat (d AND mask n) = take_bit n (unat d)"
    by (simp only: take_bit_eq_mask [symmetric] unsigned_take_bit_eq)
  then show ?thesis by (simp only: take_bit_eq_mod)
qed

lemma unat_and_15: "unat (d AND 15) = unat d mod 16" for d :: u8
  using unat_and_mask [of d 4] by (simp add: mask_eq_exp_minus_1)

lemma unat_and_7: "unat (d AND 7) = unat d mod 8" for d :: u16
  using unat_and_mask [of d 3] by (simp add: mask_eq_exp_minus_1)

lemma unat_inj: "unat a = unat b \<Longrightarrow> a = b" for a b :: "'a::len word"
  by (simp add: word_unat_eq_iff)

lemma unat_inc: "unat d + 1 < 2 ^ 32 \<Longrightarrow> unat (d + 1) = unat d + 1" for d :: u32
  by (simp add: unat_plus_if')

lemma unat_dec: "0 < unat d \<Longrightarrow> unat (d - 1) = unat d - 1" for d :: u32
  by (simp add: unat_sub_if')

end
