(* ===== verification/Fifo.thy ===== *)
theory Fifo
  imports Prelude
begin

text \<open>
  The interface of a bounded first-in first-out buffer whose operations may panic, as a locale:
  what the provider promises about single operations, and what a client may conclude about any
  sequence of them. The CAN ring buffer is its provider (theory \<open>Can\<close>).
\<close>

section \<open>Operation sequences\<close>

datatype 'a fifo_op = Push 'a | Pop

datatype ('e, 'a) fifo_out = Pushed | Rejected 'e | Popped "'a option"

fun fifo_exec ::
    "('a \<Rightarrow> ('q, 'e + unit) km) \<Rightarrow> ('q, 'a option) km \<Rightarrow> 'a fifo_op \<Rightarrow> ('q, ('e, 'a) fifo_out) km" where
  "fifo_exec push pop (Push x) =
     kbind (push x) (\<lambda>r. kret (case r of Inl e \<Rightarrow> Rejected e | Inr _ \<Rightarrow> Pushed))"
| "fifo_exec push pop Pop = kbind pop (\<lambda>r. kret (Popped r))"

fun fifo_run ::
    "('a \<Rightarrow> ('q, 'e + unit) km) \<Rightarrow> ('q, 'a option) km \<Rightarrow> 'a fifo_op list
      \<Rightarrow> ('q, ('e, 'a) fifo_out list) km" where
  "fifo_run push pop [] = kret []"
| "fifo_run push pop (x # xs) =
     kbind (fifo_exec push pop x) (\<lambda>o1. kbind (fifo_run push pop xs) (\<lambda>os. kret (o1 # os)))"

text \<open>The specification: a list of at most \<open>cap\<close> elements.\<close>

fun spec_exec :: "nat \<Rightarrow> 'e \<Rightarrow> 'a fifo_op \<Rightarrow> 'a list \<Rightarrow> 'a list \<times> ('e, 'a) fifo_out" where
  "spec_exec cap e (Push x) q = (if length q < cap then (q @ [x], Pushed) else (q, Rejected e))"
| "spec_exec cap e Pop q = (case q of [] \<Rightarrow> ([], Popped None) | y # ys \<Rightarrow> (ys, Popped (Some y)))"

fun spec_run :: "nat \<Rightarrow> 'e \<Rightarrow> 'a fifo_op list \<Rightarrow> 'a list \<Rightarrow> 'a list \<times> ('e, 'a) fifo_out list" where
  "spec_run cap e [] q = (q, [])"
| "spec_run cap e (x # xs) q =
     (let (q1, o1) = spec_exec cap e x q; (q2, os) = spec_run cap e xs q1 in (q2, o1 # os))"

text \<open>What went in and what came out of a run.\<close>

fun accepted :: "'a fifo_op list \<Rightarrow> ('e, 'a) fifo_out list \<Rightarrow> 'a list" where
  "accepted (Push x # xs) (Pushed # os) = x # accepted xs os"
| "accepted (_ # xs) (_ # os) = accepted xs os"
| "accepted _ _ = []"

fun delivered :: "('e, 'a) fifo_out list \<Rightarrow> 'a list" where
  "delivered [] = []"
| "delivered (Popped (Some x) # os) = x # delivered os"
| "delivered (_ # os) = delivered os"

section \<open>The specification neither loses nor reorders\<close>

lemma spec_exec_cases:
  assumes "spec_exec cap e x q = (q1, o1)"
  obtains (push) v where "x = Push v" "length q < cap" "q1 = q @ [v]" "o1 = Pushed"
    | (full) v where "x = Push v" "\<not> length q < cap" "q1 = q" "o1 = Rejected e"
    | (empty) "x = Pop" "q = []" "q1 = []" "o1 = Popped None"
    | (pop) y where "x = Pop" "q = y # q1" "o1 = Popped (Some y)"
  using assms by (cases x; cases q) (auto split: if_splits)

lemma spec_run_fifo:
  "spec_run cap e xs q = (q', os) \<Longrightarrow> q @ accepted xs os = delivered os @ q'"
proof (induction xs arbitrary: q os)
  case Nil
  then show ?case by simp
next
  case (Cons x xs)
  obtain q1 o1 where 1: "spec_exec cap e x q = (q1, o1)" by (cases "spec_exec cap e x q")
  obtain os1 where 2: "spec_run cap e xs q1 = (q', os1)" and os: "os = o1 # os1"
    using Cons.prems 1 by (auto split: prod.splits)
  have IH: "q1 @ accepted xs os1 = delivered os1 @ q'" by (rule Cons.IH [OF 2])
  from 1 show ?case
    by (cases rule: spec_exec_cases) (use IH os in auto)
qed

lemma spec_run_bounded:
  "length q \<le> cap \<Longrightarrow> length (fst (spec_run cap e xs q)) \<le> cap"
proof (induction xs arbitrary: q)
  case (Cons x xs)
  obtain q1 o1 where 1: "spec_exec cap e x q = (q1, o1)" by (cases "spec_exec cap e x q")
  then have "length q1 \<le> cap"
    by (cases rule: spec_exec_cases) (use Cons.prems in auto)
  with 1 Cons.IH show ?case by (simp add: split_beta)
qed simp

section \<open>The interface\<close>

locale bounded_fifo =
  fixes new :: "'q"
    and push :: "'a \<Rightarrow> ('q, 'e + unit) km"
    and pop :: "('q, 'a option) km"
    and is_full :: "'q \<Rightarrow> bool"
    and is_empty :: "'q \<Rightarrow> bool"
    and contents :: "'q \<Rightarrow> 'a list"
    and invar :: "'q \<Rightarrow> bool"
    and cap :: nat
    and full_error :: 'e
  assumes invar_new: "invar new"
    and contents_new: "contents new = []"
    and contents_bound: "invar q \<Longrightarrow> length (contents q) \<le> cap"
    and is_full_iff: "invar q \<Longrightarrow> is_full q \<longleftrightarrow> length (contents q) = cap"
    and is_empty_iff: "invar q \<Longrightarrow> is_empty q \<longleftrightarrow> contents q = []"
    and push_accepts: "invar q \<Longrightarrow> \<not> is_full q \<Longrightarrow>
          \<exists>q'. push x q = (q', Ok (Inr ())) \<and> invar q' \<and> contents q' = contents q @ [x]"
    and push_rejects: "invar q \<Longrightarrow> is_full q \<Longrightarrow> push x q = (q, Ok (Inl full_error))"
    and pop_empty: "invar q \<Longrightarrow> is_empty q \<Longrightarrow> pop q = (q, Ok None)"
    and pop_front: "invar q \<Longrightarrow> \<not> is_empty q \<Longrightarrow>
          \<exists>q'. pop q = (q', Ok (Some (hd (contents q)))) \<and> invar q' \<and> contents q' = tl (contents q)"
begin

lemma exec_refines:
  assumes "invar q"
  shows "\<exists>q'. fifo_exec push pop x q = (q', Ok (snd (spec_exec cap full_error x (contents q))))
      \<and> invar q' \<and> contents q' = fst (spec_exec cap full_error x (contents q))"
proof (cases x)
  case (Push v)
  show ?thesis
  proof (cases "is_full q")
    case True
    with assms have "length (contents q) = cap" by (simp add: is_full_iff)
    with Push True assms show ?thesis by (simp add: push_rejects kbind_def kret_def)
  next
    case False
    with assms have "length (contents q) < cap"
      using is_full_iff contents_bound by (simp add: order_le_neq_trans)
    with Push False assms push_accepts [of q v] show ?thesis
      by (auto simp: kbind_def kret_def)
  qed
next
  case Pop
  show ?thesis
  proof (cases "is_empty q")
    case True
    with assms have "contents q = []" by (simp add: is_empty_iff)
    with Pop True assms show ?thesis by (simp add: pop_empty kbind_def kret_def)
  next
    case False
    with assms obtain y ys where "contents q = y # ys"
      using is_empty_iff by (cases "contents q") auto
    with Pop False assms pop_front [of q] show ?thesis by (auto simp: kbind_def kret_def)
  qed
qed

lemma run_refines:
  "invar q \<Longrightarrow> \<exists>q'. fifo_run push pop xs q
        = (q', Ok (snd (spec_run cap full_error xs (contents q))))
      \<and> invar q' \<and> contents q' = fst (spec_run cap full_error xs (contents q))"
proof (induction xs arbitrary: q)
  case Nil
  then show ?case by (simp add: kret_def)
next
  case (Cons x xs)
  obtain c1 o1 where s: "spec_exec cap full_error x (contents q) = (c1, o1)"
    by (cases "spec_exec cap full_error x (contents q)")
  from exec_refines [OF Cons.prems, of x] s obtain q1
    where q1: "fifo_exec push pop x q = (q1, Ok o1)" "invar q1" "contents q1 = c1" by auto
  from Cons.IH [OF q1(2)] obtain q2
    where "fifo_run push pop xs q1 = (q2, Ok (snd (spec_run cap full_error xs c1)))"
      "invar q2" "contents q2 = fst (spec_run cap full_error xs c1)"
    using q1(3) by auto
  with q1 s show ?case by (auto simp: kbind_def kret_def split_beta)
qed

text \<open>From a new buffer: no run panics, and what was accepted is what was delivered, in order,
  followed by what the buffer still holds.\<close>

lemma run_new:
  "\<exists>q os. fifo_run push pop xs new = (q, Ok os) \<and> length (contents q) \<le> cap
     \<and> accepted xs os = delivered os @ contents q"
proof -
  from run_refines [OF invar_new, of xs] obtain q where
    q: "fifo_run push pop xs new = (q, Ok (snd (spec_run cap full_error xs [])))"
      "invar q" "contents q = fst (spec_run cap full_error xs [])"
    by (auto simp: contents_new)
  moreover have "[] @ accepted xs (snd (spec_run cap full_error xs []))
      = delivered (snd (spec_run cap full_error xs [])) @ fst (spec_run cap full_error xs [])"
    by (rule spec_run_fifo) simp
  ultimately show ?thesis using contents_bound [OF q(2)] by auto
qed

end

end
