(* ===== verification/Can.thy ===== *)
theory Can
  imports Fifo
begin

text \<open>
  The CAN stack of \<^verbatim>\<open>network/src/can.rs\<close>: the frame parser with its diagnostic-id filter, and
  the single-producer single-consumer ring buffer, which is shown to provide the interface
  \<open>bounded_fifo\<close>.
\<close>

section \<open>Frames and the parser\<close>

definition CAN_MAX_PAYLOAD :: nat where
  "CAN_MAX_PAYLOAD = 8"

definition RING_CAPACITY :: nat where
  "RING_CAPACITY = 16"

record CanFrame =
  frame_id :: u16
  dlc :: u8
  payload :: "u8 list"

datatype CanError = BlockedId u16 | InvalidDlc u8 | BufferFull

definition BLOCKED_IDS :: "u16 list" where
  "BLOCKED_IDS = [0x7DF, 0x7E0, 0x7E1, 0x7E8]"

text \<open>\<open>raw\<close> is the 13-byte array \<^verbatim>\<open>&[u8; 13]\<close>.\<close>

definition parse :: "u8 list \<Rightarrow> CanError + CanFrame" where
  "parse raw =
     (let ident = push_bit 3 (ucast (raw ! 0) :: u16) OR drop_bit 5 (ucast (raw ! 1)) in
      if List.member BLOCKED_IDS ident then Inl (BlockedId ident)
      else
        let d = raw ! 2 AND 0x0F in
        if d > 8 then Inl (InvalidDlc d)
        else
          Inr \<lparr>frame_id = ident, dlc = d,
                payload = take (unat d) (drop 3 raw) @ replicate (CAN_MAX_PAYLOAD - unat d) 0\<rparr>)"

text \<open>The transceiver layout, as the module's tests build it.\<close>

definition raw_frame :: "u16 \<Rightarrow> u8 \<Rightarrow> u8 list \<Rightarrow> u8 list" where
  "raw_frame ident d data =
     [ucast (drop_bit 3 ident), push_bit 5 (ucast (ident AND 0x7)), d] @ data
       @ replicate (10 - length data) 0"

section \<open>The ring buffer\<close>

record CanRingBuffer =
  frames :: "CanFrame option list"
  head :: nat
  tail :: nat

definition ring_new :: CanRingBuffer where
  "ring_new = \<lparr>frames = replicate RING_CAPACITY None, head = 0, tail = 0\<rparr>"

definition is_full :: "CanRingBuffer \<Rightarrow> bool" where
  "is_full r \<longleftrightarrow> ((tail r + 1) AND (RING_CAPACITY - 1)) = head r"

definition is_empty :: "CanRingBuffer \<Rightarrow> bool" where
  "is_empty r \<longleftrightarrow> head r = tail r"

definition ring_push :: "CanFrame \<Rightarrow> (CanRingBuffer, CanError + unit) km" where
  "ring_push f r =
     (if is_full r then (r, Ok (Inl BufferFull))
      else if tail r < length (frames r) then
        (r\<lparr>frames := (frames r)[tail r := Some f],
           tail := (tail r + 1) AND (RING_CAPACITY - 1)\<rparr>, Ok (Inr ()))
      else (r, Panic IndexOutOfBounds))"

definition ring_pop :: "(CanRingBuffer, CanFrame option) km" where
  "ring_pop r =
     (if is_empty r then (r, Ok None)
      else if head r < length (frames r) then
        (r\<lparr>frames := (frames r)[head r := None],
           head := (head r + 1) AND (RING_CAPACITY - 1)\<rparr>, Ok (frames r ! head r))
      else (r, Panic IndexOutOfBounds))"

text \<open>The abstraction to a list, and the representation invariant.\<close>

definition ring_count :: "CanRingBuffer \<Rightarrow> nat" where
  "ring_count r = (tail r + 16 - head r) mod 16"

definition ring_contents :: "CanRingBuffer \<Rightarrow> CanFrame list" where
  "ring_contents r = map (\<lambda>i. the (frames r ! ((head r + i) mod 16))) [0..<ring_count r]"

definition ring_invar :: "CanRingBuffer \<Rightarrow> bool" where
  "ring_invar r \<longleftrightarrow> length (frames r) = 16 \<and> head r < 16 \<and> tail r < 16 \<and>
     (\<forall>i<16. frames r ! i \<noteq> None \<longleftrightarrow> (i + 16 - head r) mod 16 < ring_count r)"

section \<open>Lemmas on the ring\<close>

lemma capacity_mask: "n AND (RING_CAPACITY - Suc 0) = n mod 16" for n :: nat
proof -
  have "RING_CAPACITY - Suc 0 = mask 4" by (simp add: RING_CAPACITY_def mask_eq_exp_minus_1)
  then have "n AND (RING_CAPACITY - Suc 0) = take_bit 4 n" by (simp add: take_bit_eq_mask)
  then show ?thesis by (simp add: take_bit_eq_mod)
qed

lemma ring_count_less: "ring_count r < 16"
  by (simp add: ring_count_def)

lemma length_ring_contents [simp]: "length (ring_contents r) = ring_count r"
  by (simp add: ring_contents_def)

text \<open>Distances on the ring, for indices below 16, without \<open>mod\<close>.\<close>

lemma ring_dist: "h < 16 \<Longrightarrow> t < 16 \<Longrightarrow> (t + 16 - h) mod 16 = (if h \<le> t then t - h else t + 16 - h)"
  for h t :: nat
  by (simp add: mod_if)

lemma ring_wrap: "n < 32 \<Longrightarrow> n mod 16 = (if n < 16 then n else n - 16)" for n :: nat
  by (simp add: mod_if)

lemma ring_succ: "n < 16 \<Longrightarrow> Suc n mod 16 = (if n = 15 then 0 else Suc n)"
  by (simp add: mod_if)

lemma is_full_count: "ring_invar r \<Longrightarrow> is_full r \<longleftrightarrow> ring_count r = 15"
  by (auto simp: ring_invar_def is_full_def capacity_mask ring_count_def ring_dist ring_succ
      split: if_splits)

lemma is_empty_count: "ring_invar r \<Longrightarrow> is_empty r \<longleftrightarrow> ring_count r = 0"
  by (auto simp: ring_invar_def is_empty_def ring_count_def ring_dist split: if_splits)

lemma ring_invar_new: "ring_invar ring_new"
  by (auto simp: ring_invar_def ring_new_def RING_CAPACITY_def ring_count_def)

lemma ring_contents_new: "ring_contents ring_new = []"
  by (simp add: ring_contents_def ring_count_def ring_new_def)

text \<open>Index arithmetic of one push and one pop, kept away from the records.\<close>

lemma count_push:
  assumes "h < 16" "t < 16" "(t + 1) mod 16 \<noteq> h"
  shows "((t + 1) mod 16 + 16 - h) mod 16 = Suc ((t + 16 - h) mod (16::nat))"
  using assms by (auto simp: ring_succ ring_dist split: if_splits)

lemma count_pop:
  assumes "h < 16" "t < 16" "h \<noteq> t"
  shows "Suc ((t + 16 - (h + 1) mod 16) mod 16) = (t + 16 - h) mod (16::nat)"
  using assms by (auto simp: ring_succ ring_dist split: if_splits)

lemma push_slot_fresh:
  assumes "h < 16" "t < 16" "i < (t + 16 - h) mod 16"
  shows "(h + i) mod 16 \<noteq> (t::nat)"
proof -
  have "i < 16" using assms(3) by (rule order_less_trans) simp
  then show ?thesis
    using assms by (auto simp: ring_wrap ring_dist split: if_splits)
qed

lemma push_slot_tail:
  assumes "h < 16" "t < 16"
  shows "(h + (t + 16 - h) mod 16) mod 16 = (t::nat)"
  using assms by (simp add: ring_dist ring_wrap)

lemma occupied_push:
  assumes "h < 16" "t < 16" "i < 16" "(t + 1) mod 16 \<noteq> h" "i \<noteq> t"
  shows "((i + 16 - h) mod 16 < Suc ((t + 16 - h) mod 16)) = ((i + 16 - h) mod 16 < (t + 16 - h) mod (16::nat))"
  using assms by (auto simp: ring_dist split: if_splits)

lemma occupied_pop:
  assumes "h < 16" "t < 16" "i < 16" "h \<noteq> t" "i \<noteq> h"
  shows "((i + 16 - (h + 1) mod 16) mod 16 < (t + 16 - (h + 1) mod 16) mod 16)
     = ((i + 16 - h) mod 16 < (t + 16 - h) mod (16::nat))"
  using assms by (auto simp: ring_succ ring_dist split: if_splits)

lemma free_after_pop:
  assumes "h < 16" "t < 16"
  shows "\<not> (h + 16 - (h + 1) mod 16) mod 16 < (t + 16 - (h + 1) mod 16) mod (16::nat)"
  using assms by (auto simp: ring_succ ring_dist split: if_splits)

lemma pop_slot_kept:
  assumes "h < 16" "Suc i < 16"
  shows "(h + Suc i) mod 16 \<noteq> (h::nat)"
  using assms by (auto simp: ring_wrap)

lemma ring_push_accepts:
  assumes inv: "ring_invar r" and nf: "\<not> is_full r"
  shows "\<exists>r'. ring_push f r = (r', Ok (Inr ())) \<and> ring_invar r'
            \<and> ring_contents r' = ring_contents r @ [f]"
proof -
  let ?h = "head r" and ?t = "tail r" and ?n = "ring_count r"
  let ?r' = "r\<lparr>frames := (frames r)[?t := Some f], tail := (?t + 1) mod 16\<rparr>"
  have b: "?h < 16" "?t < 16" "length (frames r) = 16" and ne: "(?t + 1) mod 16 \<noteq> ?h"
    using inv nf by (auto simp: ring_invar_def is_full_def capacity_mask)
  have n': "ring_count ?r' = Suc ?n"
    unfolding ring_count_def using count_push [OF b(1,2) ne] by simp
  have fresh: "?t \<noteq> (?h + i) mod 16" if "i < (?t + 16 - ?h) mod 16" for i
    using b(1,2) that by (rule push_slot_fresh [symmetric])
  have "ring_push f r = (?r', Ok (Inr ()))"
    using nf b by (simp add: ring_push_def capacity_mask)
  moreover have "ring_invar ?r'"
    unfolding ring_invar_def n'
    using inv b occupied_push [OF b(1,2) _ ne]
    by (auto simp: ring_invar_def ring_count_def nth_list_update)
  moreover have "ring_contents ?r' = ring_contents r @ [f]"
    unfolding ring_contents_def n' using b push_slot_tail [OF b(1,2)] fresh
    by (simp add: ring_count_def)
  ultimately show ?thesis by blast
qed

lemma ring_pop_front:
  assumes inv: "ring_invar r" and ne: "\<not> is_empty r"
  shows "\<exists>r'. ring_pop r = (r', Ok (Some (hd (ring_contents r)))) \<and> ring_invar r'
            \<and> ring_contents r' = tl (ring_contents r)"
proof -
  let ?h = "head r" and ?t = "tail r"
  let ?r' = "r\<lparr>frames := (frames r)[?h := None], head := (?h + 1) mod 16\<rparr>"
  have b: "?h < 16" "?t < 16" "length (frames r) = 16" and neq: "?h \<noteq> ?t"
    using inv ne by (auto simp: ring_invar_def is_empty_def)
  have n': "ring_count r = Suc (ring_count ?r')"
    unfolding ring_count_def using count_pop [OF b(1,2) neq] by simp
  have occ: "frames r ! ?h \<noteq> None"
    using inv b n' by (auto simp: ring_invar_def)
  have split: "ring_contents r = the (frames r ! ?h) # map (\<lambda>i. the (frames r ! ((?h + Suc i) mod 16))) [0..<ring_count ?r']"
    unfolding ring_contents_def n' using b by (simp add: upt_conv_Cons map_Suc_upt [symmetric] del: upt_Suc map_Suc_upt)
  have idx: "(Suc ?h mod 16 + i) mod 16 = Suc (?h + i) mod 16" for i
    by (simp add: mod_simps)
  have fresh: "?h \<noteq> Suc (?h + i) mod 16" if "i < ring_count ?r'" for i
  proof -
    have "Suc i < 16" using that n' ring_count_less [of r] by simp
    with b(1) show ?thesis using pop_slot_kept by (metis add_Suc_right)
  qed
  have "ring_pop r = (?r', Ok (Some (hd (ring_contents r))))"
    using ne b occ by (auto simp: ring_pop_def capacity_mask split)
  moreover have "ring_invar ?r'"
    using inv b occupied_pop [OF b(1,2) _ neq] free_after_pop [OF b(1,2)]
    by (auto simp: ring_invar_def ring_count_def nth_list_update)
  moreover have "ring_contents ?r' = tl (ring_contents r)"
    unfolding split using b fresh by (simp add: ring_contents_def idx nth_list_update)
  ultimately show ?thesis by blast
qed

interpretation can_ring: bounded_fifo ring_new ring_push ring_pop is_full is_empty
    ring_contents ring_invar 15 BufferFull
proof unfold_locales
  show "ring_invar ring_new" by (rule ring_invar_new)
  show "ring_contents ring_new = []" by (rule ring_contents_new)
  show "length (ring_contents q) \<le> 15" for q
    using ring_count_less [of q] by simp
  show "is_full q \<longleftrightarrow> length (ring_contents q) = 15" if "ring_invar q" for q
    using that by (simp add: is_full_count)
  show "is_empty q \<longleftrightarrow> ring_contents q = []" if "ring_invar q" for q
    using is_empty_count [OF that] by (metis length_0_conv length_ring_contents)
  show "\<exists>q'. ring_push x q = (q', Ok (Inr ())) \<and> ring_invar q'
      \<and> ring_contents q' = ring_contents q @ [x]" if "ring_invar q" "\<not> is_full q" for q x
    using that by (rule ring_push_accepts)
  show "ring_push x q = (q, Ok (Inl BufferFull))" if "is_full q" for q x
    using that by (simp add: ring_push_def)
  show "ring_pop q = (q, Ok None)" if "is_empty q" for q
    using that by (simp add: ring_pop_def)
  show "\<exists>q'. ring_pop q = (q', Ok (Some (hd (ring_contents q)))) \<and> ring_invar q'
      \<and> ring_contents q' = tl (ring_contents q)" if "ring_invar q" "\<not> is_empty q" for q
    using that by (rule ring_pop_front)
qed

section \<open>Lemmas on the identifier field\<close>

lemma id_field_disjoint:
  fixes a b :: u8
  shows "\<not> bit (push_bit 3 (ucast a :: u16)) n \<or> \<not> bit (drop_bit 5 (ucast b :: u16)) n"
proof (cases "n < 3")
  case True
  then show ?thesis by (simp add: bit_push_bit_iff)
next
  case False
  then have "\<not> bit b (5 + n)" using bit_imp_le_length [of b "5 + n"] by auto
  then show ?thesis by (simp add: bit_drop_bit_eq bit_simps)
qed

lemma unat_id_field:
  fixes a b :: u8
  shows "unat (push_bit 3 (ucast a :: u16) OR drop_bit 5 (ucast b)) = 8 * unat a + unat b div 32"
proof -
  note bounds = unat_u8_less [of a] unat_u8_less [of b]
  have "push_bit 3 (ucast a :: u16) OR drop_bit 5 (ucast b)
      = push_bit 3 (ucast a) + drop_bit 5 (ucast b)"
    by (rule disjunctive_add [symmetric]) (rule id_field_disjoint)
  moreover have "unat (push_bit 3 (ucast a :: u16)) = 8 * unat a"
    using bounds by (simp add: push_bit_eq_mult unat_word_ariths)
  moreover have "unat (drop_bit 5 (ucast b :: u16)) = unat b div 32"
    by (simp add: drop_bit_eq_div unat_div)
  ultimately show ?thesis
    using bounds by (simp add: unat_word_ariths)
qed

lemma raw_frame_id:
  fixes i :: u16
  assumes "unat i < 2048"
  shows "push_bit 3 (ucast (ucast (drop_bit 3 i) :: u8) :: u16)
       OR drop_bit 5 (ucast (push_bit 5 (ucast (i AND 0x7)) :: u8)) = i"
proof (rule unat_inj)
  have hi: "unat (ucast (drop_bit 3 i) :: u8) = unat i div 8"
    using assms by (simp add: unat_ucast_16_8 drop_bit_eq_div unat_div)
  have "unat (ucast (i AND 0x7) :: u8) = unat i mod 8"
    by (simp add: unat_ucast_16_8 unat_and_7)
  then have lo: "unat (push_bit 5 (ucast (i AND 0x7)) :: u8) = 32 * (unat i mod 8)"
    by (simp add: push_bit_eq_mult unat_word_ariths mod_less)
  show "unat (push_bit 3 (ucast (ucast (drop_bit 3 i) :: u8) :: u16)
       OR drop_bit 5 (ucast (push_bit 5 (ucast (i AND 0x7)) :: u8))) = unat i"
    unfolding unat_id_field hi lo by simp
qed

lemma parse_InrD:
  assumes "parse raw = Inr f"
  shows "unat (frame_id f) = 8 * unat (raw ! 0) + unat (raw ! 1) div 32"
    and "frame_id f \<notin> set BLOCKED_IDS"
    and "unat (dlc f) = unat (raw ! 2) mod 16" and "unat (dlc f) \<le> 8"
    and "payload f = take (unat (dlc f)) (drop 3 raw) @ replicate (8 - unat (dlc f)) 0"
  using assms
  by (auto simp: parse_def Let_def unat_id_field unat_and_15 CAN_MAX_PAYLOAD_def
      word_less_nat_alt split: if_splits)

lemma parse_unblocked:
  assumes "unat ident < 2048" and "ident \<notin> set BLOCKED_IDS" and "length data \<le> 8"
  shows "parse (raw_frame ident (of_nat (length data)) data)
       = Inr \<lparr>frame_id = ident, dlc = of_nat (length data),
              payload = data @ replicate (8 - length data) 0\<rparr>"
proof -
  have n: "unat (of_nat (length data) :: u8) = length data"
    using assms(3) by (simp add: unat_of_nat)
  then have d: "of_nat (length data) AND 0x0F = (of_nat (length data) :: u8)"
    using assms(3) by (intro unat_inj) (simp add: unat_and_15)
  have "\<not> (of_nat (length data) :: u8) > 8"
    using assms(3) n by (simp add: word_less_nat_alt)
  then show ?thesis
    using assms(2) n d
    by (simp add: parse_def raw_frame_def Let_def raw_frame_id [OF assms(1)]
        CAN_MAX_PAYLOAD_def)
qed

text \<open>Of the identifiers 0x7E0 to 0x7EF the filter's comment and the architecture document
  name as rejected, exactly 0x7E0, 0x7E1 and 0x7E8 are; the other thirteen parse as frames.\<close>

lemma diagnostic_range_not_blocked:
  "filter (\<lambda>i. \<exists>f. parse (raw_frame i 0 []) = Inr f) (map of_nat [0x7E0..<0x7F0])
     = [0x7E2, 0x7E3, 0x7E4, 0x7E5, 0x7E6, 0x7E7,
        0x7E9, 0x7EA, 0x7EB, 0x7EC, 0x7ED, 0x7EE, 0x7EF]"
proof -
  have "(\<exists>f. parse (raw_frame i 0 []) = Inr f) = (i \<notin> set BLOCKED_IDS)" if "unat i < 2048" for i
  proof (cases "i \<in> set BLOCKED_IDS")
    case True
    have "parse (raw_frame i 0 []) = Inl (BlockedId i)"
      using True by (simp add: parse_def raw_frame_def Let_def raw_frame_id [OF that])
    with True show ?thesis by simp
  next
    case False
    with parse_unblocked [OF that False, of "[]"] show ?thesis by auto
  qed
  then show ?thesis by (simp add: upt_conv_Cons BLOCKED_IDS_def)
qed

section \<open>Properties\<close>

text \<open>C36: for every sequence of push and pop calls on a new ring buffer, no call panics, every
  result is the one a 15-element list queue gives (a push is refused with \<open>BufferFull\<close> exactly
  when 15 frames are held, a pop of an empty buffer returns \<open>None\<close>), the buffer holds that
  queue's contents, and the accepted frames come out in order, none lost and none repeated.\<close>

theorem can_ring_is_fifo:
  "\<exists>r. fifo_run ring_push ring_pop ops ring_new
        = (r, Ok (snd (spec_run 15 BufferFull ops [])))
     \<and> ring_contents r = fst (spec_run 15 BufferFull ops [])
     \<and> accepted ops (snd (spec_run 15 BufferFull ops []))
        = delivered (snd (spec_run 15 BufferFull ops [])) @ ring_contents r"
proof -
  obtain r where r: "fifo_run ring_push ring_pop ops ring_new
      = (r, Ok (snd (spec_run 15 BufferFull ops [])))"
    "ring_contents r = fst (spec_run 15 BufferFull ops [])"
    using can_ring.run_refines [OF ring_invar_new, of ops] by (auto simp: ring_contents_new)
  moreover have "[] @ accepted ops (snd (spec_run 15 BufferFull ops []))
      = delivered (snd (spec_run 15 BufferFull ops [])) @ fst (spec_run 15 BufferFull ops [])"
    by (rule spec_run_fifo) simp
  ultimately show ?thesis by auto
qed

text \<open>A frame built in the transceiver layout from an 11-bit identifier that is not blocked
  and at most eight data bytes parses back to exactly that identifier, length and data, padded
  with zeros.\<close>

lemma parse_raw_frame:
  assumes "unat ident < 2048" and "ident \<notin> set BLOCKED_IDS" and "length data \<le> 8"
  shows "parse (raw_frame ident (of_nat (length data)) data)
       = Inr \<lparr>frame_id = ident, dlc = of_nat (length data),
              payload = data @ replicate (8 - length data) 0\<rparr>"
  using assms by (rule parse_unblocked)

text \<open>C39: whatever the 13 raw bytes are, the parser returns a value: a frame whose identifier is
  the 11 bits of bytes 0 and 1 and is not a blocked one, whose length is the low nibble of byte 2
  and at most 8, and whose eight payload bytes are the first \<open>dlc\<close> data bytes followed by
  zeros; or \<open>BlockedId\<close> with that identifier, which is a blocked one; or \<open>InvalidDlc\<close> with a
  length above 8.\<close>

theorem parse_correct:
  assumes "length raw = 13"
  shows "case parse raw of
     Inr f \<Rightarrow> unat (frame_id f) = 8 * unat (raw ! 0) + unat (raw ! 1) div 32
       \<and> frame_id f \<notin> set BLOCKED_IDS
       \<and> unat (dlc f) = unat (raw ! 2) mod 16 \<and> unat (dlc f) \<le> 8
       \<and> payload f = map (\<lambda>i. if i < unat (dlc f) then raw ! (3 + i) else 0) [0..<8]
   | Inl (BlockedId i) \<Rightarrow> i \<in> set BLOCKED_IDS
       \<and> unat i = 8 * unat (raw ! 0) + unat (raw ! 1) div 32
   | Inl (InvalidDlc d) \<Rightarrow> unat d = unat (raw ! 2) mod 16 \<and> 8 < unat d
   | Inl BufferFull \<Rightarrow> False"
proof (cases "parse raw")
  case (Inl e)
  then show ?thesis
    by (auto simp: parse_def Let_def unat_id_field unat_and_15 word_less_nat_alt split: if_splits)
next
  case (Inr f)
  note f = parse_InrD [OF Inr]
  have "payload f = map (\<lambda>i. if i < unat (dlc f) then raw ! (3 + i) else 0) [0..<8]"
    using assms f(4) unfolding f(5) by (intro nth_equalityI) (auto simp: nth_append)
  then show ?thesis using Inr f(1-4) by simp
qed

theorem parse_correct_witness:
  "case parse [0x24, 0x60, 2, 7, 9, 0, 0, 0, 0, 0, 0, 0, 0] of
     Inr f \<Rightarrow> unat (frame_id f) = 0x123 \<and> unat (dlc f) = 2 \<and> payload f = [7, 9, 0, 0, 0, 0, 0, 0]
   | Inl _ \<Rightarrow> False"
  using parse_correct [of "[0x24, 0x60, 2, 7, 9, 0, 0, 0, 0, 0, 0, 0, 0]"]
  by (auto simp: BLOCKED_IDS_def upt_rec parse_def split: sum.splits CanError.splits if_splits)

end
