(* ===== verification/Security.thy ===== *)
theory Security
  imports Can
begin

text \<open>
  The secure-boot check of \<^verbatim>\<open>security/src/bootloader.rs\<close> and the message authentication code of
  \<^verbatim>\<open>security/src/hsm.rs\<close>. SHA-256 comes from the crate \<^verbatim>\<open>sha2\<close>: it is the parameter \<open>sha\<close>, applied to the
  concatenation of the byte strings that the code feeds to the hasher. What the code relies on is named where it is
  used: that a digest has 32 bytes, and that \<open>sha\<close> maps the trusted payload to the recorded digest.
\<close>

section \<open>Secure boot\<close>

definition PUB_KEY_BYTES :: "u8 list" where
  "PUB_KEY_BYTES = [
    0xb7, 0x0f, 0x96, 0x22, 0xf9, 0x76, 0x5f, 0x49, 0xda, 0x3b, 0x73, 0xe9, 0xff, 0xc2, 0xa1, 0xfb,
    0xed, 0x84, 0x46, 0xe4, 0x4d, 0x81, 0x53, 0x15, 0xc7, 0x8f, 0xcc, 0xb5, 0xe0, 0x2f, 0xf1, 0x78,
    0x77, 0xcc, 0xbf, 0x02, 0xc4, 0xf8, 0x2a, 0x54, 0xf9, 0xbc, 0x3b, 0x36, 0x77, 0x60, 0x06, 0xe6,
    0xe1, 0xeb, 0x08, 0xb8, 0x92, 0x48, 0x1e, 0xfd, 0x7d, 0x52, 0x30, 0x53, 0x4f, 0x3b, 0xf4, 0x56]"

definition SIGNATURE_BYTES :: "u8 list" where
  "SIGNATURE_BYTES = [
    0x53, 0xd8, 0x26, 0x28, 0xea, 0x32, 0x36, 0x48, 0xb1, 0xba, 0x1e, 0x6d, 0x16, 0x99, 0x9e, 0x5b,
    0xdd, 0xc2, 0x4c, 0x35, 0x5a, 0x9b, 0x0c, 0x28, 0xb9, 0x84, 0xcb, 0x96, 0x53, 0x7e, 0x37, 0xe6,
    0xd3, 0x5d, 0x8c, 0x60, 0xd1, 0xcb, 0xde, 0xde, 0x51, 0xd3, 0xb5, 0x62, 0x6c, 0xc5, 0xba, 0x1d,
    0x31, 0xc6, 0x35, 0xda, 0x91, 0x38, 0x5b, 0xa5, 0x58, 0xb8, 0x35, 0xa5, 0x51, 0x2e, 0xca, 0x8c]"

text \<open>A byte-string literal: the characters' codes.\<close>

definition bytes_of :: "string \<Rightarrow> u8 list" where
  "bytes_of = map of_char"

definition TRUSTED_PAYLOAD :: "u8 list" where
  "TRUSTED_PAYLOAD = bytes_of ''cerberus-os-kernel-image-data-payload-for-verification-v1.0''"

definition EXPECTED_HASH :: "u8 list" where
  "EXPECTED_HASH = [
    0xcf, 0xca, 0x73, 0xa3, 0xd7, 0x2f, 0x46, 0x25, 0xf8, 0x54, 0xec, 0xb8, 0xe0, 0xab, 0x75, 0x96,
    0x1d, 0x38, 0xb9, 0xdd, 0xa2, 0x97, 0x42, 0x21, 0xde, 0xe5, 0xdb, 0xe9, 0x46, 0xe5, 0xee, 0x4f]"

definition sha256_matches :: "(u8 list \<Rightarrow> u8 list) \<Rightarrow> u8 list \<Rightarrow> bool" where
  "sha256_matches sha data \<longleftrightarrow> sha data = EXPECTED_HASH"

text \<open>The loop over both buffers.\<close>

definition key_signature_checksum :: "u8 list \<Rightarrow> u8 list \<Rightarrow> u8" where
  "key_signature_checksum key sig = fold (\<lambda>i checksum. checksum XOR (key ! i XOR sig ! i)) [0..<64] 0"

definition key_signature_linkage_ok :: bool where
  "key_signature_linkage_ok \<longleftrightarrow> key_signature_checksum PUB_KEY_BYTES SIGNATURE_BYTES = 0x76"

definition verify_secure_boot :: "(u8 list \<Rightarrow> u8 list) \<Rightarrow> bool" where
  "verify_secure_boot sha \<longleftrightarrow> sha256_matches sha TRUSTED_PAYLOAD \<and> key_signature_linkage_ok"

definition tampered_payload :: "u8 list" where
  "tampered_payload =
     (let last = length TRUSTED_PAYLOAD - 1 in TRUSTED_PAYLOAD[last := TRUSTED_PAYLOAD ! last XOR 1])"

definition verify_tampered_secure_boot :: "(u8 list \<Rightarrow> u8 list) \<Rightarrow> bool" where
  "verify_tampered_secure_boot sha \<longleftrightarrow> sha256_matches sha tampered_payload \<and> key_signature_linkage_ok"

section \<open>The authentication code\<close>

definition HMAC_TAG_LEN :: nat where
  "HMAC_TAG_LEN = 8"

definition HMAC_KEY :: "u8 list" where
  "HMAC_KEY = bytes_of ''cerberus-os-dev-key-not-for-prod''"

text \<open>The loop that folds the key into both pads.\<close>

definition pad_keys :: "u8 list \<Rightarrow> u8 list \<times> u8 list" where
  "pad_keys key = fold (\<lambda>i (ipad_key, opad_key).
       (ipad_key[i := ipad_key ! i XOR key ! i], opad_key[i := opad_key ! i XOR key ! i])) [0..<32]
     (replicate 64 0x36, replicate 64 0x5C)"

text \<open>The bytes of a frame that are hashed: \<^verbatim>\<open>&frame.payload[..dlc]\<close> panics when \<open>dlc\<close> exceeds the array.\<close>

definition serialize_frame :: "CanFrame \<Rightarrow> u8 list res" where
  "serialize_frame frame =
     (if unat (dlc frame) \<le> CAN_MAX_PAYLOAD then
        Ok ([ucast (frame_id frame), ucast (drop_bit 8 (frame_id frame)), dlc frame]
             @ take (unat (dlc frame)) (payload frame))
      else Panic IndexOutOfBounds)"

definition compute_hmac_local :: "(u8 list \<Rightarrow> u8 list) \<Rightarrow> CanFrame \<Rightarrow> u8 list res" where
  "compute_hmac_local sha frame =
     (case pad_keys HMAC_KEY of (ipad_key, opad_key) \<Rightarrow>
        (case serialize_frame frame of
           Ok data \<Rightarrow>
             (let inner_hash = sha (ipad_key @ data);
                  full_mac = sha (opad_key @ inner_hash)
              in Ok (take HMAC_TAG_LEN full_mac))
         | Panic p \<Rightarrow> Panic p
         | Spin \<Rightarrow> Spin))"

text \<open>The comparison in \<^verbatim>\<open>verify_frame_secure\<close>: differences are accumulated over all bytes.\<close>

definition tags_equal :: "u8 list \<Rightarrow> u8 list \<Rightarrow> bool" where
  "tags_equal expected tag = (fold (\<lambda>(a, b) acc. acc OR (a XOR b)) (zip expected tag) 0 = 0)"

section \<open>The HMAC construction\<close>

text \<open>The standard's definition for a key not longer than a block: the key is filled up with zeros.\<close>

definition hmac :: "(u8 list \<Rightarrow> u8 list) \<Rightarrow> nat \<Rightarrow> u8 list \<Rightarrow> u8 list \<Rightarrow> u8 list" where
  "hmac H block key msg =
     (let k0 = key @ replicate (block - length key) 0 in
      H (map (\<lambda>b. b XOR 0x5C) k0 @ H (map (\<lambda>b. b XOR 0x36) k0 @ msg)))"

lemma length_HMAC_KEY: "length HMAC_KEY = 32"
  by (simp add: HMAC_KEY_def bytes_of_def)

lemma pad_loop:
  fixes key ip op :: "u8 list"
  assumes "n \<le> length key" "length key \<le> length ip" "length op = length ip"
  shows "fold (\<lambda>i (ipad_key, opad_key).
       (ipad_key[i := ipad_key ! i XOR key ! i], opad_key[i := opad_key ! i XOR key ! i])) [0..<n] (ip, op)
    = (map2 (XOR) (take n ip) (take n key) @ drop n ip, map2 (XOR) (take n op) (take n key) @ drop n op)"
  using assms(1)
proof (induction n)
  case (Suc n)
  then have n: "n < length key" "n < length ip" "n < length op" using assms by auto
  have step: "(map2 (XOR) (take n xs) (take n key) @ drop n xs)[n := (map2 (XOR) (take n xs) (take n key) @ drop n xs) ! n XOR key ! n]
      = map2 (XOR) (take (Suc n) xs) (take (Suc n) key) @ drop (Suc n) xs" if "n < length xs" for xs :: "u8 list"
    using that n(1)
    by (simp add: take_Suc_conv_app_nth Cons_nth_drop_Suc [symmetric] nth_append list_update_append)
  show ?case using Suc n by (simp add: step)
qed simp

lemma map2_replicate: "n = length xs \<Longrightarrow> map2 f (replicate n c) xs = map (f c) xs"
  by (induction xs arbitrary: n) auto

lemma pad_keys_eq:
  "pad_keys HMAC_KEY = (let k0 = HMAC_KEY @ replicate 32 0 in
     (map (\<lambda>b. b XOR 0x36) k0, map (\<lambda>b. b XOR 0x5C) k0))"
  unfolding pad_keys_def
  by (subst pad_loop) (simp_all add: length_HMAC_KEY Let_def map2_replicate xor.commute [of _ "0x36"] xor.commute [of _ "0x5C"])

lemma xor_zero: "a XOR b = 0 \<longleftrightarrow> a = b" for a b :: u8
  by (metis xor.right_neutral xor.left_commute xor_self_eq)

lemma fold_or_zero: "fold (\<lambda>(a, b) acc. acc OR (a XOR b)) ps acc = 0 \<longleftrightarrow> acc = 0 \<and> (\<forall>(a, b)\<in>set ps. a = b)"
  for acc :: u8
  by (induction ps arbitrary: acc) (auto simp: or_eq_0_iff xor_zero)

lemma tags_equal_iff: "length expected = length tag \<Longrightarrow> tags_equal expected tag \<longleftrightarrow> expected = tag"
  unfolding tags_equal_def fold_or_zero
  by (auto simp: list_eq_iff_zip_eq)

text \<open>The checksum of the two constant buffers.\<close>

lemma linkage_holds: "key_signature_linkage_ok"
  by (simp add: key_signature_linkage_ok_def key_signature_checksum_def PUB_KEY_BYTES_def SIGNATURE_BYTES_def upt_rec)

section \<open>Properties\<close>

text \<open>C20: the tag of a frame is the first eight bytes of the standard HMAC, with a 64-byte block and the
  partition's key, over identifier, length code and the bytes that the length code counts; a length code above
  eight is a panic.\<close>

theorem hmac_matches_standard:
  "compute_hmac_local sha f =
     (if unat (dlc f) \<le> 8 then
        Ok (take 8 (hmac sha 64 HMAC_KEY
          ([ucast (frame_id f), ucast (drop_bit 8 (frame_id f)), dlc f] @ take (unat (dlc f)) (payload f))))
      else Panic IndexOutOfBounds)"
  by (simp add: compute_hmac_local_def serialize_frame_def pad_keys_eq hmac_def Let_def length_HMAC_KEY
      HMAC_TAG_LEN_def CAN_MAX_PAYLOAD_def)

text \<open>The boot check passes exactly when the hash of the trusted payload is the recorded digest (the
  linkage checksum is a constant that always matches); the tampered copy has the same length and differs from the
  payload, and passes exactly when its hash is the recorded digest too, a collision of the hash.\<close>

lemma secure_boot_is_the_hash_check:
  "(verify_secure_boot sha \<longleftrightarrow> sha TRUSTED_PAYLOAD = EXPECTED_HASH)
   \<and> (verify_tampered_secure_boot sha \<longleftrightarrow> sha tampered_payload = EXPECTED_HASH)
   \<and> length tampered_payload = length TRUSTED_PAYLOAD \<and> tampered_payload \<noteq> TRUSTED_PAYLOAD
   \<and> (verify_secure_boot sha \<and> verify_tampered_secure_boot sha \<longleftrightarrow>
        sha TRUSTED_PAYLOAD = EXPECTED_HASH \<and> sha tampered_payload = sha TRUSTED_PAYLOAD)"
proof -
  have len: "length TRUSTED_PAYLOAD = 59" by (simp add: TRUSTED_PAYLOAD_def bytes_of_def)
  have "TRUSTED_PAYLOAD ! 58 XOR 1 \<noteq> TRUSTED_PAYLOAD ! 58" using xor_zero [of "TRUSTED_PAYLOAD ! 58 XOR 1" "TRUSTED_PAYLOAD ! 58"]
    by (simp add: xor.commute [of _ 1] xor.assoc)
  then have "tampered_payload ! 58 \<noteq> TRUSTED_PAYLOAD ! 58" using len by (simp add: tampered_payload_def Let_def)
  then have "tampered_payload \<noteq> TRUSTED_PAYLOAD" by auto
  then show ?thesis
    using linkage_holds by (auto simp: verify_secure_boot_def verify_tampered_secure_boot_def sha256_matches_def
        tampered_payload_def Let_def)
qed

end
