(* ===== verification/Memory.thy ===== *)
theory Memory
  imports Prelude
begin

text \<open>
  The memory that the kernel reads and writes through raw pointers: bytes at 32-bit addresses,
  with the little-endian words of the target and the byte copy of the IPC path. Kernel statics
  (the schedulers, the mutexes) are records of their own and not part of it.
\<close>

section \<open>Bytes, words, copies\<close>

type_synonym mem = "usize \<Rightarrow> u8"

definition read_word :: "mem \<Rightarrow> usize \<Rightarrow> u32" where
  "read_word m a = ucast (m a) OR push_bit 8 (ucast (m (a + 1)))
     OR push_bit 16 (ucast (m (a + 2))) OR push_bit 24 (ucast (m (a + 3)))"

definition write_word :: "mem \<Rightarrow> usize \<Rightarrow> u32 \<Rightarrow> mem" where
  "write_word m a v = m(a := ucast v, a + 1 := ucast (drop_bit 8 v),
     a + 2 := ucast (drop_bit 16 v), a + 3 := ucast (drop_bit 24 v))"

text \<open>\<^verbatim>\<open>(p as *mut usize).add(i)\<close>: the address of word \<open>i\<close>.\<close>

definition word_addr :: "usize \<Rightarrow> nat \<Rightarrow> usize" where
  "word_addr p i = p + 4 * of_nat i"

definition read_frame :: "mem \<Rightarrow> usize \<Rightarrow> nat \<Rightarrow> u32" where
  "read_frame m sp i = read_word m (word_addr sp i)"

definition write_frame :: "mem \<Rightarrow> usize \<Rightarrow> nat \<Rightarrow> u32 \<Rightarrow> mem" where
  "write_frame m sp i v = write_word m (word_addr sp i) v"

text \<open>\<^verbatim>\<open>core::ptr::copy_nonoverlapping(src, dst, n)\<close>, for regions that do not overlap (the
  call is undefined otherwise; the model then reads the old contents).\<close>

definition copy_bytes :: "mem \<Rightarrow> usize \<Rightarrow> usize \<Rightarrow> usize \<Rightarrow> mem" where
  "copy_bytes m src dst n = (\<lambda>a. if a - dst < n then m (src + (a - dst)) else m a)"

text \<open>The \<open>n\<close> bytes from address \<open>a\<close> on.\<close>

definition bytes_at :: "mem \<Rightarrow> usize \<Rightarrow> nat \<Rightarrow> u8 list" where
  "bytes_at m a n = map (\<lambda>i. m (a + of_nat i)) [0..<n]"

section \<open>Words are four bytes\<close>

definition in_range :: "usize \<Rightarrow> usize \<Rightarrow> usize \<Rightarrow> bool" where
  "in_range a base n \<longleftrightarrow> a - base < n"

lemma bytes_of_word:
  fixes v :: u32
  shows "ucast (ucast v :: u8) OR push_bit 8 (ucast (ucast (drop_bit 8 v) :: u8))
       OR push_bit 16 (ucast (ucast (drop_bit 16 v) :: u8))
       OR push_bit 24 (ucast (ucast (drop_bit 24 v) :: u8)) = v"
proof (rule bit_word_eqI)
  fix n assume "n < LENGTH(32)"
  then have "n < 32" by simp
  consider "n < 8" | "8 \<le> n \<and> n < 16" | "16 \<le> n \<and> n < 24" | "24 \<le> n \<and> n < 32"
    using \<open>n < 32\<close> by linarith
  then show "bit ((ucast (ucast v :: u8) :: u32) OR push_bit 8 (ucast (ucast (drop_bit 8 v) :: u8))
       OR push_bit 16 (ucast (ucast (drop_bit 16 v) :: u8))
       OR push_bit 24 (ucast (ucast (drop_bit 24 v) :: u8))) n = bit v n"
    by cases (auto simp: bit_simps)
qed

lemma read_write_word [simp]: "read_word (write_word m a v) a = v"
  by (simp add: read_word_def write_word_def bytes_of_word)

lemma write_word_other:
  assumes "\<not> in_range b a 4"
  shows "write_word m a v b = m b"
proof -
  have "b \<noteq> a + k" if "k < 4" for k
    using assms that by (auto simp: in_range_def)
  from this [of 0] this [of 1] this [of 2] this [of 3] show ?thesis
    by (simp add: write_word_def)
qed

lemma read_word_cong:
  assumes "\<And>k. k < 4 \<Longrightarrow> m (a + k) = m' (a + k)"
  shows "read_word m a = read_word m' a"
  using assms [of 0] assms [of 1] assms [of 2] assms [of 3] by (simp add: read_word_def)

text \<open>Two words at a distance of at least four in both directions do not overlap.\<close>

definition apart :: "usize \<Rightarrow> usize \<Rightarrow> bool" where
  "apart a b \<longleftrightarrow> 4 \<le> a - b \<and> 4 \<le> b - a"

lemma read_write_word_apart:
  assumes "apart a b"
  shows "read_word (write_word m a v) b = read_word m b"
proof (rule read_word_cong, rule write_word_other)
  fix k :: usize assume "k < 4"
  with assms show "\<not> in_range (b + k) a 4"
    unfolding apart_def in_range_def by unat_arith
qed

lemma small_negative: "4 \<le> d \<Longrightarrow> d \<le> 124 \<Longrightarrow> 4 \<le> - d" for d :: usize
  using unat_sub_if' [of 0 d] by (simp add: word_le_nat_alt)

lemma apart_words:
  assumes "i < 32" "j < 32" "i \<noteq> j"
  shows "apart (word_addr sp i) (word_addr sp j)"
proof -
  have eq: "word_addr sp i - word_addr sp j = 4 * (of_nat i - of_nat j)"
    and eq': "word_addr sp j - word_addr sp i = 4 * (of_nat j - of_nat i)"
    by (simp_all add: word_addr_def algebra_simps)
  have ge: "4 \<le> (4 * (of_nat p - of_nat q) :: usize) \<and> 4 \<le> (4 * (of_nat q - of_nat p) :: usize)"
    if "p < 32" "q < p" for p q :: nat
  proof -
    let ?d = "4 * (of_nat p - of_nat q) :: usize"
    have "?d = of_nat (4 * (p - q))"
      using that by (simp add: of_nat_diff)
    also have "unat \<dots> = 4 * (p - q)"
      using that by (subst unat_of_nat) simp
    finally have "4 \<le> ?d" "?d \<le> 124"
      using that by (simp_all add: word_le_nat_alt)
    then have "4 \<le> - ?d" by (rule small_negative)
    with \<open>4 \<le> ?d\<close> show ?thesis by (simp add: algebra_simps)
  qed
  show ?thesis
    unfolding apart_def eq eq' using assms ge [of i j] ge [of j i] by (cases "i < j") auto
qed

lemma read_write_frame:
  assumes "i < 32" "j < 32"
  shows "read_frame (write_frame m sp i v) sp j = (if i = j then v else read_frame m sp j)"
  using assms by (simp add: read_frame_def write_frame_def read_write_word_apart apart_words)

lemma read_write_frame_same [simp]: "read_frame (write_frame m sp i v) sp i = v"
  by (simp add: read_frame_def write_frame_def)

text \<open>A 32-word frame occupies the 128 bytes from its base.\<close>

lemma in_frame:
  assumes "i < 32" "in_range b (word_addr sp i) 4"
  shows "in_range b sp 128"
proof -
  let ?d = "b - word_addr sp i"
  have d: "unat ?d < 4" using assms(2) by (simp add: in_range_def word_less_nat_alt)
  have i: "unat (4 * of_nat i :: usize) = 4 * i"
    using assms(1) by (simp add: unat_word_ariths unat_of_nat)
  have "unat (?d + 4 * of_nat i) = unat ?d + 4 * i"
    using d i assms(1) by (simp add: unat_plus_if')
  moreover have "?d + 4 * of_nat i = b - sp" by (simp add: word_addr_def)
  ultimately have "unat (b - sp) = unat ?d + 4 * i" by simp
  then show ?thesis using d assms(1) by (simp add: in_range_def word_less_nat_alt)
qed

lemma write_frame_outside:
  "i < 32 \<Longrightarrow> \<not> in_range b sp 128 \<Longrightarrow> write_frame m sp i v b = m b"
  unfolding write_frame_def using in_frame write_word_other by blast

text \<open>A word write elsewhere leaves a frame alone when the two 128-byte blocks are disjoint.\<close>

lemma read_frame_cong:
  assumes "\<And>b. in_range b sp 128 \<Longrightarrow> m b = m' b" and "i < 32"
  shows "read_frame m sp i = read_frame m' sp i"
  unfolding read_frame_def
proof (rule read_word_cong)
  fix k :: usize assume "k < 4"
  then have "in_range (word_addr sp i + k) (word_addr sp i) 4" by (simp add: in_range_def)
  with assms(2) have "in_range (word_addr sp i + k) sp 128" by (rule in_frame)
  then show "m (word_addr sp i + k) = m' (word_addr sp i + k)" by (rule assms(1))
qed

section \<open>Copies\<close>

lemma copy_bytes_outside: "\<not> in_range a dst n \<Longrightarrow> copy_bytes m src dst n a = m a"
  by (simp add: copy_bytes_def in_range_def)

lemma copy_bytes_delivers:
  "bytes_at (copy_bytes m src dst n) dst (unat n) = bytes_at m src (unat n)"
proof -
  have "of_nat i < n" if "i < unat n" for i
    using that unat_u32_less [of n] by (simp add: word_less_nat_alt unat_of_nat)
  then show ?thesis by (simp add: bytes_at_def copy_bytes_def)
qed

lemma copy_bytes_zero [simp]: "copy_bytes m src dst 0 = m"
  by (simp add: copy_bytes_def fun_eq_iff)

end
