(* ===== verification/Tcb.thy ===== *)
theory Tcb
  imports Memory
begin

text \<open>
  Task control blocks (\<^verbatim>\<open>scheduler/src/tcb.rs\<close>): capabilities, task states, the initial stack
  frame of a task, and the register context that \<^verbatim>\<open>kernel/src/trap_entry.s\<close> and
  \<^verbatim>\<open>start_first_task\<close> (\<^verbatim>\<open>kernel/src/main.rs\<close>) save to and load from such frames.
\<close>

section \<open>Capabilities, task states, control blocks\<close>

datatype Capability =
    NoCap
  | Mutex (mutex_idx: u8) (can_lock: bool) (can_unlock: bool)
  | Ipc (endpoint_idx: u8) (can_send: bool) (can_recv: bool)

datatype TaskState =
    Ready
  | Running
  | Blocked u32
  | BlockedOnMutex u8
  | BlockedOnIpcSend u8 usize usize
  | BlockedOnIpcRecv u8 usize usize
  | Terminated

record TaskControlBlock =
  saved_sp :: usize
  priority :: u8
  active_priority :: u8
  task_state :: TaskState
  task_name :: string
  capabilities :: "Capability list"

section \<open>The initial frame\<close>

definition clear_frame :: "usize \<Rightarrow> mem \<Rightarrow> mem" where
  "clear_frame sp m = fold (\<lambda>i m. write_frame m sp i 0) [0..<32] m"

text \<open>The stack is the byte slice of length \<open>len\<close> at address \<open>start\<close>; the result is the new
  memory and the stack pointer.\<close>

definition initialize_stack :: "usize \<Rightarrow> usize \<Rightarrow> usize \<Rightarrow> mem \<Rightarrow> mem \<times> usize" where
  "initialize_stack start len entry_fn m =
     (let stack_end = start + len;
          frame_bytes = 32 * 4;
          aligned_sp = (stack_end AND NOT 0xF) - frame_bytes;
          m1 = clear_frame aligned_sp m;
          m2 = write_frame m1 aligned_sp 28 entry_fn;
          m3 = write_frame m2 aligned_sp 29 0x80
      in (m3, aligned_sp))"

section \<open>Register contexts\<close>

text \<open>The registers by number (\<open>x0\<close> to \<open>x31\<close>), with the program counter and \<^verbatim>\<open>mstatus\<close> that
  \<^verbatim>\<open>mret\<close> uses.\<close>

record cpu_context =
  regs :: "nat \<Rightarrow> u32"
  mepc :: u32
  mstatus :: u32

text \<open>Word \<open>i\<close> of a frame holds register \<open>saved_regs ! i\<close>.\<close>

definition saved_regs :: "nat list" where
  "saved_regs = [1, 5, 6, 7, 8, 9, 10, 11, 12, 13, 14, 15, 16, 17,
     18, 19, 20, 21, 22, 23, 24, 25, 26, 27, 28, 29, 30, 31]"

definition save_regs :: "(nat \<Rightarrow> u32) \<Rightarrow> usize \<Rightarrow> mem \<Rightarrow> mem" where
  "save_regs r sp m = fold (\<lambda>i m. write_frame m sp i (r (saved_regs ! i))) [0..<28] m"

definition trap_entry_save :: "cpu_context \<Rightarrow> mem \<Rightarrow> mem \<times> usize" where
  "trap_entry_save c m =
     (let sp = regs c 2 - 128;
          m1 = save_regs (regs c) sp m;
          m2 = write_frame m1 sp 28 (mepc c);
          m3 = write_frame m2 sp 29 (mstatus c)
      in (m3, sp))"

fun load_regs :: "nat list \<Rightarrow> nat \<Rightarrow> mem \<Rightarrow> usize \<Rightarrow> (nat \<Rightarrow> u32) \<Rightarrow> (nat \<Rightarrow> u32)" where
  "load_regs [] i m sp r = r"
| "load_regs (x # xs) i m sp r = load_regs xs (Suc i) m sp (r(x := read_frame m sp i))"

text \<open>Registers that no frame holds (\<open>x0\<close>, \<open>gp\<close> and \<open>tp\<close>, that is \<open>x3\<close> and \<open>x4\<close>) keep the value \<open>r\<close> that the
  hart has when the frame is loaded.\<close>

definition load_context :: "(nat \<Rightarrow> u32) \<Rightarrow> mem \<Rightarrow> usize \<Rightarrow> cpu_context" where
  "load_context r m sp =
     \<lparr>regs = (load_regs saved_regs 0 m sp r)(2 := sp + 128),
      mepc = read_frame m sp 28, mstatus = read_frame m sp 29\<rparr>"

text \<open>The frame at \<open>sp\<close> gives back context \<open>c\<close>, whatever the hart's registers hold when it is loaded: all registers
  but \<open>x0\<close>, \<open>gp\<close> and \<open>tp\<close>, which stay as they are.\<close>

definition comes_back :: "mem \<Rightarrow> usize \<Rightarrow> cpu_context \<Rightarrow> bool" where
  "comes_back m sp c \<longleftrightarrow> (\<forall>r. mepc (load_context r m sp) = mepc c \<and> mstatus (load_context r m sp) = mstatus c
     \<and> (\<forall>x<32. regs (load_context r m sp) x = (if x \<in> {0, 3, 4} then r x else regs c x)))"

section \<open>Lemmas on frames\<close>

lemma fold_write_frame_read:
  assumes "j < 32" "n \<le> 32"
  shows "read_frame (fold (\<lambda>i m. write_frame m sp i (f i)) [0..<n] m) sp j
     = (if j < n then f j else read_frame m sp j)"
  using assms(2) by (induction n) (use assms(1) in \<open>auto simp: read_write_frame\<close>)

lemma fold_write_frame_outside:
  assumes "\<not> in_range b sp 128" "n \<le> 32"
  shows "fold (\<lambda>i m. write_frame m sp i (f i)) [0..<n] m b = m b"
  using assms(2) by (induction n) (use assms(1) in \<open>auto simp: write_frame_outside\<close>)

lemmas clear_frame_read = fold_write_frame_read [where f = "\<lambda>_. 0" and n = 32,
  folded clear_frame_def, simplified]

lemmas clear_frame_outside = fold_write_frame_outside [where f = "\<lambda>_. 0" and n = 32,
  folded clear_frame_def, simplified]

lemma initialize_stack_read:
  assumes "initialize_stack start len entry m = (m', sp)" "j < 32"
  shows "read_frame m' sp j = (if j = 28 then entry else if j = 29 then 0x80 else 0)"
  using assms by (auto simp: initialize_stack_def Let_def read_write_frame clear_frame_read)

lemma initialize_stack_outside:
  assumes "initialize_stack start len entry m = (m', sp)" "\<not> in_range b sp 128"
  shows "m' b = m b"
  using assms by (auto simp: initialize_stack_def Let_def write_frame_outside clear_frame_outside)

lemma initialize_stack_sp:
  "snd (initialize_stack start len entry m) = ((start + len) AND NOT 0xF) - 128"
  by (simp add: initialize_stack_def Let_def)

lemma align_16_nat: "unat (x AND NOT 0xF) = 16 * (unat x div 16)" for x :: usize
proof -
  have "x AND NOT (mask 4) = push_bit 4 (drop_bit 4 x)"
    by (rule bit_word_eqI) (auto simp: bit_simps)
  moreover have "unat (drop_bit 4 x) = unat x div 16"
    by (simp add: drop_bit_eq_div unat_div)
  moreover have "16 * (unat x div 16) < 2 ^ 32"
    using unat_u32_less [of x] by simp
  ultimately have "unat (x AND NOT (mask 4)) = 16 * (unat x div 16)"
    by (simp add: push_bit_eq_mult unat_word_ariths)
  then show ?thesis by (simp add: mask_eq_exp_minus_1)
qed

lemma initialize_stack_inside:
  fixes entry :: usize and m :: mem
  assumes "unat start + unat len < 2 ^ 32" "143 \<le> unat len"
  defines "sp \<equiv> snd (initialize_stack start len entry m)"
  shows "unat sp mod 16 = 0" "unat start \<le> unat sp" "unat sp + 128 \<le> unat start + unat len"
proof -
  have e: "unat (start + len) = unat start + unat len"
    using assms(1) by (simp add: unat_plus_if')
  have "unat ((start + len) AND NOT 0xF) = 16 * ((unat start + unat len) div 16)"
    by (simp only: align_16_nat e)
  moreover have "128 \<le> 16 * ((unat start + unat len) div 16)"
    using assms(2) by linarith
  ultimately have sp: "unat sp = 16 * ((unat start + unat len) div 16) - 128"
    unfolding sp_def initialize_stack_sp by (simp add: unat_sub_if')
  have "unat sp = 16 * ((unat start + unat len) div 16 - 8)"
    unfolding sp by (simp add: diff_mult_distrib2)
  then show "unat sp mod 16 = 0" by simp
  show "unat start \<le> unat sp" "unat sp + 128 \<le> unat start + unat len"
    unfolding sp using assms(2) by linarith+
qed

lemma load_regs_untouched: "x \<notin> set xs \<Longrightarrow> load_regs xs i m sp r x = r x"
  by (induction xs arbitrary: i r) auto

lemma load_regs_nth:
  "distinct xs \<Longrightarrow> k < length xs \<Longrightarrow> load_regs xs i m sp r (xs ! k) = read_frame m sp (i + k)"
proof (induction xs arbitrary: i r k)
  case (Cons x xs)
  then show ?case
    by (cases k) (auto simp: load_regs_untouched)
qed simp

lemma saved_regs_facts: "distinct saved_regs" "length saved_regs = 28" "2 \<notin> set saved_regs"
  by (simp_all add: saved_regs_def)

lemma load_context_reg:
  assumes "i < 28"
  shows "regs (load_context r m sp) (saved_regs ! i) = read_frame m sp i"
proof -
  have "saved_regs ! i \<noteq> 2" using assms saved_regs_facts nth_mem by metis
  then show ?thesis
    using assms load_regs_nth [of saved_regs i 0 m sp r] saved_regs_facts
    by (simp add: load_context_def)
qed

lemma load_context_other:
  "x \<notin> set saved_regs \<Longrightarrow> x \<noteq> 2 \<Longrightarrow> regs (load_context r m sp) x = r x"
  by (simp add: load_context_def load_regs_untouched)

lemma trap_entry_save_read:
  assumes "trap_entry_save c m = (m', sp)" "i < 30"
  shows "read_frame m' sp i
     = (if i = 28 then mepc c else if i = 29 then mstatus c else regs c (saved_regs ! i))"
  using assms
  by (auto simp: trap_entry_save_def save_regs_def Let_def read_write_frame fold_write_frame_read)

lemma saved_regs_upt: "saved_regs = 1 # [5..<32]"
  by (simp add: saved_regs_def upt_rec)

lemma saved_regs_cases:
  assumes "x \<in> set saved_regs"
  obtains i where "i < 28" "x = saved_regs ! i"
  using assms saved_regs_facts(2) that by (metis in_set_conv_nth)

lemma saved_regs_set: "x < 32 \<Longrightarrow> x \<in> set saved_regs \<longleftrightarrow> x \<notin> {0, 2, 3, 4}" "x \<in> set saved_regs \<Longrightarrow> x < 32"
proof -
  have s: "set saved_regs = insert 1 {5..<32}" by (simp only: saved_regs_upt list.set set_upt)
  show "x < 32 \<Longrightarrow> x \<in> set saved_regs \<longleftrightarrow> x \<notin> {0, 2, 3, 4}" "x \<in> set saved_regs \<Longrightarrow> x < 32"
    unfolding s by auto
qed

lemma load_context_leftover:
  "regs (load_context r m sp) x = (if x \<in> set saved_regs \<or> x = 2 then regs (load_context r' m sp) x else r x)"
proof (cases "x \<in> set saved_regs")
  case True
  then obtain i where "i < 28" "x = saved_regs ! i" by (rule saved_regs_cases)
  then show ?thesis using True by (simp add: load_context_reg)
next
  case False
  then show ?thesis by (cases "x = 2") (simp_all add: load_context_other, simp add: load_context_def)
qed

lemma comes_backI:
  assumes c: "load_context r' m sp = c"
  shows "comes_back m sp c"
proof -
  have "regs (load_context r m sp) x = (if x \<in> {0, 3, 4} then r x else regs c x)" if "x < 32" for r x
    using load_context_leftover [of r m sp x r'] c saved_regs_set(1) [OF that] by auto
  moreover have "mepc (load_context r m sp) = mepc c" "mstatus (load_context r m sp) = mstatus c" for r
    using arg_cong [OF c, of mepc] arg_cong [OF c, of mstatus] by (simp_all add: load_context_def)
  ultimately show ?thesis by (simp add: comes_back_def)
qed

lemma comes_backD:
  assumes c: "comes_back m sp c"
  shows "load_context (regs c) m sp = c"
proof -
  have "regs (load_context (regs c) m sp) x = regs c x" for x
    using c load_context_other [of x "regs c" m sp] saved_regs_set(2) [of x]
    by (cases "x < 32") (auto simp: comes_back_def)
  then show ?thesis using c by (intro cpu_context.equality) (auto simp: comes_back_def)
qed

lemma trap_entry_sp: "trap_entry_save c m = (m', sp) \<Longrightarrow> sp = regs c 2 - 128"
  by (auto simp: trap_entry_save_def Let_def)

lemma trap_entry_outside:
  "trap_entry_save c m = (m', sp) \<Longrightarrow> \<not> in_range b sp 128 \<Longrightarrow> m' b = m b"
  by (auto simp: trap_entry_save_def save_regs_def Let_def write_frame_outside fold_write_frame_outside)

lemma trap_entry_restores:
  assumes s: "trap_entry_save c m = (m', sp)"
  shows "load_context (regs c) m' sp = c"
proof (rule cpu_context.equality)
  show "regs (load_context (regs c) m' sp) = regs c"
  proof
    fix x
    show "regs (load_context (regs c) m' sp) x = regs c x"
    proof (cases "x \<in> set saved_regs")
      case True
      then obtain i where "i < 28" "x = saved_regs ! i" by (rule saved_regs_cases)
      then show ?thesis by (simp add: load_context_reg trap_entry_save_read [OF s])
    next
      case False
      then show ?thesis
        by (cases "x = 2") (simp_all add: load_context_other, simp add: load_context_def trap_entry_sp [OF s])
    qed
  qed
qed (simp_all add: load_context_def trap_entry_save_read [OF s])

section \<open>Properties\<close>

text \<open>C38: for a stack of at least 143 bytes that does not wrap around the address space, the
  initial frame lies inside the stack, its address is 16-byte aligned, no byte outside the frame
  changes, and loading the context starts the task at its entry point in user mode with
  interrupts enabled on return (\<^verbatim>\<open>MPP = 0\<close>, \<^verbatim>\<open>MPIE = 1\<close>) and all 28 saved registers zero.\<close>

theorem initialize_stack_starts_task:
  assumes "unat start + unat len < 2 ^ 32" and "143 \<le> unat len"
  shows "let (m', sp) = initialize_stack start len entry_fn m; c = load_context r m' sp in
     unat sp mod 16 = 0 \<and> unat start \<le> unat sp \<and> unat sp + 128 \<le> unat start + unat len
     \<and> (\<forall>b. \<not> in_range b sp 128 \<longrightarrow> m' b = m b)
     \<and> mepc c = entry_fn \<and> \<not> bit (mstatus c) 11 \<and> \<not> bit (mstatus c) 12 \<and> bit (mstatus c) 7
     \<and> (\<forall>x\<in>set saved_regs. regs c x = 0) \<and> regs c 2 = sp + 128"
proof -
  obtain m' sp where i: "initialize_stack start len entry_fn m = (m', sp)"
    by (cases "initialize_stack start len entry_fn m")
  note in_stack = initialize_stack_inside [OF assms, of entry_fn m, unfolded i snd_conv]
  have "regs (load_context r m' sp) x = 0" if "x \<in> set saved_regs" for x
    using that by (rule saved_regs_cases)
      (simp add: load_context_reg initialize_stack_read [OF i])
  then show ?thesis
    using in_stack initialize_stack_outside [OF i]
    by (simp add: i load_context_def initialize_stack_read [OF i] bit_numeral_rec)
qed

theorem initialize_stack_starts_task_witness:
  "let (m', sp) = initialize_stack 0x3FC80400 1024 0x42000100 (\<lambda>_. 7);
       c = load_context (\<lambda>_. 1) m' sp in
     unat sp mod 16 = 0 \<and> mepc c = 0x42000100 \<and> regs c 10 = 0 \<and> regs c 2 = sp + 128"
  using initialize_stack_starts_task
      [of "0x3FC80400" 1024 "0x42000100" "\<lambda>_. 7" "\<lambda>_. 1"]
  by (simp add: Let_def split_beta saved_regs_def)

text \<open>The context that trap entry stores below the task's stack pointer is the context that
  the return path loads: saving and restoring gives back every register, the program counter and
  \<^verbatim>\<open>mstatus\<close>, and touches only the 128 bytes below the stack pointer.\<close>

lemma trap_entry_roundtrip:
  "let (m', sp) = trap_entry_save c m in
     load_context (regs c) m' sp = c \<and> sp = regs c 2 - 128
       \<and> (\<forall>b. \<not> in_range b sp 128 \<longrightarrow> m' b = m b)"
  by (cases "trap_entry_save c m") (auto dest: trap_entry_sp trap_entry_restores trap_entry_outside)

end
