(* ===== verification/Bitmap.thy ===== *)
theory Bitmap
  imports Tcb
begin

text \<open>
  The cyclic partition scheduler (\<^verbatim>\<open>scheduler/src/bitmap.rs\<close>). The raw pointer
  \<^verbatim>\<open>old_sp_ptr\<close> that \<^verbatim>\<open>schedule\<close> returns points into the task table; the model returns the
  index of the slot whose \<open>saved_sp\<close> it addresses.
\<close>

section \<open>State and operations\<close>

definition MAX_PARTITIONS :: nat where
  "MAX_PARTITIONS = 32"

record BitMapScheduler =
  task_table :: "TaskControlBlock option list"
  current_partition_idx :: nat
  partition_durations :: "u32 list"
  remaining_mif_ticks :: u32

definition scheduler_new :: BitMapScheduler where
  "scheduler_new = \<lparr>task_table = replicate MAX_PARTITIONS None, current_partition_idx = 0,
     partition_durations = replicate MAX_PARTITIONS 100, remaining_mif_ticks = 100\<rparr>"

definition register_task :: "TaskControlBlock \<Rightarrow> (BitMapScheduler, unit) km" where
  "register_task tcb s =
     (let idx = unat (priority tcb) in
      if \<not> idx < MAX_PARTITIONS then (s, Panic AssertFailed)
      else (s\<lparr>task_table := (task_table s)[idx := Some (tcb\<lparr>active_priority := priority tcb\<rparr>)]\<rparr>,
            Ok ()))"

text \<open>The state of the task in a slot, if there is one.\<close>

definition state_at :: "BitMapScheduler \<Rightarrow> nat \<Rightarrow> TaskState option" where
  "state_at s i = map_option task_state (slot (task_table s) i)"

text \<open>Pass 1: the loop over the 32 slots from \<open>i\<close> on, idle slot 31 excluded.\<close>

fun next_ready :: "BitMapScheduler \<Rightarrow> nat \<Rightarrow> nat \<Rightarrow> nat option" where
  "next_ready s i 0 = None"
| "next_ready s i (Suc n) =
     (if i \<noteq> 31 \<and> state_at s i = Some Ready then Some i
      else next_ready s ((i + 1) mod MAX_PARTITIONS) n)"

text \<open>Pass 1, then pass 2: the idle slot.\<close>

definition select_next :: "BitMapScheduler \<Rightarrow> nat \<Rightarrow> nat option" where
  "select_next s current_idx =
     (case next_ready s ((current_idx + 1) mod MAX_PARTITIONS) MAX_PARTITIONS of
        Some i \<Rightarrow> Some i
      | None \<Rightarrow> (if state_at s 31 = Some Ready then Some 31 else None))"

definition current_runnable :: "BitMapScheduler \<Rightarrow> bool" where
  "current_runnable s \<longleftrightarrow> (case state_at s (current_partition_idx s) of
       Some st \<Rightarrow> st = Running \<or> st = Ready
     | None \<Rightarrow> False)"

text \<open>The partition swap: budget, then the states of the outgoing and the incoming task.\<close>

definition set_state :: "TaskState \<Rightarrow> TaskControlBlock \<Rightarrow> TaskControlBlock" where
  "set_state st tcb = tcb\<lparr>task_state := st\<rparr>"

definition demote :: "TaskControlBlock \<Rightarrow> TaskControlBlock" where
  "demote tcb = (if task_state tcb = Running then set_state Ready tcb else tcb)"

definition swap_partition :: "nat \<Rightarrow> nat \<Rightarrow> BitMapScheduler \<Rightarrow> BitMapScheduler" where
  "swap_partition current_idx next_idx s =
     s\<lparr>current_partition_idx := next_idx,
       remaining_mif_ticks := partition_durations s ! next_idx,
       task_table := upd_slot (upd_slot (task_table s) current_idx demote) next_idx
                       (set_state Running)\<rparr>"

definition charge_tick :: "bool \<Rightarrow> BitMapScheduler \<Rightarrow> BitMapScheduler" where
  "charge_tick is_tick s =
     (if is_tick \<and> remaining_mif_ticks s > 0
      then s\<lparr>remaining_mif_ticks := remaining_mif_ticks s - 1\<rparr> else s)"

definition schedule :: "bool \<Rightarrow> (BitMapScheduler, (nat \<times> usize) option) km" where
  "schedule is_tick s0 =
     (let current_idx = current_partition_idx s0; s = charge_tick is_tick s0 in
      if \<not> current_idx < length (task_table s) then (s, Panic IndexOutOfBounds)
      else if remaining_mif_ticks s = 0 \<or> \<not> is_tick \<or> \<not> current_runnable s then
        (case select_next s current_idx of
           None \<Rightarrow>
             (if current_runnable s \<and> remaining_mif_ticks s = 0
              then s\<lparr>remaining_mif_ticks := partition_durations s ! current_idx\<rparr> else s, Ok None)
         | Some next_idx \<Rightarrow>
             (let s1 = swap_partition current_idx next_idx s in
              case slot (task_table s1) current_idx of
                None \<Rightarrow> (s1, Ok None)
              | Some _ \<Rightarrow>
                  (case slot (task_table s1) next_idx of
                     None \<Rightarrow> (s1, Ok None)
                   | Some tcb \<Rightarrow> (s1, Ok (Some (current_idx, saved_sp tcb))))))
      else (s, Ok None))"

text \<open>Consecutive timer ticks with nothing else happening.\<close>

fun sched_ticks :: "nat \<Rightarrow> BitMapScheduler \<Rightarrow> BitMapScheduler" where
  "sched_ticks 0 s = s"
| "sched_ticks (Suc n) s = sched_ticks n (fst (schedule True s))"

text \<open>What the array types and the boot sequence establish: 32 slots, a current partition that
  is registered, and only the current partition marked \<open>Running\<close>.\<close>

definition sched_shape :: "BitMapScheduler \<Rightarrow> bool" where
  "sched_shape s \<longleftrightarrow> length (task_table s) = 32 \<and> length (partition_durations s) = 32
     \<and> current_partition_idx s < 32"

definition sched_wf :: "BitMapScheduler \<Rightarrow> bool" where
  "sched_wf s \<longleftrightarrow> sched_shape s \<and> slot (task_table s) (current_partition_idx s) \<noteq> None
     \<and> (\<forall>i. state_at s i = Some Running \<longrightarrow> i = current_partition_idx s)"

text \<open>Registered slots carry their index as base priority.\<close>

definition prio_wf :: "BitMapScheduler \<Rightarrow> bool" where
  "prio_wf s \<longleftrightarrow> (\<forall>i tcb. slot (task_table s) i = Some tcb \<longrightarrow> unat (priority tcb) = i)"

section \<open>Lemmas\<close>

lemma state_at_less: "state_at s i = Some st \<Longrightarrow> i < length (task_table s)"
  by (auto simp: state_at_def dest: slot_Some_less)

lemma charge_tick_simps [simp]:
  "task_table (charge_tick b s) = task_table s"
  "current_partition_idx (charge_tick b s) = current_partition_idx s"
  "partition_durations (charge_tick b s) = partition_durations s"
  "state_at (charge_tick b s) i = state_at s i"
  "current_runnable (charge_tick b s) = current_runnable s"
  by (simp_all add: charge_tick_def state_at_def current_runnable_def)

lemma charge_tick_form: "\<exists>r. charge_tick b s = s\<lparr>remaining_mif_ticks := r\<rparr>"
  by (auto simp: charge_tick_def intro: exI [of _ "remaining_mif_ticks s"])

lemma next_ready_cong:
  "(\<And>i. state_at s i = state_at s' i) \<Longrightarrow> next_ready s i n = next_ready s' i n"
  by (induction n arbitrary: i) auto

lemma select_next_cong:
  "(\<And>i. state_at s i = state_at s' i) \<Longrightarrow> select_next s c = select_next s' c"
  unfolding select_next_def using next_ready_cong by metis

lemma budget_simps [simp]:
  "state_at (s\<lparr>remaining_mif_ticks := r\<rparr>) i = state_at s i"
  "current_runnable (s\<lparr>remaining_mif_ticks := r\<rparr>) = current_runnable s"
  "select_next (s\<lparr>remaining_mif_ticks := r\<rparr>) c = select_next s c"
proof -
  show st: "state_at (s\<lparr>remaining_mif_ticks := r\<rparr>) i = state_at s i" for i
    by (simp add: state_at_def)
  show "current_runnable (s\<lparr>remaining_mif_ticks := r\<rparr>) = current_runnable s"
    by (simp add: current_runnable_def st)
  show "select_next (s\<lparr>remaining_mif_ticks := r\<rparr>) c = select_next s c"
    by (rule select_next_cong) (rule st)
qed

lemma select_next_charge [simp]: "select_next (charge_tick b s) c = select_next s c"
  by (rule select_next_cong) simp

lemma next_ready_Some:
  assumes "next_ready s i n = Some j" "i < 32"
  shows "\<exists>d<n. j = (i + d) mod 32 \<and> j \<noteq> 31 \<and> state_at s j = Some Ready
     \<and> (\<forall>e<d. (i + e) mod 32 \<noteq> 31 \<longrightarrow> state_at s ((i + e) mod 32) \<noteq> Some Ready)"
  using assms
proof (induction n arbitrary: i)
  case (Suc n)
  show ?case
  proof (cases "i \<noteq> 31 \<and> state_at s i = Some Ready")
    case True
    with Suc.prems show ?thesis by (intro exI [of _ 0]) auto
  next
    case False
    with Suc.prems have "next_ready s ((i + 1) mod 32) n = Some j"
      by (auto simp: MAX_PARTITIONS_def split: if_splits)
    from Suc.IH [OF this] obtain d where d: "d < n" "j = ((i + 1) mod 32 + d) mod 32" "j \<noteq> 31"
      "state_at s j = Some Ready"
      "\<forall>e<d. ((i + 1) mod 32 + e) mod 32 \<noteq> 31
         \<longrightarrow> state_at s (((i + 1) mod 32 + e) mod 32) \<noteq> Some Ready" by auto
    have step: "((i + 1) mod 32 + e) mod 32 = (i + Suc e) mod 32" for e
      by (simp add: mod_simps)
    have "(i + e) mod 32 \<noteq> 31 \<longrightarrow> state_at s ((i + e) mod 32) \<noteq> Some Ready" if "e < Suc d" for e
    proof (cases e)
      case 0
      with False Suc.prems(2) show ?thesis by auto
    next
      case (Suc e')
      with that d(5) show ?thesis by (simp only: step [symmetric] Suc) simp
    qed
    moreover have "j = (i + Suc d) mod 32" using d(2) by (simp only: step)
    ultimately show ?thesis using d(1,3,4) by (intro exI [of _ "Suc d"]) simp
  qed
qed simp

lemma next_ready_None:
  assumes "next_ready s i n = None" "d < n" "i < 32" "(i + d) mod 32 \<noteq> 31"
  shows "state_at s ((i + d) mod 32) \<noteq> Some Ready"
  using assms
proof (induction n arbitrary: i d)
  case (Suc n)
  from Suc.prems(1) have head: "\<not> (i \<noteq> 31 \<and> state_at s i = Some Ready)"
    and rest: "next_ready s ((i + 1) mod 32) n = None"
    by (auto simp: MAX_PARTITIONS_def split: if_splits)
  show ?case
  proof (cases d)
    case 0
    with head Suc.prems show ?thesis by auto
  next
    case (Suc d')
    have "((i + 1) mod 32 + d') mod 32 = (i + d) mod 32" by (simp add: Suc mod_simps)
    with Suc.IH [OF rest, of d'] Suc Suc.prems show ?thesis by auto
  qed
qed simp

text \<open>The cyclic distance from \<open>c\<close> forward to \<open>j\<close>, between 1 and 32.\<close>

definition ahead :: "nat \<Rightarrow> nat \<Rightarrow> nat" where
  "ahead c j = (if c < j then j - c else j + 32 - c)"

lemma ahead_bounds: "c < 32 \<Longrightarrow> j < 32 \<Longrightarrow> 1 \<le> ahead c j \<and> ahead c j \<le> 32"
  by (auto simp: ahead_def)

lemma ahead_reaches:
  "c < 32 \<Longrightarrow> j < 32 \<Longrightarrow> ((c + 1) mod 32 + (ahead c j - 1)) mod 32 = j"
  by (auto simp: ahead_def mod_if)

lemma ahead_unique:
  "c < 32 \<Longrightarrow> d < 32 \<Longrightarrow> ahead c (((c + 1) mod 32 + d) mod 32) = Suc d"
  by (auto simp: ahead_def mod_if)

lemma ahead_inj: "c < 32 \<Longrightarrow> i < 32 \<Longrightarrow> j < 32 \<Longrightarrow> ahead c i = ahead c j \<Longrightarrow> i = j"
  by (auto simp: ahead_def split: if_splits)

lemma ahead_step:
  "c < 32 \<Longrightarrow> i < 32 \<Longrightarrow> j < 32 \<Longrightarrow> ahead c i < ahead c j \<Longrightarrow> ahead i j = ahead c j - ahead c i"
  by (auto simp: ahead_def split: if_splits)

text \<open>The selection is the first ready slot in cyclic order, with the idle slot last.\<close>

lemma select_next_Some:
  assumes "select_next s c = Some j" "c < 32" "length (task_table s) = 32"
  shows "j < 32" "state_at s j = Some Ready"
    "\<And>i. i \<noteq> 31 \<Longrightarrow> state_at s i = Some Ready \<Longrightarrow> j \<noteq> 31 \<and> ahead c j \<le> ahead c i"
proof -
  have c': "(c + 1) mod 32 < 32" by simp
  show "state_at s j = Some Ready"
    using assms(1) next_ready_Some [OF _ c', of s MAX_PARTITIONS j]
    by (auto simp: select_next_def MAX_PARTITIONS_def split: option.splits if_splits)
  then show "j < 32" using state_at_less assms(3) by metis
  fix i assume i: "i \<noteq> 31" "state_at s i = Some Ready"
  then have "i < 32" using state_at_less assms(3) by metis
  have reach: "((c + 1) mod 32 + (ahead c i - 1)) mod 32 = i" and "ahead c i - 1 < 32"
    using ahead_reaches [OF assms(2) \<open>i < 32\<close>] ahead_bounds [OF assms(2) \<open>i < 32\<close>] by auto
  then have "next_ready s ((c + 1) mod 32) 32 \<noteq> None"
    using next_ready_None [OF _ _ c', of s 32 "ahead c i - 1"] i by auto
  then have nr: "next_ready s ((c + 1) mod 32) 32 = Some j"
    using assms(1) by (auto simp: select_next_def MAX_PARTITIONS_def split: option.splits)
  then obtain d where d: "d < 32" "j = ((c + 1) mod 32 + d) mod 32" "j \<noteq> 31"
    "\<forall>e<d. ((c + 1) mod 32 + e) mod 32 \<noteq> 31
       \<longrightarrow> state_at s (((c + 1) mod 32 + e) mod 32) \<noteq> Some Ready"
    using next_ready_Some [OF nr c'] by auto
  have "\<not> ahead c i - 1 < d"
  proof
    assume "ahead c i - 1 < d"
    with d(4) reach i show False by metis
  qed
  moreover have "ahead c j = Suc d" using ahead_unique [OF assms(2) d(1)] d(2) by simp
  moreover have "1 \<le> ahead c i" using ahead_bounds [OF assms(2) \<open>i < 32\<close>] by simp
  ultimately show "j \<noteq> 31 \<and> ahead c j \<le> ahead c i" using d(3) by simp
qed

lemma select_next_None:
  assumes "select_next s c = None" "c < 32" "length (task_table s) = 32"
  shows "state_at s i \<noteq> Some Ready"
proof
  assume r: "state_at s i = Some Ready"
  then have "i < 32" using state_at_less assms(3) by metis
  have c': "(c + 1) mod 32 < 32" by simp
  show False
  proof (cases "i = 31")
    case True
    with r assms(1) show False by (auto simp: select_next_def split: option.splits if_splits)
  next
    case False
    have "next_ready s ((c + 1) mod 32) 32 = None"
      using assms(1) by (auto simp: select_next_def MAX_PARTITIONS_def split: option.splits)
    moreover have "((c + 1) mod 32 + (ahead c i - 1)) mod 32 = i" and "ahead c i - 1 < 32"
      using ahead_reaches [OF assms(2) \<open>i < 32\<close>] ahead_bounds [OF assms(2) \<open>i < 32\<close>] by auto
    ultimately show False
      using next_ready_None [OF _ _ c', of s 32 "ahead c i - 1"] False r by auto
  qed
qed

lemma set_state_simps [simp]:
  "saved_sp (set_state st tcb) = saved_sp tcb" "priority (set_state st tcb) = priority tcb"
  "active_priority (set_state st tcb) = active_priority tcb"
  "task_name (set_state st tcb) = task_name tcb"
  "capabilities (set_state st tcb) = capabilities tcb" "task_state (set_state st tcb) = st"
  by (simp_all add: set_state_def)

lemma demote_simps [simp]:
  "saved_sp (demote tcb) = saved_sp tcb" "priority (demote tcb) = priority tcb"
  "active_priority (demote tcb) = active_priority tcb"
  "task_name (demote tcb) = task_name tcb" "capabilities (demote tcb) = capabilities tcb"
  "task_state (demote tcb) = (if task_state tcb = Running then Ready else task_state tcb)"
  by (simp_all add: demote_def)

lemma slot_swap:
  "slot (task_table (swap_partition c j s)) i =
     map_option (\<lambda>t. (if i = j then set_state Running else id) ((if i = c then demote else id) t))
       (slot (task_table s) i)"
  by (cases "slot (task_table s) i") (auto simp: swap_partition_def slot_upd_slot)

lemma swap_partition_simps [simp]:
  "current_partition_idx (swap_partition c j s) = j"
  "partition_durations (swap_partition c j s) = partition_durations s"
  "remaining_mif_ticks (swap_partition c j s) = partition_durations s ! j"
  "length (task_table (swap_partition c j s)) = length (task_table s)"
  by (simp_all add: swap_partition_def)

lemma state_at_swap:
  "state_at (swap_partition c j s) i =
     (case state_at s i of None \<Rightarrow> None
      | Some st \<Rightarrow> Some (if i = j then Running else if i = c \<and> st = Running then Ready else st))"
  by (cases "slot (task_table s) i") (auto simp: state_at_def slot_swap)

text \<open>The three outcomes of a call on a well-formed scheduler.\<close>

definition resched :: "bool \<Rightarrow> BitMapScheduler \<Rightarrow> bool" where
  "resched is_tick s \<longleftrightarrow> remaining_mif_ticks (charge_tick is_tick s) = 0 \<or> \<not> is_tick
     \<or> \<not> current_runnable s"

lemma schedule_cases:
  assumes shape: "sched_shape s" and reg: "slot (task_table s) (current_partition_idx s) \<noteq> None"
  obtains
    (stay) "\<not> resched is_tick s" "schedule is_tick s = (charge_tick is_tick s, Ok None)"
  | (idle) r where "resched is_tick s" "\<And>i. state_at s i \<noteq> Some Ready"
      "schedule is_tick s = (s\<lparr>remaining_mif_ticks := r\<rparr>, Ok None)"
  | (switch) j tcb where "resched is_tick s" "select_next s (current_partition_idx s) = Some j"
      "slot (task_table s) j = Some tcb" "task_state tcb = Ready"
      "schedule is_tick s =
         (swap_partition (current_partition_idx s) j (charge_tick is_tick s),
          Ok (Some (current_partition_idx s, saved_sp tcb)))"
proof (cases "resched is_tick s")
  case False
  then show thesis using stay shape by (simp add: schedule_def resched_def Let_def sched_shape_def)
next
  case True
  let ?c = "current_partition_idx s"
  have c: "?c < 32" "length (task_table s) = 32" using shape by (auto simp: sched_shape_def)
  show thesis
  proof (cases "select_next s ?c")
    case None
    then have "state_at s i \<noteq> Some Ready" for i using c select_next_None by blast
    moreover have "\<exists>r. schedule is_tick s = (s\<lparr>remaining_mif_ticks := r\<rparr>, Ok None)"
    proof (cases "current_runnable s \<and> remaining_mif_ticks (charge_tick is_tick s) = 0")
      case True
      obtain r where "charge_tick is_tick s = s\<lparr>remaining_mif_ticks := r\<rparr>"
        using charge_tick_form by blast
      with True show ?thesis using None c by (auto simp: schedule_def Let_def)
    next
      case False
      then show ?thesis
        using \<open>resched is_tick s\<close> None c
        by (auto simp: schedule_def resched_def Let_def charge_tick_form)
    qed
    ultimately show thesis using True idle by blast
  next
    case (Some j)
    then have "state_at s j = Some Ready" using c select_next_Some(2) by blast
    then obtain tcb where tcb: "slot (task_table s) j = Some tcb" "task_state tcb = Ready"
      by (auto simp: state_at_def)
    obtain old where old: "slot (task_table s) ?c = Some old" using reg by auto
    have "schedule is_tick s = (swap_partition ?c j (charge_tick is_tick s),
        Ok (Some (?c, saved_sp tcb)))"
      using True Some c tcb old
      by (auto simp: schedule_def resched_def Let_def slot_swap)
    with True Some tcb show thesis using switch by blast
  qed
qed

lemma sched_wfD:
  assumes "sched_wf s"
  shows "sched_shape s" "slot (task_table s) (current_partition_idx s) \<noteq> None"
    "\<And>i. state_at s i = Some Running \<Longrightarrow> i = current_partition_idx s"
  using assms by (auto simp: sched_wf_def)

lemma swap_wf:
  assumes "sched_shape s" "slot (task_table s) j = Some tcb"
    and "\<And>i. state_at s i = Some Running \<Longrightarrow> i = c"
  shows "sched_wf (swap_partition c j s)"
  using assms slot_Some_less [OF assms(2)]
  by (auto simp: sched_wf_def sched_shape_def slot_swap state_at_swap
      split: option.splits if_splits)

lemma charge_wf [simp]: "sched_shape (charge_tick b s) = sched_shape s"
  "sched_wf (charge_tick b s) = sched_wf s"
  by (simp_all add: sched_shape_def sched_wf_def)

lemma budget_wf [simp]: "sched_wf (s\<lparr>remaining_mif_ticks := r\<rparr>) = sched_wf s"
  by (simp add: sched_wf_def sched_shape_def state_at_def)

lemma schedule_wf:
  assumes "sched_wf s"
  shows "sched_wf (fst (schedule is_tick s)) \<and> (\<exists>r. snd (schedule is_tick s) = Ok r)"
proof -
  note wf = sched_wfD [OF assms]
  from wf(1,2) show ?thesis
  proof (cases rule: schedule_cases [where is_tick = is_tick])
    case (switch j tcb)
    then show ?thesis using wf by (auto intro!: swap_wf)
  qed (use assms in auto)
qed

section \<open>A slice ends, a ready partition runs\<close>

lemma swap_budget [simp]: "swap_partition c j (s\<lparr>remaining_mif_ticks := r\<rparr>) = swap_partition c j s"
  by (simp add: swap_partition_def)

lemma swap_charge [simp]: "swap_partition c j (charge_tick b s) = swap_partition c j s"
  using charge_tick_form [of b s] by auto

lemma current_running_runnable:
  "state_at s (current_partition_idx s) = Some Running \<Longrightarrow> current_runnable s"
  by (simp add: current_runnable_def)

lemma tick_within_slice:
  assumes "sched_wf s" "state_at s (current_partition_idx s) = Some Running"
    and "1 < unat (remaining_mif_ticks s)"
  shows "fst (schedule True s) = s\<lparr>remaining_mif_ticks := remaining_mif_ticks s - 1\<rparr>"
proof -
  have u: "unat (remaining_mif_ticks s - 1) = unat (remaining_mif_ticks s) - 1"
    using assms(3) by (simp add: unat_sub_if')
  then have "remaining_mif_ticks s - 1 \<noteq> 0" "0 < remaining_mif_ticks s"
    using assms(3) by (auto simp: word_less_nat_alt)
  then have c: "charge_tick True s = s\<lparr>remaining_mif_ticks := remaining_mif_ticks s - 1\<rparr>"
    "\<not> resched True s"
    using current_running_runnable [OF assms(2)] by (auto simp: charge_tick_def resched_def)
  from sched_wfD(1,2) [OF assms(1)] show ?thesis
    by (cases rule: schedule_cases [where is_tick = True]) (use c in auto)
qed

lemma tick_ends_slice:
  assumes "sched_wf s" "unat (remaining_mif_ticks s) \<le> 1" "state_at s j = Some Ready"
  shows "\<exists>k. select_next s (current_partition_idx s) = Some k
     \<and> fst (schedule True s) = swap_partition (current_partition_idx s) k s"
proof -
  have "remaining_mif_ticks s = 0 \<or> remaining_mif_ticks s = 1"
    using assms(2) by (auto simp: word_unat_eq_iff le_Suc_eq)
  then have r: "resched True s" by (auto simp: resched_def charge_tick_def)
  from sched_wfD(1,2) [OF assms(1)] show ?thesis
    by (cases rule: schedule_cases [where is_tick = True]) (use r assms(3) in auto)
qed

lemma slice_ends:
  assumes "sched_wf s" "state_at s (current_partition_idx s) = Some Running"
    and "state_at s j = Some Ready"
  shows "\<exists>n k. n \<le> max 1 (unat (remaining_mif_ticks s))
     \<and> select_next s (current_partition_idx s) = Some k
     \<and> sched_ticks n s = swap_partition (current_partition_idx s) k s"
  using assms
proof (induction "unat (remaining_mif_ticks s)" arbitrary: s rule: less_induct)
  case less
  show ?case
  proof (cases "1 < unat (remaining_mif_ticks s)")
    case False
    with tick_ends_slice less.prems obtain k
      where "select_next s (current_partition_idx s) = Some k"
        "fst (schedule True s) = swap_partition (current_partition_idx s) k s"
      by (metis not_le)
    then show ?thesis by (intro exI [of _ 1] exI [of _ k]) simp
  next
    case True
    let ?s1 = "s\<lparr>remaining_mif_ticks := remaining_mif_ticks s - 1\<rparr>"
    have s1: "fst (schedule True s) = ?s1" using less.prems True by (simp add: tick_within_slice)
    have u: "unat (remaining_mif_ticks ?s1) = unat (remaining_mif_ticks s) - 1"
      using True by (simp add: unat_sub_if')
    have same: "state_at ?s1 i = state_at s i" for i by (simp add: state_at_def)
    have "\<exists>n k. n \<le> max 1 (unat (remaining_mif_ticks ?s1))
       \<and> select_next ?s1 (current_partition_idx ?s1) = Some k
       \<and> sched_ticks n ?s1 = swap_partition (current_partition_idx ?s1) k ?s1"
      by (rule less.hyps) (use less.prems u True same in auto)
    then obtain n k where "n \<le> max 1 (unat (remaining_mif_ticks s) - 1)"
      "select_next s (current_partition_idx s) = Some k"
      "sched_ticks n ?s1 = swap_partition (current_partition_idx s) k s"
      using u select_next_cong [of ?s1 s, OF same] by auto
    then show ?thesis using s1 True by (intro exI [of _ "Suc n"] exI [of _ k]) auto
  qed
qed

lemma sched_ticks_add: "sched_ticks (m + n) s = sched_ticks n (sched_ticks m s)"
  by (induction m arbitrary: s) auto

lemma reaches_ready:
  assumes "sched_wf s" "state_at s (current_partition_idx s) = Some Running"
    and "state_at s j = Some Ready" "j \<noteq> 31"
    and "\<And>i. i < 32 \<Longrightarrow> unat (partition_durations s ! i) \<le> D"
  shows "\<exists>n \<le> max 1 (unat (remaining_mif_ticks s))
            + (ahead (current_partition_idx s) j - 1) * max 1 D.
         current_partition_idx (sched_ticks n s) = j"
  using assms
proof (induction "ahead (current_partition_idx s) j" arbitrary: s rule: less_induct)
  case less
  let ?c = "current_partition_idx s"
  have c: "?c < 32" "length (task_table s) = 32"
    using less.prems(1) by (auto simp: sched_wf_def sched_shape_def)
  have j: "j < 32" using state_at_less less.prems(3) c(2) by metis
  obtain n k where n: "n \<le> max 1 (unat (remaining_mif_ticks s))"
    and k: "select_next s ?c = Some k" and s1: "sched_ticks n s = swap_partition ?c k s"
    using slice_ends less.prems(1-3) by metis
  let ?s1 = "swap_partition ?c k s"
  note sel = select_next_Some [OF k c]
  show ?case
  proof (cases "k = j")
    case True
    with n s1 show ?thesis by (intro exI [of _ n]) simp
  next
    case False
    have lt: "ahead ?c k < ahead ?c j"
      using sel(3) [OF less.prems(4,3)] ahead_inj [OF c(1) sel(1) j] False by fastforce
    have step: "ahead k j = ahead ?c j - ahead ?c k" by (rule ahead_step [OF c(1) sel(1) j lt])
    have lt': "ahead k j < ahead ?c j"
      using step lt ahead_bounds [OF c(1) sel(1)] by simp
    obtain tcb where tcb: "slot (task_table s) k = Some tcb"
      using sel(2) by (auto simp: state_at_def)
    have "sched_wf ?s1" using sched_wfD [OF less.prems(1)] tcb by (intro swap_wf) auto
    moreover have "state_at ?s1 k = Some Running" "state_at ?s1 j = Some Ready"
      using sel(2) less.prems(2,3) False by (auto simp: state_at_swap)
    ultimately obtain n' where n': "n' \<le> max 1 (unat (remaining_mif_ticks ?s1))
        + (ahead k j - 1) * max 1 D" "current_partition_idx (sched_ticks n' ?s1) = j"
      using less.hyps [of ?s1] lt' less.prems(4,5) by auto
    have "n' \<le> ahead k j * max 1 D"
    proof -
      have "max 1 (unat (remaining_mif_ticks ?s1)) \<le> max 1 D"
        using less.prems(5) [OF sel(1)] by simp
      moreover have "max 1 D + (ahead k j - 1) * max 1 D = ahead k j * max 1 D"
        using ahead_bounds [OF sel(1) j] by (simp add: mult_eq_if)
      ultimately show ?thesis using n'(1) by linarith
    qed
    also have "\<dots> \<le> (ahead ?c j - 1) * max 1 D" using lt' by (intro mult_right_mono) auto
    finally show ?thesis
      using n n'(2) s1 by (intro exI [of _ "n + n'"]) (simp add: sched_ticks_add)
  qed
qed

section \<open>Properties\<close>

text \<open>C13: one call of \<open>schedule\<close> on a well-formed scheduler never panics. Without a trigger
  (budget used up, forced call, current task not runnable), or with no ready task, it keeps the
  partition and the task table. Otherwise it switches: to the first ready partition in cyclic
  order after the current one, and to the idle partition 31 only when no other is ready; the
  chosen task becomes \<open>Running\<close>, the old one goes from \<open>Running\<close> to \<open>Ready\<close>, no other slot
  changes, the budget is the chosen partition's, and the returned stack pointer is the chosen
  task's saved one.\<close>

theorem schedule_correct:
  assumes "sched_wf s"
  shows "\<exists>s' r. schedule is_tick s = (s', Ok r) \<and> (case r of
      None \<Rightarrow> current_partition_idx s' = current_partition_idx s \<and> task_table s' = task_table s
        \<and> (resched is_tick s \<longrightarrow> (\<forall>i. state_at s i \<noteq> Some Ready))
    | Some (old, sp) \<Rightarrow> resched is_tick s \<and> old = current_partition_idx s
        \<and> (let j = current_partition_idx s' in
            state_at s j = Some Ready \<and> state_at s' j = Some Running
            \<and> map_option saved_sp (slot (task_table s) j) = Some sp
            \<and> (\<forall>i. i \<noteq> 31 \<and> state_at s i = Some Ready \<longrightarrow> j \<noteq> 31 \<and> ahead old j \<le> ahead old i)
            \<and> (state_at s old = Some Running \<longrightarrow> state_at s' old = Some Ready)
            \<and> (\<forall>i. i \<noteq> j \<and> i \<noteq> old \<longrightarrow> slot (task_table s') i = slot (task_table s) i)
            \<and> remaining_mif_ticks s' = partition_durations s ! j))"
proof -
  note wf = sched_wfD [OF assms]
  have c: "current_partition_idx s < 32" "length (task_table s) = 32"
    using wf(1) by (auto simp: sched_shape_def)
  from wf(1,2) show ?thesis
  proof (cases rule: schedule_cases [where is_tick = is_tick])
    case (switch j tcb)
    note sel = select_next_Some [OF switch(2) c]
    let ?c = "current_partition_idx s" and ?s' = "swap_partition (current_partition_idx s) j s"
    have frame: "slot (task_table ?s') i = slot (task_table s) i" if "i \<noteq> j \<and> i \<noteq> ?c" for i
      using that by (simp add: slot_swap option.map_ident)
    have new: "state_at ?s' j = Some Running" using sel(2) by (simp add: state_at_swap)
    have old: "state_at ?s' ?c = Some Ready" if "state_at s ?c = Some Running"
      using that sel(2) by (auto simp: state_at_swap)
    show ?thesis
      by (rule exI [of _ ?s'], rule exI [of _ "Some (?c, saved_sp tcb)"])
        (use switch(1,3,5) sel(2,3) frame new old in \<open>simp add: Let_def; blast\<close>)
  qed auto
qed

theorem schedule_correct_witness:
  "\<exists>s' sp. schedule False (scheduler_new\<lparr>task_table :=
       [Some \<lparr>saved_sp = 16, priority = 0, active_priority = 0, task_state = Running,
              task_name = ''a'', capabilities = []\<rparr>,
        Some \<lparr>saved_sp = 32, priority = 1, active_priority = 1, task_state = Ready,
              task_name = ''b'', capabilities = []\<rparr>] @ replicate 30 None\<rparr>)
      = (s', Ok (Some (0, sp))) \<and> current_partition_idx s' = 1 \<and> sp = 32"
  (is "\<exists>s' sp. schedule False ?s = _ \<and> _")
proof -
  have r: "state_at ?s 1 = Some Ready" and d: "resched False ?s"
    by (simp_all add: state_at_def slot_def scheduler_new_def resched_def)
  have wf: "sched_wf ?s"
    by (auto simp: sched_wf_def sched_shape_def scheduler_new_def MAX_PARTITIONS_def state_at_def
        slot_def nth_Cons split: if_splits nat.splits)
  have only: "i = 1" if "state_at ?s i = Some Ready" for i
    using that by (auto simp: state_at_def slot_def scheduler_new_def nth_Cons
        split: if_splits nat.splits)
  from schedule_correct [OF wf, of False] obtain s' x where
    e: "schedule False ?s = (s', Ok x)" and x: "x \<noteq> None"
    using r d by (force split: option.splits)
  then obtain old sp where p: "x = Some (old, sp)" by (metis option.exhaust surj_pair)
  with schedule_correct [OF wf, of False] e
  have j: "state_at ?s (current_partition_idx s') = Some Ready"
    "map_option saved_sp (slot (task_table ?s) (current_partition_idx s')) = Some sp"
    "old = current_partition_idx ?s"
    by (simp_all add: Let_def)
  then have "current_partition_idx s' = 1" using only by blast
  with j have "sp = 32" "old = 0" by (simp_all add: slot_def scheduler_new_def)
  with e p \<open>current_partition_idx s' = 1\<close> show ?thesis by auto
qed

text \<open>\<open>schedule\<close> keeps the scheduler well-formed: 32 slots, a registered current partition,
  and no partition but the current one \<open>Running\<close>; and what \<open>register_task\<close> accepts keeps every
  registered slot at the index of its base priority, an index of 32 or more being the assertion
  panic.\<close>

lemma scheduler_invariant:
  "(sched_wf s \<longrightarrow> sched_wf (fst (schedule is_tick s)))
   \<and> (prio_wf s \<longrightarrow> prio_wf (fst (schedule is_tick s)))
   \<and> (prio_wf s \<longrightarrow> prio_wf (fst (register_task tcb s)))
   \<and> (sched_shape s \<longrightarrow> sched_shape (fst (register_task tcb s)))
   \<and> (snd (register_task tcb s) = (if unat (priority tcb) < 32 then Ok () else Panic AssertFailed))"
proof (intro conjI impI)
  assume "sched_wf s"
  then show "sched_wf (fst (schedule is_tick s))" using schedule_wf by blast
next
  assume p: "prio_wf s"
  then have "prio_wf (swap_partition c j s')" if "task_table s' = task_table s" for c j s'
    using that by (auto simp: prio_wf_def slot_swap)
  moreover have "prio_wf s'" if "task_table s' = task_table s" for s'
    using p that by (simp add: prio_wf_def)
  ultimately show "prio_wf (fst (schedule is_tick s))"
    by (auto simp: schedule_def Let_def split: option.splits)
next
  assume "prio_wf s"
  then show "prio_wf (fst (register_task tcb s))"
    by (auto simp: prio_wf_def register_task_def Let_def slot_list_update split: if_splits)
next
  assume "sched_shape s"
  then show "sched_shape (fst (register_task tcb s))"
    by (auto simp: sched_shape_def register_task_def Let_def)
qed (simp add: register_task_def Let_def MAX_PARTITIONS_def)

text \<open>C12: no starvation. From a well-formed scheduler whose current task runs, a ready partition
  \<open>j\<close> other than idle is the current one after a bounded number of timer ticks: at most the rest
  of the running slice plus one full slice (at least one tick) for each partition between the
  current one and \<open>j\<close> in cyclic order.\<close>

theorem no_starvation:
  assumes "sched_wf s" and "state_at s (current_partition_idx s) = Some Running"
    and "state_at s j = Some Ready" and "j \<noteq> 31"
    and "\<forall>i<32. unat (partition_durations s ! i) \<le> D"
  shows "\<exists>n \<le> max 1 (unat (remaining_mif_ticks s))
            + (ahead (current_partition_idx s) j - 1) * max 1 D.
         current_partition_idx (sched_ticks n s) = j"
  using reaches_ready assms by blast

theorem no_starvation_witness:
  "\<exists>n \<le> 100. current_partition_idx (sched_ticks n (scheduler_new\<lparr>task_table :=
       [Some \<lparr>saved_sp = 16, priority = 0, active_priority = 0, task_state = Running,
              task_name = ''a'', capabilities = []\<rparr>,
        Some \<lparr>saved_sp = 32, priority = 1, active_priority = 1, task_state = Ready,
              task_name = ''b'', capabilities = []\<rparr>] @ replicate 30 None\<rparr>)) = 1"
  (is "\<exists>n \<le> 100. current_partition_idx (sched_ticks n ?s) = 1")
proof -
  have 1: "sched_wf ?s"
    by (auto simp: sched_wf_def sched_shape_def scheduler_new_def MAX_PARTITIONS_def state_at_def
        slot_def nth_Cons split: if_splits nat.splits)
  have 2: "state_at ?s (current_partition_idx ?s) = Some Running" "state_at ?s 1 = Some Ready"
    by (simp_all add: state_at_def slot_def scheduler_new_def)
  have 3: "\<forall>i<32. unat (partition_durations ?s ! i) \<le> 100"
    by (simp add: scheduler_new_def MAX_PARTITIONS_def)
  show ?thesis
    using no_starvation [OF 1 2 _ 3] by (simp add: ahead_def scheduler_new_def)
qed

text \<open>The two invariants of the repository's model-checking harness, for every scheduler and
  without its bounds: after a switch the new current task is \<open>Running\<close>; and when the call does
  not switch although some task was ready or the current one was running, the current task is
  still \<open>Running\<close> or \<open>Ready\<close>.\<close>

lemma kani_scheduler_invariants:
  assumes "sched_shape s" and "slot (task_table s) (current_partition_idx s) \<noteq> None"
  shows "case schedule is_tick s of
      (s', Ok (Some _)) \<Rightarrow> state_at s' (current_partition_idx s') = Some Running
    | (s', Ok None) \<Rightarrow>
        ((\<exists>i. state_at s i = Some Ready) \<or> state_at s (current_partition_idx s) = Some Running)
        \<longrightarrow> state_at s' (current_partition_idx s) \<in> {Some Running, Some Ready}
    | _ \<Rightarrow> False"
  using assms
proof (cases rule: schedule_cases [where is_tick = is_tick])
  case stay
  then show ?thesis
    by (auto simp: resched_def current_runnable_def split: option.splits)
next
  case (switch j tcb)
  then have "state_at s j = Some Ready" by (simp add: state_at_def)
  with switch(5) show ?thesis by (simp add: state_at_swap)
qed auto

end
