(* ===== verification/Spin_Lock.thy ===== *)
theory Spin_Lock
  imports Prelude
begin

text \<open>
  The reentrant spinlock (\<^verbatim>\<open>kernel/src/kernel/spinlock.rs\<close>), twice. First as the trap handler
  uses it: one call is one operation, and a call that would wait for another hart is \<open>Spin\<close>.
  Then as the two harts execute it: every load, compare-exchange and store is a step of its own,
  in any interleaving, with traps that interrupt the code of a hart and use the lock themselves.
\<close>

section \<open>The operations\<close>

record Spinlock =
  owner :: usize
  depth :: usize

definition spinlock_new :: Spinlock where
  "spinlock_new = \<lparr>owner = 0, depth = 0\<rparr>"

definition spin_lock :: "nat \<Rightarrow> (Spinlock, unit) km" where
  "spin_lock hart_id l =
     (let me = of_nat hart_id + 1 in
      if owner l = me then (l\<lparr>depth := depth l + 1\<rparr>, Ok ())
      else if owner l = 0 then (l\<lparr>owner := me, depth := 1\<rparr>, Ok ())
      else (l, Spin))"

definition spin_unlock :: "(Spinlock, unit) km" where
  "spin_unlock l =
     (let d = depth l - 1 in
      (if d = 0 then l\<lparr>depth := d, owner := 0\<rparr> else l\<lparr>depth := d\<rparr>, Ok ()))"

text \<open>The guard: lock, run the body, and drop the guard when the body returns. A panic in the
  body leaves the lock held.\<close>

definition with_guard ::
    "('s \<Rightarrow> Spinlock) \<Rightarrow> (Spinlock \<Rightarrow> 's \<Rightarrow> 's) \<Rightarrow> nat \<Rightarrow> ('s, 'a) km \<Rightarrow> ('s, 'a) km" where
  "with_guard get put hart_id body =
     kseq (zoom get put (spin_lock hart_id))
       (kbind body (\<lambda>a. kseq (zoom get put spin_unlock) (kret a)))"

text \<open>The hart may take the lock: it is free, or the hart holds it with room for one more level.\<close>

definition usable :: "nat \<Rightarrow> Spinlock \<Rightarrow> bool" where
  "usable h l \<longleftrightarrow> (owner l = 0 \<and> depth l = 0)
     \<or> (owner l = of_nat h + 1 \<and> 0 < depth l \<and> depth l + 1 \<noteq> 0)"

definition held_by_other :: "nat \<Rightarrow> Spinlock \<Rightarrow> bool" where
  "held_by_other h l \<longleftrightarrow> owner l \<noteq> 0 \<and> owner l \<noteq> of_nat h + 1"

section \<open>The interleaved execution\<close>

text \<open>
  Where a hart is in the code of \<open>lock\<close> and \<open>unlock\<close>. \<open>held\<close> counts the calls of \<open>lock\<close> that
  have returned and are not yet undone, and exists only in the model. A trap suspends the code that the
  hart executes and starts the handler, which calls \<open>lock\<close> and \<open>unlock\<close> of its own: \<open>below\<close> is where
  the suspended code of a hart stands, innermost first. \<open>torn\<close> records that a trap has come between two
  accesses of the same call of \<open>lock\<close> or \<open>unlock\<close>. In the handler interrupts are off and the lock code
  does not fault; the watchdog calls \<open>lock\<close> and \<open>unlock\<close> in user mode with interrupts on.
\<close>

datatype spin_pc = Idle | AtLoad | AtIncrement | AtExchange | AtSetDepth | AtStore

record spin_sys =
  lock :: Spinlock
  pc :: "nat \<Rightarrow> spin_pc"
  held :: "nat \<Rightarrow> nat"
  below :: "nat \<Rightarrow> spin_pc list"
  torn :: bool

definition spin_init :: "spin_sys \<Rightarrow> bool" where
  "spin_init s \<longleftrightarrow> s = \<lparr>lock = spinlock_new, pc = (\<lambda>_. Idle), held = (\<lambda>_. 0), below = (\<lambda>_. []),
     torn = False\<rparr>"

text \<open>Two harts; no hart nests 2^32 - 1 levels. The weak compare-exchange may fail spuriously.\<close>

inductive spin_step :: "spin_sys \<Rightarrow> spin_sys \<Rightarrow> bool" where
  call_lock: "h < 2 \<Longrightarrow> pc s h = Idle \<Longrightarrow> held s h + 1 < 2 ^ 32 \<Longrightarrow>
    spin_step s (s\<lparr>pc := (pc s)(h := AtLoad)\<rparr>)"
| load_own: "h < 2 \<Longrightarrow> pc s h = AtLoad \<Longrightarrow> owner (lock s) = of_nat h + 1 \<Longrightarrow>
    spin_step s (s\<lparr>pc := (pc s)(h := AtIncrement)\<rparr>)"
| load_other: "h < 2 \<Longrightarrow> pc s h = AtLoad \<Longrightarrow> owner (lock s) \<noteq> of_nat h + 1 \<Longrightarrow>
    spin_step s (s\<lparr>pc := (pc s)(h := AtExchange)\<rparr>)"
| increment: "h < 2 \<Longrightarrow> pc s h = AtIncrement \<Longrightarrow>
    spin_step s (s\<lparr>lock := (lock s)\<lparr>depth := depth (lock s) + 1\<rparr>,
       pc := (pc s)(h := Idle), held := (held s)(h := held s h + 1)\<rparr>)"
| exchange: "h < 2 \<Longrightarrow> pc s h = AtExchange \<Longrightarrow> owner (lock s) = 0 \<Longrightarrow>
    spin_step s (s\<lparr>lock := (lock s)\<lparr>owner := of_nat h + 1\<rparr>, pc := (pc s)(h := AtSetDepth)\<rparr>)"
| exchange_fails: "h < 2 \<Longrightarrow> pc s h = AtExchange \<Longrightarrow> spin_step s s"
| set_depth: "h < 2 \<Longrightarrow> pc s h = AtSetDepth \<Longrightarrow>
    spin_step s (s\<lparr>lock := (lock s)\<lparr>depth := 1\<rparr>,
       pc := (pc s)(h := Idle), held := (held s)(h := held s h + 1)\<rparr>)"
| unlock_inner: "h < 2 \<Longrightarrow> pc s h = Idle \<Longrightarrow> 0 < held s h \<Longrightarrow> depth (lock s) - 1 \<noteq> 0 \<Longrightarrow>
    spin_step s (s\<lparr>lock := (lock s)\<lparr>depth := depth (lock s) - 1\<rparr>,
       held := (held s)(h := held s h - 1)\<rparr>)"
| unlock_last: "h < 2 \<Longrightarrow> pc s h = Idle \<Longrightarrow> 0 < held s h \<Longrightarrow> depth (lock s) - 1 = 0 \<Longrightarrow>
    spin_step s (s\<lparr>lock := (lock s)\<lparr>depth := 0\<rparr>,
       pc := (pc s)(h := AtStore), held := (held s)(h := held s h - 1)\<rparr>)"
| store: "h < 2 \<Longrightarrow> pc s h = AtStore \<Longrightarrow>
    spin_step s (s\<lparr>lock := (lock s)\<lparr>owner := 0\<rparr>, pc := (pc s)(h := Idle)\<rparr>)"

text \<open>The accesses, and the traps around them.\<close>

inductive spin_run :: "spin_sys \<Rightarrow> spin_sys \<Rightarrow> bool" where
  access: "spin_step s t \<Longrightarrow> spin_run s t"
| trap_in: "h < 2 \<Longrightarrow> spin_run s (s\<lparr>below := (below s)(h := pc s h # below s h), pc := (pc s)(h := Idle),
    torn := torn s \<or> pc s h \<noteq> Idle\<rparr>)"
| trap_out: "h < 2 \<Longrightarrow> pc s h = Idle \<Longrightarrow> below s h = p # ps \<Longrightarrow>
    spin_run s (s\<lparr>below := (below s)(h := ps), pc := (pc s)(h := p)\<rparr>)"

text \<open>A hart owns the lock from the successful exchange to the final store.\<close>

definition owns :: "spin_sys \<Rightarrow> nat \<Rightarrow> bool" where
  "owns s h \<longleftrightarrow> 0 < held s h \<or> pc s h \<in> {AtIncrement, AtSetDepth, AtStore}"

definition hart_inv :: "spin_sys \<Rightarrow> nat \<Rightarrow> bool" where
  "hart_inv s h \<longleftrightarrow> (owns s h \<longleftrightarrow> owner (lock s) = of_nat h + 1)
     \<and> (pc s h \<in> {AtExchange, AtSetDepth, AtStore} \<longrightarrow> held s h = 0)
     \<and> (pc s h = AtIncrement \<longrightarrow> 0 < held s h)
     \<and> (pc s h \<in> {AtIncrement, AtLoad} \<longrightarrow> held s h + 1 < 2 ^ 32)
     \<and> held s h < 2 ^ 32
     \<and> (owns s h \<and> pc s h \<noteq> AtSetDepth \<longrightarrow> unat (depth (lock s)) = held s h)"

definition spin_inv :: "spin_sys \<Rightarrow> bool" where
  "spin_inv s \<longleftrightarrow> hart_inv s 0 \<and> hart_inv s 1 \<and> owner (lock s) \<in> {0, 1, 2}"

text \<open>As long as no call is torn, everything suspended stands outside the lock code.\<close>

definition run_inv :: "spin_sys \<Rightarrow> bool" where
  "run_inv s \<longleftrightarrow> torn s \<or> spin_inv s \<and> (\<forall>h. set (below s h) \<subseteq> {Idle})"

section \<open>Lemmas on the operations\<close>

lemma me_nonzero: "h < 2 \<Longrightarrow> (of_nat h + 1 :: usize) \<noteq> 0"
  by (auto simp: less_2_cases_iff)

lemma me_inj: "h < 2 \<Longrightarrow> h' < 2 \<Longrightarrow> (of_nat h + 1 :: usize) = of_nat h' + 1 \<longleftrightarrow> h = h'"
  by (auto simp: less_2_cases_iff)

lemma spin_lock_usable:
  assumes "usable h l" "h < 2"
  shows "\<exists>l'. spin_lock h l = (l', Ok ()) \<and> owner l' = of_nat h + 1 \<and> spin_unlock l' = (l, Ok ())"
proof (cases "owner l = 0")
  case True
  then have "depth l = 0" using assms me_nonzero [OF assms(2)] by (auto simp: usable_def)
  with True show ?thesis
    using me_nonzero [OF assms(2)] by (auto simp: spin_lock_def spin_unlock_def Let_def)
next
  case False
  with assms have "owner l = of_nat h + 1" "0 < depth l" by (auto simp: usable_def)
  then show ?thesis by (auto simp: spin_lock_def spin_unlock_def Let_def)
qed

lemma spin_lock_blocked: "held_by_other h l \<Longrightarrow> spin_lock h l = (l, Spin)"
  by (auto simp: spin_lock_def held_by_other_def)

text \<open>The contract the kernel relies on, and what it gives for nested sections.\<close>

locale reentrant_lock =
  fixes acquire :: "'h \<Rightarrow> ('l, unit) km" and release :: "('l, unit) km"
    and available :: "'h \<Rightarrow> 'l \<Rightarrow> bool" and foreign :: "'h \<Rightarrow> 'l \<Rightarrow> bool"
  assumes acquire_release: "available h l \<Longrightarrow>
      \<exists>l'. acquire h l = (l', Ok ()) \<and> release l' = (l, Ok ())"
    and acquire_foreign: "foreign h l \<Longrightarrow> acquire h l = (l, Spin)"
begin

lemma section_restores:
  assumes "available h l" "\<And>l'. acquire h l = (l', Ok ()) \<Longrightarrow> body l' = (l', Ok a)"
  shows "kseq (acquire h) (kbind body (\<lambda>a. kseq release (kret a))) l = (l, Ok a)"
proof -
  obtain l' where "acquire h l = (l', Ok ())" "release l' = (l, Ok ())"
    using acquire_release [OF assms(1)] by blast
  with assms(2) show ?thesis by (simp add: kseq_def kbind_def kret_def)
qed

lemma nested_section_restores:
  assumes "available h l" "\<And>l'. acquire h l = (l', Ok ()) \<Longrightarrow> available h l'"
  shows "kseq (acquire h) (kseq (acquire h) (kseq release release)) l = (l, Ok ())"
proof -
  obtain l' where 1: "acquire h l = (l', Ok ())" "release l' = (l, Ok ())"
    using acquire_release [OF assms(1)] by blast
  obtain l'' where 2: "acquire h l' = (l'', Ok ())" "release l'' = (l', Ok ())"
    using acquire_release [OF assms(2) [OF 1(1)]] by blast
  from 1 2 show ?thesis by (simp add: kseq_def kbind_def)
qed

lemma foreign_spins: "foreign h l \<Longrightarrow> kseq (acquire h) m l = (l, Spin)"
  by (simp add: acquire_foreign kseq_def kbind_def)

end

interpretation spin: reentrant_lock spin_lock spin_unlock "\<lambda>h l. h < 2 \<and> usable h l" held_by_other
  by unfold_locales (use spin_lock_usable spin_lock_blocked in blast)+

section \<open>The interleaved invariant\<close>

lemma spin_inv_init: "spin_init s \<Longrightarrow> spin_inv s"
  by (auto simp: spin_init_def spin_inv_def hart_inv_def owns_def spinlock_new_def)

lemma spin_inv_hart: "spin_inv s \<Longrightarrow> h < 2 \<Longrightarrow> hart_inv s h"
  by (auto simp: spin_inv_def less_2_cases_iff)

lemma spin_invI:
  "(\<And>h. h < 2 \<Longrightarrow> hart_inv s h) \<Longrightarrow> owner (lock s) \<in> {0, 1, 2} \<Longrightarrow> spin_inv s"
  by (simp add: spin_inv_def)

text \<open>The hart that does not move keeps its part of the invariant.\<close>

lemma other_hart_inv:
  assumes "hart_inv s k" "pc t k = pc s k" "held t k = held s k"
    and "owner (lock t) = of_nat k + 1 \<longleftrightarrow> owner (lock s) = of_nat k + 1"
    and "owner (lock s) = of_nat k + 1 \<Longrightarrow> depth (lock t) = depth (lock s)"
  shows "hart_inv t k"
  using assms by (auto simp: hart_inv_def owns_def)

text \<open>The hart that moves keeps its own part.\<close>

lemma moving_hart_inv:
  assumes "spin_step s t" "spin_inv s"
  shows "\<exists>h<2. hart_inv t h \<and> owner (lock t) \<in> {0, 1, 2}
     \<and> (\<forall>k. k \<noteq> h \<longrightarrow> pc t k = pc s k \<and> held t k = held s k)
     \<and> (lock t \<noteq> lock s \<longrightarrow> (owner (lock s) = of_nat h + 1 \<or> owner (lock s) = 0)
          \<and> (owner (lock t) = of_nat h + 1 \<or> owner (lock t) = 0))
     \<and> (depth (lock t) \<noteq> depth (lock s) \<longrightarrow> owner (lock s) = of_nat h + 1)"
  using assms(1)
proof cases
  case (call_lock h)
  with spin_inv_hart [OF assms(2) call_lock(2)] assms(2) show ?thesis
    by (intro exI [of _ h]) (auto simp: hart_inv_def owns_def spin_inv_def)
next
  case (load_own h)
  with spin_inv_hart [OF assms(2) load_own(2)] assms(2) show ?thesis
    by (intro exI [of _ h]) (auto simp: hart_inv_def owns_def spin_inv_def)
next
  case (load_other h)
  with spin_inv_hart [OF assms(2) load_other(2)] assms(2) show ?thesis
    by (intro exI [of _ h]) (auto simp: hart_inv_def owns_def spin_inv_def)
next
  case (increment h)
  with spin_inv_hart [OF assms(2) increment(2)] assms(2) show ?thesis
    by (intro exI [of _ h]) (auto simp: hart_inv_def owns_def spin_inv_def unat_inc)
next
  case (exchange h)
  with spin_inv_hart [OF assms(2) exchange(2)] me_nonzero [OF exchange(2)] show ?thesis
    by (intro exI [of _ h]) (auto simp: hart_inv_def owns_def less_2_cases_iff)
next
  case (exchange_fails h)
  with spin_inv_hart [OF assms(2) exchange_fails(2)] assms(2) show ?thesis
    by (intro exI [of _ h]) (auto simp: spin_inv_def)
next
  case (set_depth h)
  with spin_inv_hart [OF assms(2) set_depth(2)] assms(2) show ?thesis
    by (intro exI [of _ h]) (auto simp: hart_inv_def owns_def spin_inv_def)
next
  case (unlock_inner h)
  then have i: "hart_inv s h" and d: "unat (depth (lock s)) = held s h" "owns s h"
    using spin_inv_hart [OF assms(2) unlock_inner(2)] by (auto simp: hart_inv_def owns_def)
  have "unat (depth (lock s) - 1) = held s h - 1" "held s h - 1 \<noteq> 0"
    using unlock_inner(4,5) d(1) unat_dec [of "depth (lock s)"] by (auto simp: unat_eq_0 [symmetric])
  moreover have "owner (lock s) = of_nat h + 1" "held s h < 2 ^ 32" "owner (lock s) \<in> {0, 1, 2}"
    using i d assms(2) by (auto simp: hart_inv_def spin_inv_def)
  ultimately show ?thesis
    unfolding unlock_inner(1) using unlock_inner(2,3)
    by (intro exI [of _ h]) (simp add: hart_inv_def owns_def)
next
  case (unlock_last h)
  then have i: "hart_inv s h" and d: "unat (depth (lock s)) = held s h" "owns s h"
    using spin_inv_hart [OF assms(2) unlock_last(2)] by (auto simp: hart_inv_def owns_def)
  have "held s h = 1"
    using unlock_last(4,5) d(1) unat_dec [of "depth (lock s)"] by auto
  with i d unlock_last assms(2) show ?thesis
    by (intro exI [of _ h]) (auto simp: hart_inv_def owns_def spin_inv_def)
next
  case (store h)
  with spin_inv_hart [OF assms(2) store(2)] me_nonzero [OF store(2)] show ?thesis
    by (intro exI [of _ h]) (auto simp: hart_inv_def owns_def)
qed

lemma spin_step_inv:
  assumes "spin_inv s" "spin_step s t"
  shows "spin_inv t"
proof -
  from moving_hart_inv [OF assms(2,1)] obtain h where h: "h < 2" "hart_inv t h"
    "owner (lock t) \<in> {0, 1, 2}" "\<forall>k. k \<noteq> h \<longrightarrow> pc t k = pc s k \<and> held t k = held s k"
    "lock t \<noteq> lock s \<Longrightarrow> owner (lock s) = of_nat h + 1 \<or> owner (lock s) = 0"
    "lock t \<noteq> lock s \<Longrightarrow> owner (lock t) = of_nat h + 1 \<or> owner (lock t) = 0"
    by blast
  show ?thesis
  proof (rule spin_invI)
    fix k :: nat assume k: "k < 2"
    show "hart_inv t k"
    proof (cases "k = h")
      case False
      then have "owner (lock s) \<noteq> of_nat k + 1 \<and> owner (lock t) \<noteq> of_nat k + 1" if "lock t \<noteq> lock s"
        using h(5,6) [OF that] me_nonzero [OF k] me_inj [OF h(1) k] by auto
      then show ?thesis
        using False h(4) spin_inv_hart [OF assms(1) k]
        by (cases "lock t = lock s") (auto intro!: other_hart_inv [of s k t])
    qed (use h in simp)
  qed (use h in simp)
qed

lemma spin_step_below: "spin_step s t \<Longrightarrow> below t = below s \<and> torn t = torn s"
  by (induction rule: spin_step.induct) simp_all

lemma spin_inv_cong: "lock t = lock s \<Longrightarrow> pc t = pc s \<Longrightarrow> held t = held s \<Longrightarrow> spin_inv t = spin_inv s"
  by (simp add: spin_inv_def hart_inv_def owns_def)

lemma spin_run_inv:
  assumes "run_inv s" "spin_run s t"
  shows "run_inv t"
  using assms(2)
proof cases
  case access
  then show ?thesis using assms(1) spin_step_inv [of s t] spin_step_below [of s t] by (auto simp: run_inv_def)
next
  case (trap_in h)
  show ?thesis
  proof (cases "torn s \<or> pc s h \<noteq> Idle")
    case False
    then have "pc t = pc s" using trap_in(1) by (simp add: fun_upd_idem)
    with False trap_in(1) assms(1) spin_inv_cong [of t s] show ?thesis by (simp add: run_inv_def)
  qed (simp add: trap_in(1) run_inv_def)
next
  case (trap_out h p ps)
  show ?thesis
  proof (cases "torn s")
    case False
    then have b: "set (below s h) \<subseteq> {Idle}" "spin_inv s" "\<forall>h. set (below s h) \<subseteq> {Idle}"
      using assms(1) by (simp_all add: run_inv_def)
    then have "p = Idle" "set ps \<subseteq> {Idle}" using trap_out(4) by simp_all
    moreover from this have "pc t = pc s" using trap_out(1,3) by (simp add: fun_upd_idem)
    ultimately show ?thesis using False trap_out(1) b spin_inv_cong [of t s] by (simp add: run_inv_def)
  qed (simp add: trap_out(1) run_inv_def)
qed

lemma run_inv_init: "spin_init s \<Longrightarrow> run_inv s"
  using spin_inv_init by (simp add: run_inv_def spin_init_def)

interpretation spin_sys: inductive_invariant spin_init spin_run run_inv
  by (unfold_locales; rule run_inv_init spin_run_inv)

section \<open>Concrete runs\<close>

text \<open>States in which hart 0 may have suspended code.\<close>

definition spin_at :: "Spinlock \<Rightarrow> spin_pc \<Rightarrow> spin_pc \<Rightarrow> nat \<Rightarrow> nat \<Rightarrow> spin_pc list \<Rightarrow> bool \<Rightarrow> spin_sys" where
  "spin_at l p0 p1 h0 h1 b tr = \<lparr>lock = l, pc = (\<lambda>_. Idle)(0 := p0, 1 := p1), held = (\<lambda>_. 0)(0 := h0, 1 := h1),
     below = (\<lambda>_. [])(0 := b), torn = tr\<rparr>"

lemma hart0_calls: "spin_run (spin_at l Idle p 0 h b tr) (spin_at l AtLoad p 0 h b tr)"
  using access [OF call_lock [of 0 "spin_at l Idle p 0 h b tr"]] by (simp add: spin_at_def fun_upd_twist)

lemma hart0_owns: "spin_run (spin_at \<lparr>owner = 1, depth = d\<rparr> AtLoad p h h' b tr) (spin_at \<lparr>owner = 1, depth = d\<rparr> AtIncrement p h h' b tr)"
  using access [OF load_own [of 0 "spin_at \<lparr>owner = 1, depth = d\<rparr> AtLoad p h h' b tr"]] by (simp add: spin_at_def fun_upd_twist)

lemma hart0_finds_free:
  "spin_run (spin_at \<lparr>owner = 0, depth = d\<rparr> AtLoad p h h' b tr) (spin_at \<lparr>owner = 0, depth = d\<rparr> AtExchange p h h' b tr)"
  "spin_run (spin_at \<lparr>owner = 0, depth = d\<rparr> AtExchange p h h' b tr) (spin_at \<lparr>owner = 1, depth = d\<rparr> AtSetDepth p h h' b tr)"
  using access [OF load_other [of 0 "spin_at \<lparr>owner = 0, depth = d\<rparr> AtLoad p h h' b tr"]]
    access [OF exchange [of 0 "spin_at \<lparr>owner = 0, depth = d\<rparr> AtExchange p h h' b tr"]]
  by (simp_all add: spin_at_def fun_upd_twist)

lemma hart0_increments:
  "spin_run (spin_at \<lparr>owner = o', depth = d\<rparr> AtIncrement p h h' b tr) (spin_at \<lparr>owner = o', depth = d + 1\<rparr> Idle p (h + 1) h' b tr)"
  using access [OF increment [of 0 "spin_at \<lparr>owner = o', depth = d\<rparr> AtIncrement p h h' b tr"]]
  by (simp add: spin_at_def fun_upd_twist)

lemma hart0_sets_depth:
  "spin_run (spin_at \<lparr>owner = o', depth = d\<rparr> AtSetDepth p 0 h' b tr) (spin_at \<lparr>owner = o', depth = 1\<rparr> Idle p 1 h' b tr)"
  using access [OF set_depth [of 0 "spin_at \<lparr>owner = o', depth = d\<rparr> AtSetDepth p 0 h' b tr"]]
  by (simp add: spin_at_def fun_upd_twist)

lemma hart0_unlocks:
  "spin_run (spin_at \<lparr>owner = o', depth = 1\<rparr> Idle p 1 h' b tr) (spin_at \<lparr>owner = o', depth = 0\<rparr> AtStore p 0 h' b tr)"
  using access [OF unlock_last [of 0 "spin_at \<lparr>owner = o', depth = 1\<rparr> Idle p 1 h' b tr"]]
  by (simp add: spin_at_def fun_upd_twist)

lemma hart0_frees:
  "spin_run (spin_at \<lparr>owner = o', depth = d\<rparr> AtStore p h h' b tr) (spin_at \<lparr>owner = 0, depth = d\<rparr> Idle p h h' b tr)"
  using access [OF store [of 0 "spin_at \<lparr>owner = o', depth = d\<rparr> AtStore p h h' b tr"]]
  by (simp add: spin_at_def fun_upd_twist)

lemma hart0_traps: "spin_run (spin_at l q p h h' b tr) (spin_at l Idle p h h' (q # b) (tr \<or> q \<noteq> Idle))"
  using trap_in [of 0 "spin_at l q p h h' b tr"] by (simp add: spin_at_def fun_upd_twist)

lemma hart0_returns: "spin_run (spin_at l Idle p h h' (q # b) tr) (spin_at l q p h h' b tr)"
  using trap_out [of 0 "spin_at l Idle p h h' (q # b) tr" q b] by (simp add: spin_at_def fun_upd_twist)

lemma hart1_locks:
  assumes "reach spin_init spin_run (spin_at \<lparr>owner = 0, depth = d\<rparr> p Idle h 0 b tr)"
  shows "reach spin_init spin_run (spin_at \<lparr>owner = 2, depth = 1\<rparr> p Idle h 1 b tr)"
proof -
  let ?f = "\<lparr>owner = 0, depth = d\<rparr>"
  have "spin_run (spin_at ?f p Idle h 0 b tr) (spin_at ?f p AtLoad h 0 b tr)"
    using access [OF call_lock [of 1 "spin_at ?f p Idle h 0 b tr"]] by (simp add: spin_at_def)
  moreover have "spin_run (spin_at ?f p AtLoad h 0 b tr) (spin_at ?f p AtExchange h 0 b tr)"
    using access [OF load_other [of 1 "spin_at ?f p AtLoad h 0 b tr"]] by (simp add: spin_at_def)
  moreover have "spin_run (spin_at ?f p AtExchange h 0 b tr) (spin_at \<lparr>owner = 2, depth = d\<rparr> p AtSetDepth h 0 b tr)"
    using access [OF exchange [of 1 "spin_at ?f p AtExchange h 0 b tr"]] by (simp add: spin_at_def)
  moreover have "spin_run (spin_at \<lparr>owner = 2, depth = d\<rparr> p AtSetDepth h 0 b tr) (spin_at \<lparr>owner = 2, depth = 1\<rparr> p Idle h 1 b tr)"
    using access [OF set_depth [of 1 "spin_at \<lparr>owner = 2, depth = d\<rparr> p AtSetDepth h 0 b tr"]] by (simp add: spin_at_def)
  ultimately show ?thesis by (intro reach_step [OF reach_step [OF reach_step [OF reach_step [OF assms]]]])
qed

lemma reach_exchanged: "reach spin_init spin_run (spin_at \<lparr>owner = 1, depth = 0\<rparr> AtSetDepth Idle 0 0 [] False)"
proof -
  have "reach spin_init spin_run (spin_at \<lparr>owner = 0, depth = 0\<rparr> Idle Idle 0 0 [] False)"
    by (rule reach_init) (simp add: spin_init_def spin_at_def spinlock_new_def fun_eq_iff)
  then have "reach spin_init spin_run (spin_at \<lparr>owner = 0, depth = 0\<rparr> AtLoad Idle 0 0 [] False)"
    by (rule reach_step) (rule hart0_calls)
  then have "reach spin_init spin_run (spin_at \<lparr>owner = 0, depth = 0\<rparr> AtExchange Idle 0 0 [] False)"
    by (rule reach_step) (rule hart0_finds_free)
  then show ?thesis by (rule reach_step) (rule hart0_finds_free)
qed

section \<open>Properties\<close>

text \<open>C27: mutual exclusion, for every interleaving of the loads, exchanges and stores of two
  harts and of traps that suspend their code and use the lock themselves, as long as no trap comes
  between the accesses of one call of \<open>lock\<close> or \<open>unlock\<close>: no reachable state has both harts
  between the return of a \<open>lock\<close> call and the matching \<open>unlock\<close>, the owner word names the hart
  that is inside, and its depth is the number of its open calls, those of suspended code included. In the
  trap handler interrupts are off, so its calls are never torn; the watchdog's own calls can be.\<close>

theorem spinlock_mutual_exclusion:
  assumes "reach spin_init spin_run s" and "\<not> torn s" and "h < 2" and "0 < held s h"
  shows "(\<forall>k<2. k \<noteq> h \<longrightarrow> held s k = 0 \<and> \<not> owns s k) \<and> owner (lock s) = of_nat h + 1
     \<and> (pc s h \<noteq> AtSetDepth \<longrightarrow> unat (depth (lock s)) = held s h)"
proof -
  have inv: "spin_inv s" using spin_sys.reach_inv [OF assms(1)] assms(2) by (simp add: run_inv_def)
  then have h: "owner (lock s) = of_nat h + 1" and d: "pc s h \<noteq> AtSetDepth \<longrightarrow> unat (depth (lock s)) = held s h"
    using spin_inv_hart [OF inv assms(3)] assms(4) by (auto simp: hart_inv_def owns_def)
  have "\<not> owns s k" if "k < 2" "k \<noteq> h" for k
    using spin_inv_hart [OF inv that(1)] h me_inj [OF assms(3) that(1)] that(2)
    by (auto simp: hart_inv_def)
  then show ?thesis using h d by (auto simp: owns_def)
qed

theorem spinlock_mutual_exclusion_witness:
  "\<exists>s. reach spin_init spin_run s \<and> below s 0 = [Idle] \<and> held s 0 = 1 \<and> held s 1 = 0 \<and> owner (lock s) = 1"
proof -
  let ?s = "spin_at \<lparr>owner = 1, depth = 1\<rparr> Idle Idle 1 0 [Idle] False"
  have "reach spin_init spin_run (spin_at \<lparr>owner = 1, depth = 1\<rparr> Idle Idle 1 0 [] False)"
    using reach_exchanged by (rule reach_step) (rule hart0_sets_depth)
  then have r: "reach spin_init spin_run ?s" by (rule reach_step) (use hart0_traps [of _ Idle] in simp)
  from spinlock_mutual_exclusion [OF r, of 0] r show ?thesis by (intro exI [of _ ?s]) (simp add: spin_at_def)
qed


text \<open>The safety argument for the plain, non-atomic depth field: as long as no call is torn, a step
  that changes the depth is made while the owner word names the hart that makes it, and a step
  that changes the owner word either takes a free lock or releases the mover's own.\<close>

lemma depth_written_by_owner_only:
  assumes "reach spin_init spin_run s" and "\<not> torn s" and "spin_step s t"
  shows "\<exists>h<2. (\<forall>k. k \<noteq> h \<longrightarrow> pc t k = pc s k)
     \<and> (depth (lock t) \<noteq> depth (lock s) \<longrightarrow> owner (lock s) = of_nat h + 1)
     \<and> (owner (lock t) \<noteq> owner (lock s) \<longrightarrow>
          (owner (lock s) = 0 \<and> owner (lock t) = of_nat h + 1)
          \<or> (owner (lock s) = of_nat h + 1 \<and> owner (lock t) = 0))"
proof -
  have "spin_inv s" using spin_sys.reach_inv [OF assms(1)] assms(2) by (simp add: run_inv_def)
  from moving_hart_inv [OF assms(3) this] show ?thesis by fastforce
qed

text \<open>Taken one call at a time, a hart that finds the lock free or its own gets it and the
  matching unlock restores the lock exactly, also when the calls nest; a hart that finds it held
  by the other does not get past the call.\<close>

lemma spinlock_reentrant:
  assumes "h < 2" and "usable h l" and "usable h (fst (spin_lock h l))"
  shows "kseq (spin_lock h) (kseq (spin_lock h) (kseq spin_unlock spin_unlock)) l = (l, Ok ())
     \<and> (\<forall>k<2. k \<noteq> h \<longrightarrow> spin_lock k (fst (spin_lock h l)) = (fst (spin_lock h l), Spin))"
proof (intro conjI allI impI)
  have "usable h l'" if "spin_lock h l = (l', Ok ())" for l' using assms(3) that by simp
  then show "kseq (spin_lock h) (kseq (spin_lock h) (kseq spin_unlock spin_unlock)) l = (l, Ok ())"
    using assms(1,2) by (intro spin.nested_section_restores) auto
next
  fix k :: nat assume k: "k < 2" "k \<noteq> h"
  obtain l' where "spin_lock h l = (l', Ok ())" "owner l' = of_nat h + 1"
    using spin_lock_usable [OF assms(2,1)] by blast
  then have "held_by_other k (fst (spin_lock h l))"
    using k me_nonzero [OF assms(1)] me_inj [OF assms(1) k(1)] by (auto simp: held_by_other_def)
  then show "spin_lock k (fst (spin_lock h l)) = (fst (spin_lock h l), Spin)"
    by (rule spin_lock_blocked)
qed

end
