(* ===== verification/Pmp.thy ===== *)
theory Pmp
  imports Memory
begin

text \<open>
  The Physical Memory Protection driver (\<^verbatim>\<open>kernel/src/memory/pmp.rs\<close>) and the boot-time
  configuration \<^verbatim>\<open>init_memory_protection\<close> (\<^verbatim>\<open>kernel/src/main.rs\<close>). The PMP registers are a
  hart's CSRs; the addresses of the task stacks, which the linker chooses, are a parameter. The
  protection unit itself is hardware: it is a parameter too, and the locale \<open>pmp_unit\<close> states
  the rule of the RISC-V privileged specification that the kernel relies on.
\<close>

section \<open>Configuration bytes\<close>

datatype PmpAddressMode = Off | Tor | Na4 | Napot

fun mode_bits :: "PmpAddressMode \<Rightarrow> u8" where
  "mode_bits Off = 0"
| "mode_bits Tor = 1"
| "mode_bits Na4 = 2"
| "mode_bits Napot = 3"

record PmpConfig =
  pmp_read :: bool
  pmp_write :: bool
  pmp_execute :: bool
  pmp_mode :: PmpAddressMode
  pmp_locked :: bool

definition to_byte :: "PmpConfig \<Rightarrow> u8" where
  "to_byte c =
     (let val = 0;
          val = (if pmp_read c then val OR push_bit 0 1 else val);
          val = (if pmp_write c then val OR push_bit 1 1 else val);
          val = (if pmp_execute c then val OR push_bit 2 1 else val);
          val = val OR push_bit 3 (mode_bits (pmp_mode c))
      in if pmp_locked c then val OR push_bit 7 1 else val)"

section \<open>The registers and the driver\<close>

record pmp_regs =
  pmpaddr :: "nat \<Rightarrow> u32"
  pmpcfg0 :: u32
  pmpcfg1 :: u32

definition napot_encode :: "usize \<Rightarrow> usize \<Rightarrow> u32" where
  "napot_encode base_addr sz = drop_bit 2 base_addr OR drop_bit 2 (sz div 2 - 1)"

definition set_byte :: "nat \<Rightarrow> u8 \<Rightarrow> u32 \<Rightarrow> u32" where
  "set_byte shift b w = (w AND NOT (push_bit shift 0xFF)) OR push_bit shift (ucast b)"

definition configure_pmp :: "nat \<Rightarrow> usize \<Rightarrow> usize \<Rightarrow> PmpConfig \<Rightarrow> (pmp_regs, unit) km" where
  "configure_pmp entry base_addr sz config r =
     (if \<not> entry \<le> 6 then (r, Panic UnsupportedPmpEntry)
      else
        let r1 = r\<lparr>pmpaddr := (pmpaddr r)(entry := napot_encode base_addr sz)\<rparr>;
            cfg_reg = entry div 4;
            shift = (entry mod 4) * 8;
            config_byte = to_byte config
        in if cfg_reg = 0
           then (r1\<lparr>pmpcfg0 := set_byte shift config_byte (pmpcfg0 r1)\<rparr>, Ok ())
           else if cfg_reg = 1
           then (r1\<lparr>pmpcfg1 := set_byte shift config_byte (pmpcfg1 r1)\<rparr>, Ok ())
           else (r1, Ok ()))"

text \<open>Where the linker put the statics of \<^verbatim>\<open>main.rs\<close> that the kernel takes the address of.\<close>

record layout =
  TASK_WD_STACK :: usize
  TASK_A_STACK :: usize
  TASK_B_STACK :: usize
  TASK_C_STACK :: usize
  HSM_STACK :: usize
  IDLE_STACK_0 :: usize
  IDLE_STACK_1 :: usize

definition no_access :: "PmpAddressMode \<Rightarrow> PmpConfig" where
  "no_access m = \<lparr>pmp_read = False, pmp_write = False, pmp_execute = False,
     pmp_mode = m, pmp_locked = False\<rparr>"

definition stack_entries :: "layout \<Rightarrow> (string \<times> usize \<times> nat) list" where
  "stack_entries L =
     [(''Watchdog'', TASK_WD_STACK L, 1),
      (''Task A'', TASK_A_STACK L, 2),
      (''Task B'', TASK_B_STACK L, 4),
      (''Task C'', TASK_C_STACK L, 5),
      (''HSM Task'', HSM_STACK L, 6)]"

definition reprogram_pmp_stack :: "layout \<Rightarrow> string \<Rightarrow> (pmp_regs, unit) km" where
  "reprogram_pmp_stack L active_task_name =
     kforeach (stack_entries L) (\<lambda>(name, addr, entry).
       if name = active_task_name then configure_pmp entry 0 1024 (no_access Off)
       else configure_pmp entry addr 1024 (no_access Napot))"

definition flash_config :: PmpConfig where
  "flash_config = \<lparr>pmp_read = True, pmp_write = False, pmp_execute = True,
     pmp_mode = Napot, pmp_locked = True\<rparr>"

definition sram_config :: PmpConfig where
  "sram_config = \<lparr>pmp_read = True, pmp_write = True, pmp_execute = False,
     pmp_mode = Napot, pmp_locked = False\<rparr>"

definition init_memory_protection :: "layout \<Rightarrow> (pmp_regs, unit) km" where
  "init_memory_protection L =
     kseq (configure_pmp 0 0x42000000 (4 * 1024 * 1024) flash_config)
    (kseq (configure_pmp 1 (TASK_WD_STACK L) 1024 (no_access Napot))
    (kseq (configure_pmp 2 (TASK_A_STACK L) 1024 (no_access Napot))
    (kseq (configure_pmp 4 (TASK_B_STACK L) 1024 (no_access Napot))
    (kseq (configure_pmp 5 (TASK_C_STACK L) 1024 (no_access Napot))
    (kseq (configure_pmp 6 (HSM_STACK L) 1024 (no_access Napot))
          (configure_pmp 3 0x3FC80000 (512 * 1024) sram_config))))))"

section \<open>What the registers mean\<close>

text \<open>The configuration byte of an entry, its address-matching mode and its permission bits, as
  the privileged specification lays them out.\<close>

datatype access = AccRead | AccWrite | AccExec

definition cfg_byte :: "pmp_regs \<Rightarrow> nat \<Rightarrow> u8" where
  "cfg_byte r i = ucast (drop_bit (8 * (i mod 4))
     (if i < 4 then pmpcfg0 r else if i < 8 then pmpcfg1 r else 0))"

fun perm_bit :: "access \<Rightarrow> nat" where
  "perm_bit AccRead = 0"
| "perm_bit AccWrite = 1"
| "perm_bit AccExec = 2"

definition permits :: "pmp_regs \<Rightarrow> nat \<Rightarrow> access \<Rightarrow> bool" where
  "permits r i x = bit (cfg_byte r i) (perm_bit x)"

definition napot_match :: "u32 \<Rightarrow> usize \<Rightarrow> bool" where
  "napot_match p a \<longleftrightarrow> (drop_bit 2 a XOR p) AND NOT (p XOR (p + 1)) = 0"

definition entry_matches :: "pmp_regs \<Rightarrow> nat \<Rightarrow> usize \<Rightarrow> bool" where
  "entry_matches r i a =
     (let md = drop_bit 3 (cfg_byte r i) AND 3 in
      if md = 0 then False
      else if md = 1 then (if i = 0 then 0 else pmpaddr r (i - 1)) \<le> drop_bit 2 a
        \<and> drop_bit 2 a < pmpaddr r i
      else if md = 2 then drop_bit 2 a = pmpaddr r i
      else napot_match (pmpaddr r i) a)"

text \<open>
  The protection unit as the kernel sees it: whether a user-mode access to an address passes.
  Entries are statically prioritised: the lowest-numbered entry that matches decides, and a
  user-mode access that no entry matches fails.
\<close>

locale pmp_unit =
  fixes user_access :: "pmp_regs \<Rightarrow> usize \<Rightarrow> access \<Rightarrow> bool"
  assumes lowest_match_decides:
      "entry_matches r i a \<Longrightarrow> (\<And>k. k < i \<Longrightarrow> \<not> entry_matches r k a) \<Longrightarrow>
         user_access r a x = permits r i x"
    and no_match_fails: "(\<And>i. i < 16 \<Longrightarrow> \<not> entry_matches r i a) \<Longrightarrow> \<not> user_access r a x"

text \<open>A unit that follows the rule, with 16 entries.\<close>

definition riscv_user_access :: "pmp_regs \<Rightarrow> usize \<Rightarrow> access \<Rightarrow> bool" where
  "riscv_user_access r a x =
     (case find (\<lambda>i. entry_matches r i a) [0..<16] of None \<Rightarrow> False | Some i \<Rightarrow> permits r i x)"

text \<open>What the linker guarantees about the stacks: aligned by \<^verbatim>\<open>#[repr(align(1024))]\<close>, inside the
  RAM region of \<^verbatim>\<open>memory.x\<close>, distinct.\<close>

definition layout_stacks :: "layout \<Rightarrow> usize list" where
  "layout_stacks L = [TASK_WD_STACK L, TASK_A_STACK L, TASK_B_STACK L, TASK_C_STACK L,
     HSM_STACK L, IDLE_STACK_0 L, IDLE_STACK_1 L]"

definition layout_ok :: "layout \<Rightarrow> bool" where
  "layout_ok L \<longleftrightarrow> distinct (layout_stacks L)
     \<and> (\<forall>b\<in>set (layout_stacks L). take_bit 10 b = 0 \<and> in_range b 0x3FC80000 (328 * 1024))"

text \<open>The state the driver keeps the registers in: entry 0 flash, entry 3 SRAM, and one entry
  per stack, off for the active task and without access for the others.\<close>

definition pmp_configured :: "layout \<Rightarrow> string \<Rightarrow> pmp_regs \<Rightarrow> bool" where
  "pmp_configured L active r \<longleftrightarrow>
     cfg_byte r 0 = to_byte flash_config \<and> pmpaddr r 0 = napot_encode 0x42000000 (4 * 1024 * 1024)
   \<and> cfg_byte r 3 = to_byte sram_config \<and> pmpaddr r 3 = napot_encode 0x3FC80000 (512 * 1024)
   \<and> drop_bit 3 (cfg_byte r 7) AND 3 = 0
   \<and> (\<forall>(name, addr, entry) \<in> set (stack_entries L).
        if name = active then cfg_byte r entry = to_byte (no_access Off)
        else cfg_byte r entry = to_byte (no_access Napot) \<and> pmpaddr r entry = napot_encode addr 1024)"

text \<open>The address-matching fields and locks that a reset leaves off.\<close>

definition pmp_reset :: pmp_regs where
  "pmp_reset = \<lparr>pmpaddr = (\<lambda>_. 0), pmpcfg0 = 0, pmpcfg1 = 0\<rparr>"

text \<open>The access rights the configuration gives user mode: flash is read and execute, the stacks
  of Watchdog and Task A are closed unless their task runs, the rest of the SRAM is read and
  write, everything else is closed.\<close>

definition in_flash :: "usize \<Rightarrow> bool" where
  "in_flash a = in_range a 0x42000000 (4 * 1024 * 1024)"

definition in_sram :: "usize \<Rightarrow> bool" where
  "in_sram a = in_range a 0x3FC80000 (512 * 1024)"

definition user_rights :: "layout \<Rightarrow> string \<Rightarrow> usize \<Rightarrow> access \<Rightarrow> bool" where
  "user_rights L active a x =
     (if in_flash a then x \<noteq> AccWrite
      else if active \<noteq> ''Watchdog'' \<and> in_range a (TASK_WD_STACK L) 1024 then False
      else if active \<noteq> ''Task A'' \<and> in_range a (TASK_A_STACK L) 1024 then False
      else if in_sram a then x \<noteq> AccExec
      else False)"

text \<open>A layout the linker could choose.\<close>

definition demo_layout :: layout where
  "demo_layout = \<lparr>TASK_WD_STACK = 0x3FC90000, TASK_A_STACK = 0x3FC90400, TASK_B_STACK = 0x3FC90800,
     TASK_C_STACK = 0x3FC90C00, HSM_STACK = 0x3FC91000, IDLE_STACK_0 = 0x3FC91400,
     IDLE_STACK_1 = 0x3FC91800\<rparr>"

section \<open>Naturally aligned regions\<close>

lemma word_split: "w = push_bit k (drop_bit k w) + take_bit k w" for w :: "'a::len word"
  using bits_ident [of k w] by simp

lemma take_bit_self_iff: "k < 32 \<Longrightarrow> take_bit k w = w \<longleftrightarrow> w < 2 ^ k" for w :: u32
proof -
  assume k: "k < 32"
  then have "unat (2 ^ k :: u32) = 2 ^ k"
    using unat_of_nat [of "2 ^ k :: nat", where ?'a = 32]
    by (simp add: mod_less power_strict_increasing [of k 32 "2 :: nat", simplified])
  then show ?thesis
    by (simp add: word_unat_eq_iff unsigned_take_bit_eq take_bit_nat_eq_self_iff word_less_nat_alt)
qed

lemma aligned_in_range:
  fixes a base :: usize
  assumes al: "take_bit k base = 0" and k: "k < 32"
  shows "in_range a base (2 ^ k) \<longleftrightarrow> drop_bit k a = drop_bit k base"
proof
  assume "in_range a base (2 ^ k)"
  then have d: "take_bit k (a - base) = a - base"
    using k by (simp add: in_range_def take_bit_self_iff)
  have "base AND (a - base) = 0"
  proof (rule bit_word_eqI)
    fix n assume "n < LENGTH(32)"
    have "\<not> bit base n" if "n < k" using arg_cong [OF al, of "\<lambda>w. bit w n"] that by (simp add: bit_simps)
    moreover have "\<not> bit (a - base) n" if "\<not> n < k"
      using arg_cong [OF d, of "\<lambda>w. bit w n"] that by (simp add: bit_simps)
    ultimately show "bit (base AND (a - base)) n = bit 0 n" by (auto simp: bit_simps)
  qed
  then have "a = base OR (a - base)" using disjunctive_add_eq_or [of base "a - base"] by simp
  then have "drop_bit k a = drop_bit k base OR drop_bit k (take_bit k (a - base))"
    by (metis d drop_bit_or)
  then show "drop_bit k a = drop_bit k base" by (simp add: drop_bit_take_bit)
next
  assume "drop_bit k a = drop_bit k base"
  then have "a = base + take_bit k a" using word_split [of a k] word_split [of base k] al by simp
  then have "a - base = take_bit k a" by (metis add_diff_cancel_left')
  then show "in_range a base (2 ^ k)" using k by (simp add: in_range_def take_bit_self_iff [symmetric])
qed

text \<open>The trailing ones of the encoded address: what makes the region \<open>2 ^ k\<close> bytes long.\<close>

lemma napot_encode_bits:
  assumes "take_bit k base = 0" "3 \<le> k" "k < 32"
  shows "bit (napot_encode base (2 ^ k)) n \<longleftrightarrow> n < k - 3 \<or> k \<le> n + 2 \<and> bit base (n + 2)"
proof -
  have m: "(2 ^ k :: u32) div 2 - 1 = mask (k - 1)"
  proof -
    have "drop_bit 1 (2 ^ k :: u32) = 2 ^ (k - 1)"
      using assms by (intro bit_word_eqI) (auto simp: bit_simps)
    then show ?thesis by (simp add: mask_eq_exp_minus_1 drop_bit_eq_div)
  qed
  have "bit base (n + 2) \<Longrightarrow> k \<le> n + 2"
    using arg_cong [OF assms(1), of "\<lambda>w. bit w (n + 2)"] by (auto simp: bit_simps)
  then show ?thesis
    using assms by (auto simp: napot_encode_def m bit_simps)
qed

lemma napot_encode_xor_inc:
  assumes "take_bit k base = 0" "3 \<le> k" "k < 32"
  shows "napot_encode base (2 ^ k) XOR (napot_encode base (2 ^ k) + 1) = mask (k - 2)"
proof -
  let ?p = "napot_encode base (2 ^ k)"
  let ?q = "?p AND NOT (mask (k - 3))"
  have bq: "bit ?q n \<longleftrightarrow> k \<le> n + 2 \<and> bit base (n + 2)" if "n < 32" for n
    using that napot_encode_bits [OF assms, of n] assms by (auto simp: bit_simps)
  have "?p = ?q OR mask (k - 3)"
    by (rule bit_word_eqI) (use napot_encode_bits [OF assms] in \<open>auto simp: bit_simps\<close>)
  also have "\<dots> = ?q + mask (k - 3)"
    by (rule disjunctive_add_eq_or [symmetric]) (rule bit_word_eqI, simp add: bit_simps)
  finally have "?p + 1 = (?q + mask (k - 3)) + 1" by (rule arg_cong)
  also have "\<dots> = ?q + (mask (k - 3) + 1)" by (rule add.assoc)
  also have "mask (k - 3) + 1 = (2 ^ (k - 3) :: u32)" by (simp add: mask_eq_exp_minus_1)
  also
  have "?q + 2 ^ (k - 3) = ?q OR 2 ^ (k - 3)"
    by (rule disjunctive_add_eq_or, rule bit_word_eqI) (use bq assms in \<open>auto simp: bit_simps\<close>)
  finally have inc: "?p + 1 = ?q OR 2 ^ (k - 3)" .
  show ?thesis unfolding inc
    by (rule bit_word_eqI)
      (use napot_encode_bits [OF assms] bq assms in \<open>auto simp: bit_simps\<close>)
qed

lemma napot_match_region:
  assumes "take_bit k base = 0" "3 \<le> k" "k < 32"
  shows "napot_match (napot_encode base (2 ^ k)) a \<longleftrightarrow> in_range a base (2 ^ k)"
proof -
  let ?x = "drop_bit 2 a XOR napot_encode base (2 ^ k)"
  have out: "\<not> bit w n" if "\<not> n < 32" for w :: u32 and n
    using that bit_imp_le_length [of w n] by auto
  have "napot_match (napot_encode base (2 ^ k)) a \<longleftrightarrow> ?x AND NOT (mask (k - 2)) = 0"
    by (simp add: napot_match_def napot_encode_xor_inc [OF assms])
  also have "\<dots> \<longleftrightarrow> (\<forall>n<32. k \<le> n \<longrightarrow> (bit a n \<longleftrightarrow> bit base n))"
  proof
    assume *: "?x AND NOT (mask (k - 2)) = 0"
    show "\<forall>n<32. k \<le> n \<longrightarrow> (bit a n \<longleftrightarrow> bit base n)"
    proof (intro allI impI)
      fix n :: nat assume n: "n < 32" "k \<le> n"
      then obtain m where m: "n = m + 2" using assms(2) by (intro that [of "n - 2"]) simp
      show "bit a n \<longleftrightarrow> bit base n"
        using arg_cong [OF *, of "\<lambda>w. bit w m"] napot_encode_bits [OF assms, of m] assms n
        unfolding m by (auto simp: bit_simps)
    qed
  next
    assume *: "\<forall>n<32. k \<le> n \<longrightarrow> (bit a n \<longleftrightarrow> bit base n)"
    show "?x AND NOT (mask (k - 2)) = 0"
    proof (rule bit_word_eqI)
      fix n assume "n < LENGTH(32)"
      show "bit (?x AND NOT (mask (k - 2))) n = bit 0 n"
        using * [rule_format, of "n + 2"] out [of "n + 2"] napot_encode_bits [OF assms, of n] assms
        by (cases "n + 2 < 32"; cases "k \<le> n + 2") (auto simp: bit_simps)
    qed
  qed
  also have "\<dots> \<longleftrightarrow> drop_bit k a = drop_bit k base"
  proof
    assume "\<forall>n<32. k \<le> n \<longrightarrow> (bit a n \<longleftrightarrow> bit base n)"
    then show "drop_bit k a = drop_bit k base"
      using out [of "k + n" for n] by (intro bit_word_eqI) (metis bit_drop_bit_eq comp_apply le_add1)
  next
    assume *: "drop_bit k a = drop_bit k base"
    show "\<forall>n<32. k \<le> n \<longrightarrow> (bit a n \<longleftrightarrow> bit base n)"
    proof (intro allI impI)
      fix n :: nat assume "n < 32" "k \<le> n"
      then show "bit a n \<longleftrightarrow> bit base n"
        using arg_cong [OF *, of "\<lambda>w. bit w (n - k)"] by (simp add: bit_simps)
    qed
  qed
  also have "\<dots> \<longleftrightarrow> in_range a base (2 ^ k)" using aligned_in_range [OF assms(1,3)] by simp
  finally show ?thesis .
qed

section \<open>Lemmas on the driver\<close>

lemma cfg_byte_set_byte:
  assumes "s < 4" "i < 4"
  shows "(ucast (drop_bit (8 * i) (set_byte (s * 8) b w)) :: u8)
     = (if i = s then b else ucast (drop_bit (8 * i) w))"
proof (rule bit_word_eqI)
  fix n assume "n < LENGTH(8)"
  then have n: "n < 8" by simp
  have ff: "(0xFF :: u32) = mask 8" by (simp add: mask_eq_exp_minus_1)
  have b8: "\<not> bit b m" if "8 \<le> m" for m using that bit_imp_le_length [of b m] by auto
  have sep: "8 \<le> 8 * i + n - s * 8" if "i \<noteq> s" "s * 8 \<le> 8 * i + n" using that n by auto
  show "bit (ucast (drop_bit (8 * i) (set_byte (s * 8) b w)) :: u8) n
     = bit (if i = s then b else ucast (drop_bit (8 * i) w)) n"
    using n assms b8 sep by (cases "i = s") (auto simp: set_byte_def ff bit_simps)
qed

lemma to_byte_inject:
  "drop_bit 3 (to_byte c) AND 3 = mode_bits (pmp_mode c)"
  "bit (to_byte c) 0 = pmp_read c" "bit (to_byte c) 1 = pmp_write c"
  "bit (to_byte c) 2 = pmp_execute c" "bit (to_byte c) 7 = pmp_locked c"
  by (cases "pmp_read c"; cases "pmp_write c"; cases "pmp_execute c"; cases "pmp_locked c";
      cases "pmp_mode c"; simp add: to_byte_def)+

text \<open>The registers after one call of \<open>configure_pmp\<close>.\<close>

definition cfg_write :: "nat \<Rightarrow> usize \<Rightarrow> usize \<Rightarrow> PmpConfig \<Rightarrow> pmp_regs \<Rightarrow> pmp_regs" where
  "cfg_write e base sz c r = fst (configure_pmp e base sz c r)"

lemma configure_pmp_write:
  "e \<le> 6 \<Longrightarrow> configure_pmp e base sz c = kmodify (cfg_write e base sz c)"
  by (auto simp: fun_eq_iff configure_pmp_def cfg_write_def kmodify_def Let_def)

lemma pmpaddr_cfg_write [simp]:
  "e \<le> 6 \<Longrightarrow> pmpaddr (cfg_write e base sz c r) = (pmpaddr r)(e := napot_encode base sz)"
  by (simp add: cfg_write_def configure_pmp_def Let_def)

lemma cfg_byte_cfg_write [simp]:
  assumes e: "e \<le> 6"
  shows "cfg_byte (cfg_write e base sz c r) i = (if i = e then to_byte c else cfg_byte r i)"
proof (cases "e < 4")
  case True
  then have "e div 4 = 0" "e mod 4 = e" by simp_all
  then show ?thesis using True
    by (simp add: cfg_write_def configure_pmp_def Let_def cfg_byte_def cfg_byte_set_byte)
next
  case False
  then obtain k where k: "e = 4 + k" "k \<le> 2"
    using e by (intro that [of "e - 4"]) simp_all
  then have e4: "e div 4 = 1" "e mod 4 = k" by simp_all
  show ?thesis
  proof (cases "4 \<le> i \<and> i < 8")
    case True
    then obtain j where "i = 4 + j" "j < 4" by (intro that [of "i - 4"]) auto
    then show ?thesis using k e4
      by (simp add: cfg_write_def configure_pmp_def Let_def cfg_byte_def cfg_byte_set_byte)
  next
    case False
    then show ?thesis using k e4
      by (auto simp: cfg_write_def configure_pmp_def Let_def cfg_byte_def)
  qed
qed

lemmas pmp_run = configure_pmp_write kseq_def kbind_def kmodify_def kret_def

lemma reprogram_configured:
  assumes "pmp_configured L old r"
  shows "\<exists>r'. reprogram_pmp_stack L new r = (r', Ok ()) \<and> pmp_configured L new r'"
  using assms
  by (auto simp: reprogram_pmp_stack_def stack_entries_def pmp_run pmp_configured_def)

lemma init_configured:
  "\<exists>r. init_memory_protection L pmp_reset = (r, Ok ()) \<and> pmp_configured L ''none'' r"
  by (auto simp: init_memory_protection_def stack_entries_def pmp_run pmp_configured_def)
    (simp add: pmp_reset_def cfg_byte_def)

section \<open>The access rights\<close>

lemma entry_matches_off: "drop_bit 3 (cfg_byte r i) AND 3 = 0 \<Longrightarrow> \<not> entry_matches r i a"
  by (simp add: entry_matches_def)

lemma entry_matches_high: "8 \<le> i \<Longrightarrow> \<not> entry_matches r i a"
  by (rule entry_matches_off) (simp add: cfg_byte_def)

lemma entry_matches_napot:
  assumes "cfg_byte r i = to_byte c" "pmp_mode c = Napot" "pmpaddr r i = napot_encode base (2 ^ k)"
    and "take_bit k base = 0" "3 \<le> k" "k < 32"
  shows "entry_matches r i a \<longleftrightarrow> in_range a base (2 ^ k)"
  using assms by (simp add: entry_matches_def to_byte_inject napot_match_region Let_def)

lemma layout_stack_aligned:
  "layout_ok L \<Longrightarrow> b \<in> set (layout_stacks L) \<Longrightarrow> take_bit 10 b = 0"
  by (simp add: layout_ok_def)

lemma stack_in_layout:
  "layout_ok L \<Longrightarrow> (name, addr, entry) \<in> set (stack_entries L) \<Longrightarrow> take_bit 10 addr = 0"
  by (rule layout_stack_aligned) (auto simp: stack_entries_def layout_stacks_def)

lemma stacks_disjoint:
  assumes "layout_ok L" "b \<in> set (layout_stacks L)" "c \<in> set (layout_stacks L)"
    and "in_range a b 1024" "in_range a c 1024"
  shows "b = c"
proof -
  have "drop_bit 10 b = drop_bit 10 c"
    using assms(4,5) aligned_in_range [of 10 b a] aligned_in_range [of 10 c a]
      layout_stack_aligned [OF assms(1)] assms(2,3) by simp
  then show ?thesis
    using word_split [of b 10] word_split [of c 10] layout_stack_aligned [OF assms(1)] assms(2,3) by simp
qed

lemma configured_matches:
  assumes L: "layout_ok L" and r: "pmp_configured L active r"
  shows "entry_matches r 0 a \<longleftrightarrow> in_flash a"
    and "entry_matches r 3 a \<longleftrightarrow> in_sram a"
    and "(name, addr, entry) \<in> set (stack_entries L) \<Longrightarrow>
       entry_matches r entry a \<longleftrightarrow> name \<noteq> active \<and> in_range a addr 1024"
    and "7 \<le> entry \<Longrightarrow> \<not> entry_matches r entry a"
proof -
  show "entry_matches r 0 a \<longleftrightarrow> in_flash a"
    using entry_matches_napot [of r 0 flash_config "0x42000000" 22 a] r
    by (simp add: pmp_configured_def flash_config_def in_flash_def take_bit_eq_mod)
  show "entry_matches r 3 a \<longleftrightarrow> in_sram a"
    using entry_matches_napot [of r 3 sram_config "0x3FC80000" 19 a] r
    by (simp add: pmp_configured_def sram_config_def in_sram_def take_bit_eq_mod)
  show "7 \<le> entry \<Longrightarrow> \<not> entry_matches r entry a"
    using r entry_matches_high [of entry r a] entry_matches_off [of r entry a]
    by (cases "entry = 7") (auto simp: pmp_configured_def)
  assume e: "(name, addr, entry) \<in> set (stack_entries L)"
  show "entry_matches r entry a \<longleftrightarrow> name \<noteq> active \<and> in_range a addr 1024"
  proof (cases "name = active")
    case True
    then have "cfg_byte r entry = to_byte (no_access Off)" using r e by (auto simp: pmp_configured_def)
    then show ?thesis using True entry_matches_off [of r entry a]
      by (simp add: to_byte_inject no_access_def)
  next
    case False
    then have "cfg_byte r entry = to_byte (no_access Napot)" "pmpaddr r entry = napot_encode addr (2 ^ 10)"
      using r e by (auto simp: pmp_configured_def)
    then show ?thesis
      using False entry_matches_napot [of r entry "no_access Napot" addr 10 a] stack_in_layout [OF L e]
      by (simp add: no_access_def)
  qed
qed

lemma stack_in_sram:
  assumes "layout_ok L" "b \<in> set (layout_stacks L)" "in_range a b 1024"
  shows "in_sram a" "\<not> in_flash a"
proof -
  from assms have b: "in_range b 0x3FC80000 (328 * 1024)" by (simp add: layout_ok_def)
  have "unat (a - 0x3FC80000) < 329 * 1024"
  proof -
    have "a - 0x3FC80000 = (a - b) + (b - 0x3FC80000)" by simp
    moreover have "unat (a - b) < 1024" "unat (b - 0x3FC80000) < 328 * 1024"
      using assms(3) b by (simp_all add: in_range_def word_less_nat_alt)
    ultimately show ?thesis using unat_word_ariths(1) [of "a - b" "b - 0x3FC80000"] by simp
  qed
  then show "in_sram a" by (simp add: in_sram_def in_range_def word_less_nat_alt)
  have "(0x3FC80000 :: u32) = 0x42000000 + 0xFDC80000" by simp
  then have "unat (a - 0x42000000) = unat ((a - 0x3FC80000) + 0xFDC80000)"
    by (simp only: diff_add_eq diff_add_eq_diff_diff_swap add_diff_cancel_right')
  also have "\<dots> = unat (a - 0x3FC80000) + 0xFDC80000"
    using \<open>unat (a - 0x3FC80000) < 329 * 1024\<close> by (subst unat_word_ariths(1)) simp
  finally show "\<not> in_flash a" by (simp add: in_flash_def in_range_def word_less_nat_alt)
qed

context pmp_unit
begin

lemma decided_by:
  "entry_matches r i a \<Longrightarrow> (\<forall>k<i. \<not> entry_matches r k a) \<Longrightarrow> user_access r a x = permits r i x"
  by (rule lowest_match_decides) auto

lemma closed_stack:
  assumes L: "layout_ok L" and r: "pmp_configured L active r"
    and e: "(name, addr, entry) \<in> set (stack_entries L)" and m: "entry_matches r entry a"
  shows "\<not> permits r entry x"
proof -
  from m configured_matches(3) [OF L r e] have "name \<noteq> active" by simp
  then have "cfg_byte r entry = to_byte (no_access Napot)" using r e by (auto simp: pmp_configured_def)
  then show ?thesis
    by (cases x) (simp_all add: permits_def to_byte_inject no_access_def del: One_nat_def)
qed

lemma access_matrix:
  assumes L: "layout_ok L" and r: "pmp_configured L active r"
  shows "user_access r a x = user_rights L active a x"
proof -
  have k1: "\<forall>k<1. \<not> entry_matches r k a" if "\<not> in_flash a"
    using that configured_matches(1) [OF L r] by simp
  have wd: "(''Watchdog'', TASK_WD_STACK L, 1) \<in> set (stack_entries L)"
    and ta: "(''Task A'', TASK_A_STACK L, 2) \<in> set (stack_entries L)"
    by (simp_all add: stack_entries_def)
  note m1 = configured_matches(3) [OF L r wd, of a] and m2 = configured_matches(3) [OF L r ta, of a]
  consider (flash) "in_flash a"
    | (wd) "\<not> in_flash a" "entry_matches r 1 a"
    | (ta) "\<not> in_flash a" "\<not> entry_matches r 1 a" "entry_matches r 2 a"
    | (sram) "\<not> in_flash a" "\<not> entry_matches r 1 a" "\<not> entry_matches r 2 a" "in_sram a"
    | (none) "\<not> in_flash a" "\<not> entry_matches r 1 a" "\<not> entry_matches r 2 a" "\<not> in_sram a"
    by blast
  then show ?thesis
  proof cases
    case flash
    then have "user_access r a x = permits r 0 x"
      by (intro decided_by) (simp_all add: configured_matches(1) [OF L r])
    also have "\<dots> = (x \<noteq> AccWrite)"
      using r by (cases x) (simp_all add: permits_def pmp_configured_def to_byte_inject flash_config_def
          del: One_nat_def)
    finally show ?thesis using flash by (simp add: user_rights_def)
  next
    case wd
    with k1 have "user_access r a x = permits r 1 x" by (intro decided_by) simp_all
    then show ?thesis using wd closed_stack [OF L r \<open>(''Watchdog'', _) \<in> _\<close>, of a x] m1
      by (auto simp: user_rights_def)
  next
    case ta
    with k1 have "user_access r a x = permits r 2 x" by (intro decided_by) (auto simp: less_2_cases_iff)
    then show ?thesis using ta closed_stack [OF L r \<open>(''Task A'', _) \<in> _\<close>, of a x] m1 m2
      by (auto simp: user_rights_def)
  next
    case sram
    have "k = 0 \<or> k = 1 \<or> k = 2" if "k < 3" for k :: nat using that by auto
    with k1 sram have "\<forall>k<3. \<not> entry_matches r k a" by auto
    then have "user_access r a x = permits r 3 x"
      using sram(4) by (intro decided_by) (simp_all add: configured_matches(2) [OF L r])
    also have "\<dots> = (x \<noteq> AccExec)"
      using r by (cases x) (simp_all add: permits_def pmp_configured_def to_byte_inject sram_config_def
          del: One_nat_def)
    finally show ?thesis using sram m1 m2 by (auto simp: user_rights_def)
  next
    case none
    have "\<not> entry_matches r i a" for i
    proof -
      have tail: "\<not> in_range a b 1024" if "b \<in> set (layout_stacks L)" for b
        using none stack_in_sram(1) [OF L that] by blast
      have "\<not> entry_matches r 4 a" "\<not> entry_matches r 5 a" "\<not> entry_matches r 6 a"
        using configured_matches(3) [OF L r] tail by (auto simp: stack_entries_def layout_stacks_def)
      moreover have "i = 0 \<or> i = 1 \<or> i = 2 \<or> i = 3 \<or> i = 4 \<or> i = 5 \<or> i = 6 \<or> 7 \<le> i" by presburger
      ultimately show ?thesis
        using none configured_matches(1,2,4) [OF L r] by blast
    qed
    then have "\<not> user_access r a x" by (intro no_match_fails)
    then show ?thesis using none m1 m2 by (auto simp: user_rights_def)
  qed
qed

end

interpretation riscv: pmp_unit riscv_user_access
proof
  fix r i a x
  assume m: "entry_matches r i a" and low: "\<And>k. k < i \<Longrightarrow> \<not> entry_matches r k a"
  then have i: "i < 16" using entry_matches_high [of i r a] by (cases "8 \<le> i") simp_all
  have "find (\<lambda>i. entry_matches r i a) [0..<16] = Some i"
    unfolding find_Some_iff using m low i by (intro exI [of _ i]) simp
  then show "riscv_user_access r a x = permits r i x" by (simp add: riscv_user_access_def)
next
  fix r a x
  assume "\<And>i. i < 16 \<Longrightarrow> \<not> entry_matches r i a"
  then have "find (\<lambda>i. entry_matches r i a) [0..<16] = None" by (simp add: find_None_iff)
  then show "\<not> riscv_user_access r a x" by (simp add: riscv_user_access_def)
qed

lemma demo_layout_ok: "layout_ok demo_layout"
  by (simp add: layout_ok_def layout_stacks_def demo_layout_def in_range_def take_bit_eq_mod)

text \<open>The stacks of Task B, Task C and the HSM task, whose entries 4, 5 and 6 come after the
  SRAM entry 3, are readable and writable by every task: the SRAM entry decides first.\<close>

lemma stack_isolation_gap:
  assumes "pmp_unit user_access" "layout_ok L" "pmp_configured L active r"
    and "b \<in> {TASK_B_STACK L, TASK_C_STACK L, HSM_STACK L}" "in_range a b 1024"
  shows "user_access r a AccRead \<and> user_access r a AccWrite"
proof -
  have b: "b \<in> set (layout_stacks L)" using assms(4) by (auto simp: layout_stacks_def)
  note M = pmp_unit.access_matrix [OF assms(1,2,3)]
  have apart: "\<not> in_range a c 1024" if "c \<in> set (layout_stacks L)" "c \<noteq> b" for c
    using that stacks_disjoint [OF assms(2) b that(1) assms(5)] by blast
  have "TASK_WD_STACK L \<noteq> b" "TASK_A_STACK L \<noteq> b"
    using assms(2,4) by (auto simp: layout_ok_def layout_stacks_def)
  then have "\<not> in_range a (TASK_WD_STACK L) 1024" "\<not> in_range a (TASK_A_STACK L) 1024"
    using apart by (simp_all add: layout_stacks_def)
  then show ?thesis
    using stack_in_sram [OF assms(2) b assms(5)] by (simp add: M user_rights_def)
qed

section \<open>Properties\<close>

text \<open>C28: on a context switch \<open>reprogram_pmp_stack\<close> never panics, keeps the register invariant,
  and leaves a hart in which, on any protection unit that follows the RISC-V rule, user mode has
  exactly the rights of \<open>user_rights\<close> for the task switched to, at every address and for every
  kind of access.\<close>

theorem reprogram_access_matrix:
  assumes "pmp_unit user_access" "layout_ok L" "pmp_configured L old r"
  shows "\<exists>r'. reprogram_pmp_stack L active r = (r', Ok ()) \<and> pmp_configured L active r'
     \<and> (\<forall>a x. user_access r' a x = user_rights L active a x)"
  using reprogram_configured [OF assms(3), of active] pmp_unit.access_matrix [OF assms(1,2)] by blast

theorem reprogram_access_matrix_witness:
  "\<exists>r'. pmp_configured demo_layout ''Task C'' r' \<and> \<not> riscv_user_access r' 0x3FC90010 AccRead"
proof -
  obtain r where "pmp_configured demo_layout ''none'' r" using init_configured by blast
  from reprogram_access_matrix [OF riscv.pmp_unit_axioms demo_layout_ok this, of "''Task C''"]
  show ?thesis by (auto simp: user_rights_def demo_layout_def in_flash_def in_range_def)
qed

text \<open>\<open>init_memory_protection\<close> run on the registers a reset leaves does not panic and closes
  everything that is neither flash nor SRAM, with flash read-execute and SRAM read-write outside
  the stacks of Watchdog and Task A, which stay closed until a task is switched in.\<close>

lemma boot_access_matrix:
  assumes "pmp_unit user_access" "layout_ok L"
  shows "\<exists>r. init_memory_protection L pmp_reset = (r, Ok ())
     \<and> (\<forall>a x. user_access r a x = user_rights L ''none'' a x)"
  using init_configured [of L] pmp_unit.access_matrix [OF assms] by blast

text \<open>C29: while a task is switched in, no address is both writable and executable in user mode,
  and the stacks of Watchdog and Task A cannot be touched by any other task.\<close>

theorem wx_and_stack_isolation:
  assumes "pmp_unit user_access" "layout_ok L" "pmp_configured L active r"
  shows "\<not> (user_access r a AccWrite \<and> user_access r a AccExec)
     \<and> (active \<noteq> ''Watchdog'' \<and> in_range a (TASK_WD_STACK L) 1024 \<longrightarrow> \<not> user_access r a x)
     \<and> (active \<noteq> ''Task A'' \<and> in_range a (TASK_A_STACK L) 1024 \<longrightarrow> \<not> user_access r a x)"
proof -
  have "TASK_WD_STACK L \<in> set (layout_stacks L)" "TASK_A_STACK L \<in> set (layout_stacks L)"
    by (simp_all add: layout_stacks_def)
  note st = this [THEN stack_in_sram(2) [OF assms(2)]]
  show ?thesis
    using st by (auto simp: pmp_unit.access_matrix [OF assms] user_rights_def)
qed

theorem wx_and_stack_isolation_witness:
  "\<exists>r. pmp_configured demo_layout ''none'' r
     \<and> \<not> riscv_user_access r 0x3FC90004 AccRead \<and> \<not> riscv_user_access r 0x3FC90404 AccWrite"
proof -
  obtain r where r: "pmp_configured demo_layout ''none'' r" using init_configured by blast
  note W = wx_and_stack_isolation [OF riscv.pmp_unit_axioms demo_layout_ok r]
  from W [of "0x3FC90004" AccRead] W [of "0x3FC90404" AccWrite] r show ?thesis
    by (auto simp: demo_layout_def in_range_def)
qed

end
