(* ===== verification/Kernel.thy ===== *)
theory Kernel
  imports Bitmap Spin_Lock Pmp
begin

text \<open>
  The state that the trap handler works on: the statics of \<^verbatim>\<open>kernel/src/main.rs\<close> and
  \<^verbatim>\<open>kernel/src/trap.rs\<close>, the memory that holds the task stacks, the timer and interrupt registers
  of the CLINT and the PMP registers of each hart; the reads and writes the handler is made of; and
  \<^verbatim>\<open>switch_task\<close>. The invariant \<open>kinv\<close> is the one that the header comment of \<^verbatim>\<open>trap.rs\<close>
  appeals to, made precise.
\<close>

section \<open>State\<close>

record KernelMutex =
  locked :: bool
  owner_task_idx :: "u8 option"
  waiters_bitmap :: u32

text \<open>The telemetry events; \<^verbatim>\<open>log_telemetry\<close> appends to the trace, which \<open>Telemetry_Log\<close> relates to the bytes on the wire.\<close>

datatype TraceEvent =
    TaskSwap u8 u8 u32
  | IpcTransfer u8 u8
  | FaultInterception u32 u32

record kernel =
  schedulers :: "BitMapScheduler list"
  mutexes :: "KernelMutex option list"
  sched_lock :: Spinlock
  mutex_lock :: Spinlock
  tick_count :: u32
  last_checkin_tick :: "u32 list"
  metric_trap_latency :: u32
  metric_pmp_violations :: u32
  ram :: mem
  msip :: "nat \<Rightarrow> u32"
  mtimecmp :: "nat \<Rightarrow> u64"
  pmp :: "nat \<Rightarrow> pmp_regs"
  trace :: "TraceEvent list"
  test_counter :: u32

text \<open>What the hardware supplies to one trap: the hart, the counters read on the way, and where
  the linker put the stacks.\<close>

record trap_env =
  hart_id :: nat
  end_cycle :: usize
  emu_cycle :: usize
  swap_cycle :: u32
  mtime :: u64
  stacks :: layout

section \<open>Accesses\<close>

definition sched_of :: "nat \<Rightarrow> (kernel, BitMapScheduler) km" where
  "sched_of h = kbind (kgets schedulers) (\<lambda>scheds. kindex scheds h)"

definition running_idx :: "nat \<Rightarrow> (kernel, nat) km" where
  "running_idx h = kbind (sched_of h) (\<lambda>sched. kret (current_partition_idx sched))"

text \<open>\<^verbatim>\<open>sched.task_table[i]\<close>, and the same with \<^verbatim>\<open>.as_ref().unwrap()\<close>.\<close>

definition peek_tcb :: "nat \<Rightarrow> nat \<Rightarrow> (kernel, TaskControlBlock option) km" where
  "peek_tcb h i = kbind (sched_of h) (\<lambda>sched. kindex (task_table sched) i)"

definition get_tcb :: "nat \<Rightarrow> nat \<Rightarrow> (kernel, TaskControlBlock) km" where
  "get_tcb h i = kbind (peek_tcb h i) kunwrap"

definition upd_sched :: "nat \<Rightarrow> (BitMapScheduler \<Rightarrow> BitMapScheduler) \<Rightarrow> kernel \<Rightarrow> kernel" where
  "upd_sched h f s = s\<lparr>schedulers := (schedulers s)[h := f (schedulers s ! h)]\<rparr>"

definition upd_tcb :: "nat \<Rightarrow> nat \<Rightarrow> (TaskControlBlock \<Rightarrow> TaskControlBlock) \<Rightarrow> kernel \<Rightarrow> kernel" where
  "upd_tcb h i f = upd_sched h (\<lambda>sched. sched\<lparr>task_table := upd_slot (task_table sched) i f\<rparr>)"

definition set_task_state :: "nat \<Rightarrow> nat \<Rightarrow> TaskState \<Rightarrow> (kernel, unit) km" where
  "set_task_state h i st = kmodify (upd_tcb h i (set_state st))"

definition frame_read :: "usize \<Rightarrow> nat \<Rightarrow> (kernel, usize) km" where
  "frame_read sp i = kgets (\<lambda>s. read_frame (ram s) sp i)"

definition frame_write :: "usize \<Rightarrow> nat \<Rightarrow> usize \<Rightarrow> (kernel, unit) km" where
  "frame_write sp i v = kmodify (\<lambda>s. s\<lparr>ram := write_frame (ram s) sp i v\<rparr>)"

definition log_telemetry :: "TraceEvent \<Rightarrow> (kernel, unit) km" where
  "log_telemetry ev = kmodify (\<lambda>s. s\<lparr>trace := trace s @ [ev]\<rparr>)"

definition write_msip :: "nat \<Rightarrow> u32 \<Rightarrow> (kernel, unit) km" where
  "write_msip h v = kmodify (\<lambda>s. s\<lparr>msip := (msip s)(h := v)\<rparr>)"

definition sched_guard :: "nat \<Rightarrow> (kernel, 'a) km \<Rightarrow> (kernel, 'a) km" where
  "sched_guard = with_guard sched_lock (\<lambda>l s. s\<lparr>sched_lock := l\<rparr>)"

definition mutex_acquire :: "nat \<Rightarrow> (kernel, unit) km" where
  "mutex_acquire h = zoom mutex_lock (\<lambda>l s. s\<lparr>mutex_lock := l\<rparr>) (spin_lock h)"

definition mutex_release :: "(kernel, unit) km" where
  "mutex_release = zoom mutex_lock (\<lambda>l s. s\<lparr>mutex_lock := l\<rparr>) spin_unlock"

section \<open>The context switch\<close>

definition run_schedule :: "nat \<Rightarrow> bool \<Rightarrow> (kernel, (nat \<times> usize) option) km" where
  "run_schedule h is_tick = kseq (kbind (sched_of h) (\<lambda>_. kret ()))
     (zoom (\<lambda>s. schedulers s ! h) (\<lambda>sched. upd_sched h (\<lambda>_. sched)) (schedule is_tick))"

definition reprogram_on :: "nat \<Rightarrow> layout \<Rightarrow> string \<Rightarrow> (kernel, unit) km" where
  "reprogram_on h L name =
     zoom (\<lambda>s. pmp s h) (\<lambda>r s. s\<lparr>pmp := (pmp s)(h := r)\<rparr>) (reprogram_pmp_stack L name)"

text \<open>The scheduler passed in is always that of the hart that runs the handler. The result is the
  new value of \<^verbatim>\<open>current_sp\<close>.\<close>

definition switch_task :: "trap_env \<Rightarrow> usize \<Rightarrow> bool \<Rightarrow> (kernel, usize) km" where
  "switch_task e current_sp is_tick =
     (let h = hart_id e in
      kbind (running_idx h) (\<lambda>from.
      kbind (run_schedule h is_tick) (\<lambda>r.
        case r of
          None \<Rightarrow> kret current_sp
        | Some (old, new_sp) \<Rightarrow>
            kbind (running_idx h) (\<lambda>to.
            kseq (log_telemetry (TaskSwap (of_nat from) (of_nat to) (swap_cycle e)))
           (kseq (kmodify (upd_tcb h old (\<lambda>tcb. tcb\<lparr>saved_sp := current_sp\<rparr>)))
           (kbind (running_idx h) (\<lambda>active_idx.
            kbind (peek_tcb h active_idx) (\<lambda>new_tcb.
              case new_tcb of
                None \<Rightarrow> kret new_sp
              | Some tcb \<Rightarrow> kseq (reprogram_on h (stacks e) (task_name tcb)) (kret new_sp)))))))))"

section \<open>The invariant\<close>

text \<open>The core whose scheduler the mutex code looks a waiter up on.\<close>

definition waiter_hart :: "nat \<Rightarrow> nat" where
  "waiter_hart i = (if i < 2 then 0 else 1)"

definition tcb_at :: "kernel \<Rightarrow> nat \<Rightarrow> nat \<Rightarrow> TaskControlBlock option" where
  "tcb_at s h i = slot (task_table (schedulers s ! h)) i"

text \<open>A control block in slot \<open>i\<close> of hart \<open>h\<close>: base priority \<open>i\<close>, eight capabilities, mutex
  capabilities only to existing array slots and only on the hart that the mutex code assumes.\<close>

definition tcb_ok :: "nat \<Rightarrow> nat \<Rightarrow> TaskControlBlock \<Rightarrow> bool" where
  "tcb_ok h i tcb \<longleftrightarrow> unat (priority tcb) = i \<and> length (capabilities tcb) = 8
     \<and> (\<forall>k l u. Mutex k l u \<in> set (capabilities tcb) \<longrightarrow> unat k < 8 \<and> waiter_hart i = h)"

text \<open>A mutex: an owner exactly when locked, owner and waiters registered.\<close>

definition mutex_ok :: "kernel \<Rightarrow> KernelMutex \<Rightarrow> bool" where
  "mutex_ok s m \<longleftrightarrow> (locked m \<longleftrightarrow> owner_task_idx m \<noteq> None)
     \<and> (\<forall>w. bit (waiters_bitmap m) w \<longrightarrow> tcb_at s (waiter_hart w) w \<noteq> None)
     \<and> (\<forall>k. owner_task_idx m = Some k \<longrightarrow> tcb_at s (waiter_hart (unat k)) (unat k) \<noteq> None)"

definition sched_ok :: "nat \<Rightarrow> BitMapScheduler \<Rightarrow> bool" where
  "sched_ok h sched \<longleftrightarrow> sched_wf sched
     \<and> (\<forall>i tcb. slot (task_table sched) i = Some tcb \<longrightarrow> tcb_ok h i tcb)"

text \<open>The PMP of a hart is programmed for the task that is current on it.\<close>

definition pmp_current :: "layout \<Rightarrow> kernel \<Rightarrow> nat \<Rightarrow> bool" where
  "pmp_current L s h \<longleftrightarrow> (\<exists>tcb. tcb_at s h (current_partition_idx (schedulers s ! h)) = Some tcb
     \<and> pmp_configured L (task_name tcb) (pmp s h))"

definition kinv :: "layout \<Rightarrow> kernel \<Rightarrow> bool" where
  "kinv L s \<longleftrightarrow> length (schedulers s) = 2 \<and> length (mutexes s) = 8
     \<and> length (last_checkin_tick s) = 32
     \<and> sched_ok 0 (schedulers s ! 0) \<and> sched_ok 1 (schedulers s ! 1)
     \<and> (\<forall>k m. slot (mutexes s) k = Some m \<longrightarrow> mutex_ok s m)
     \<and> pmp_current L s 0 \<and> pmp_current L s 1"

text \<open>The locks as a hart may find them when it enters the handler: \<^verbatim>\<open>SCHED_LOCK\<close> free or already
  its own (the watchdog task holds it while it runs), \<^verbatim>\<open>MUTEX_LOCK\<close> free.\<close>

definition locks_ok :: "nat \<Rightarrow> kernel \<Rightarrow> bool" where
  "locks_ok h s \<longleftrightarrow> usable h (sched_lock s) \<and> mutex_lock s = spinlock_new"

text \<open>A handler that ran from \<open>s\<close> is done: the invariant holds and the locks are as before.\<close>

definition settled :: "layout \<Rightarrow> kernel \<Rightarrow> kernel \<Rightarrow> bool" where
  "settled L s s' \<longleftrightarrow> kinv L s' \<and> sched_lock s' = sched_lock s \<and> mutex_lock s' = mutex_lock s"

section \<open>Lemmas on the accesses\<close>

lemma sched_of_wp [kvc]:
  "wp (sched_of h) Q E s = (if h < length (schedulers s) then Q (schedulers s ! h) s
     else E IndexOutOfBounds s)"
  by (simp add: sched_of_def kvc)

lemma running_idx_wp [kvc]:
  "wp (running_idx h) Q E s = (if h < length (schedulers s)
     then Q (current_partition_idx (schedulers s ! h)) s else E IndexOutOfBounds s)"
  by (simp add: running_idx_def kvc)

lemma access_wp [kvc]:
  "wp (set_task_state h i st) Q E s = Q () (upd_tcb h i (set_state st) s)"
  "wp (frame_read sp k) R E s = R (read_frame (ram s) sp k) s"
  "wp (frame_write sp k v) Q E s = Q () (s\<lparr>ram := write_frame (ram s) sp k v\<rparr>)"
  "wp (log_telemetry ev) Q E s = Q () (s\<lparr>trace := trace s @ [ev]\<rparr>)"
  "wp (write_msip h x) Q E s = Q () (s\<lparr>msip := (msip s)(h := x)\<rparr>)"
  by (simp_all add: set_task_state_def frame_read_def frame_write_def log_telemetry_def
      write_msip_def kvc)

lemma upd_tcb_fields [simp]:
  "mutexes (upd_tcb h i f s) = mutexes s" "sched_lock (upd_tcb h i f s) = sched_lock s"
  "mutex_lock (upd_tcb h i f s) = mutex_lock s" "tick_count (upd_tcb h i f s) = tick_count s"
  "last_checkin_tick (upd_tcb h i f s) = last_checkin_tick s" "ram (upd_tcb h i f s) = ram s"
  "msip (upd_tcb h i f s) = msip s" "mtimecmp (upd_tcb h i f s) = mtimecmp s"
  "pmp (upd_tcb h i f s) = pmp s" "trace (upd_tcb h i f s) = trace s"
  "length (schedulers (upd_tcb h i f s)) = length (schedulers s)"
  by (simp_all add: upd_tcb_def upd_sched_def)

lemma schedulers_upd_tcb:
  "h < length (schedulers s) \<Longrightarrow> schedulers (upd_tcb h i f s) ! h' =
     (if h = h' then (schedulers s ! h)\<lparr>task_table := upd_slot (task_table (schedulers s ! h)) i f\<rparr>
      else schedulers s ! h')"
  by (auto simp: upd_tcb_def upd_sched_def nth_list_update)

lemma current_upd_tcb [simp]:
  "current_partition_idx (schedulers (upd_tcb h i f s) ! h')
     = current_partition_idx (schedulers s ! h')"
  by (cases "h < length (schedulers s)"; cases "h = h'")
    (auto simp: upd_tcb_def upd_sched_def nth_list_update list_update_beyond)

lemma tcb_at_upd_tcb:
  "h < length (schedulers s) \<Longrightarrow> tcb_at (upd_tcb h i f s) h' i' =
     (if h = h' \<and> i = i' then map_option f (tcb_at s h i) else tcb_at s h' i')"
  by (auto simp: tcb_at_def schedulers_upd_tcb)

lemma tcb_at_cong: "schedulers s' = schedulers s \<Longrightarrow> tcb_at s' h i = tcb_at s h i"
  by (simp add: tcb_at_def)

section \<open>Preservation of the invariant\<close>

lemma mutex_ok_cong:
  "(\<And>h i. (tcb_at s' h i = None) = (tcb_at s h i = None)) \<Longrightarrow> mutex_ok s' m = mutex_ok s m"
  by (simp add: mutex_ok_def)

lemma kinv_cong:
  assumes "schedulers s' = schedulers s" "mutexes s' = mutexes s" "pmp s' = pmp s"
    and "length (last_checkin_tick s') = length (last_checkin_tick s)"
  shows "kinv L s' = kinv L s"
  using assms mutex_ok_cong [of s' s] tcb_at_cong [of s' s]
  by (simp add: kinv_def pmp_current_def)

lemma kinv_fields [simp]:
  "kinv L (s\<lparr>ram := m\<rparr>) = kinv L s" "kinv L (s\<lparr>trace := tr\<rparr>) = kinv L s"
  "kinv L (s\<lparr>msip := ip\<rparr>) = kinv L s" "kinv L (s\<lparr>mtimecmp := tc\<rparr>) = kinv L s"
  "kinv L (s\<lparr>sched_lock := sl\<rparr>) = kinv L s" "kinv L (s\<lparr>mutex_lock := ml\<rparr>) = kinv L s"
  "kinv L (s\<lparr>tick_count := n\<rparr>) = kinv L s" "kinv L (s\<lparr>metric_trap_latency := n\<rparr>) = kinv L s"
  "kinv L (s\<lparr>metric_pmp_violations := n\<rparr>) = kinv L s" "kinv L (s\<lparr>test_counter := n\<rparr>) = kinv L s"
  by (rule kinv_cong; simp)+

lemma kinvD:
  assumes "kinv L s" "h < 2"
  shows "length (schedulers s) = 2" "length (mutexes s) = 8" "length (last_checkin_tick s) = 32"
    "sched_wf (schedulers s ! h)" "pmp_current L s h"
    "\<And>i tcb. tcb_at s h i = Some tcb \<Longrightarrow> tcb_ok h i tcb"
    "\<And>k m. slot (mutexes s) k = Some m \<Longrightarrow> mutex_ok s m"
  using assms by (auto simp: kinv_def sched_ok_def tcb_at_def less_2_cases_iff)

lemma kinvI:
  assumes "length (schedulers s) = 2" "length (mutexes s) = 8" "length (last_checkin_tick s) = 32"
    and "\<And>h. h < 2 \<Longrightarrow> sched_wf (schedulers s ! h)" "\<And>h. h < 2 \<Longrightarrow> pmp_current L s h"
    and "\<And>h i tcb. h < 2 \<Longrightarrow> tcb_at s h i = Some tcb \<Longrightarrow> tcb_ok h i tcb"
    and "\<And>k m. slot (mutexes s) k = Some m \<Longrightarrow> mutex_ok s m"
  shows "kinv L s"
  using assms by (simp add: kinv_def sched_ok_def tcb_at_def)

lemma kinv_current:
  assumes "kinv L s" "h < 2"
  obtains tcb where "tcb_at s h (current_partition_idx (schedulers s ! h)) = Some tcb"
  using kinvD(5) [OF assms] by (auto simp: pmp_current_def)

lemma kinv_table_length: "kinv L s \<Longrightarrow> h < 2 \<Longrightarrow> length (task_table (schedulers s ! h)) = 32"
  using kinvD(4) by (auto simp: sched_wf_def sched_shape_def)

lemma tcb_at_less: "kinv L s \<Longrightarrow> h < 2 \<Longrightarrow> tcb_at s h i = Some tcb \<Longrightarrow> i < 32"
  using kinv_table_length [of L s h] by (auto simp: tcb_at_def dest: slot_Some_less)

text \<open>Changes of a control block that the invariant does not see.\<close>

definition benign :: "(TaskControlBlock \<Rightarrow> TaskControlBlock) \<Rightarrow> bool" where
  "benign f \<longleftrightarrow> (\<forall>t. priority (f t) = priority t \<and> capabilities (f t) = capabilities t
     \<and> task_name (f t) = task_name t \<and> (task_state (f t) = Running \<longrightarrow> task_state t = Running))"

lemma benign_set_state [simp]: "st \<noteq> Running \<Longrightarrow> benign (set_state st)"
  by (simp add: benign_def)

lemma benign_saved_sp [simp]: "benign (\<lambda>t. t\<lparr>saved_sp := v\<rparr>)"
  by (simp add: benign_def)

lemma sched_wf_upd_slot:
  assumes "sched_wf sc" "benign f"
  shows "sched_wf (sc\<lparr>task_table := upd_slot (task_table sc) i f\<rparr>)"
proof -
  let ?t = "sc\<lparr>task_table := upd_slot (task_table sc) i f\<rparr>"
  have "state_at sc k = Some Running" if "state_at ?t k = Some Running" for k
    using that assms(2) by (auto simp: state_at_def slot_upd_slot benign_def split: if_splits)
  moreover have "slot (task_table ?t) k = None \<longleftrightarrow> slot (task_table sc) k = None" for k
    by (simp add: slot_upd_slot)
  ultimately show ?thesis
    using assms(1) unfolding sched_wf_def sched_shape_def by simp
qed

lemma tcb_ok_set_state [simp]: "tcb_ok h i (set_state st t) = tcb_ok h i t"
  by (simp add: tcb_ok_def)

lemma tcb_ok_benign: "benign f \<Longrightarrow> tcb_ok h i (f t) = tcb_ok h i t"
  by (simp add: tcb_ok_def benign_def)

lemma kinv_upd_tcb:
  assumes k: "kinv L s" and h: "h < 2" and f: "benign f"
  shows "kinv L (upd_tcb h i f s)"
proof (rule kinvI)
  have len: "h < length (schedulers s)" using kinvD(1) [OF k h] h by simp
  note at = tcb_at_upd_tcb [OF len]
  show "sched_wf (schedulers (upd_tcb h i f s) ! h')" if "h' < 2" for h'
    using kinvD(4) [OF k that] sched_wf_upd_slot [OF kinvD(4) [OF k h] f, of i]
    by (auto simp: schedulers_upd_tcb [OF len])
  show "pmp_current L (upd_tcb h i f s) h'" if "h' < 2" for h'
    using kinvD(5) [OF k that] f by (auto simp: pmp_current_def at benign_def)
  show "tcb_ok h' i' tcb" if "h' < 2" "tcb_at (upd_tcb h i f s) h' i' = Some tcb" for h' i' tcb
    using that(2) kinvD(6) [OF k that(1), of i'] tcb_ok_benign [OF f]
    by (auto simp: at split: if_splits)
  show "mutex_ok (upd_tcb h i f s) m" if "slot (mutexes (upd_tcb h i f s)) n = Some m" for n m
    using kinvD(7) [OF k h, of n m] that mutex_ok_cong [of "upd_tcb h i f s" s m] by (simp add: at)
qed (use kinvD(1-3) [OF k h] in simp_all)

lemma kinv_mutexes:
  assumes "kinv L s" "mutex_ok s m" "k < 8"
  shows "kinv L (s\<lparr>mutexes := (mutexes s)[k := Some m]\<rparr>)"
proof -
  let ?t = "s\<lparr>mutexes := (mutexes s)[k := Some m]\<rparr>"
  have at: "tcb_at ?t h i = tcb_at s h i" for h i by (simp add: tcb_at_def)
  have "mutex_ok ?t m'" if "slot (mutexes ?t) n = Some m'" for n m'
    using that assms kinvD(7) [OF assms(1), of 0 n m'] mutex_ok_cong [of ?t s m'] at
    by (auto simp: slot_list_update split: if_splits)
  then show ?thesis
    using assms kinvD [OF assms(1)] kinvD(1-3) [OF assms(1), of 0]
    by (intro kinvI) (simp_all add: at pmp_current_def)
qed

section \<open>The context switch\<close>

text \<open>The scheduler after a switch from slot \<open>c\<close> to slot \<open>j\<close> with the old stack pointer stored.\<close>

definition hand_over :: "nat \<Rightarrow> nat \<Rightarrow> usize \<Rightarrow> BitMapScheduler \<Rightarrow> BitMapScheduler" where
  "hand_over c j sp sc = (let sc' = swap_partition c j sc in
     sc'\<lparr>task_table := upd_slot (task_table sc') c (\<lambda>tcb. tcb\<lparr>saved_sp := sp\<rparr>)\<rparr>)"

lemma hand_over_current [simp]: "current_partition_idx (hand_over c j sp sc) = j"
  by (simp add: hand_over_def Let_def)

lemma hand_over_wf:
  assumes "sched_wf sc" "slot (task_table sc) j = Some tcb" "c = current_partition_idx sc"
  shows "sched_wf (hand_over c j sp sc)"
  unfolding hand_over_def Let_def
  by (rule sched_wf_upd_slot)
    (use assms sched_wfD [OF assms(1)] in \<open>auto intro: swap_wf\<close>)

lemma slot_hand_over:
  "slot (task_table (hand_over c j sp sc)) i = map_option
     (\<lambda>t. (if i = c then (\<lambda>t. t\<lparr>saved_sp := sp\<rparr>) else id)
       ((if i = j then set_state Running else id) ((if i = c then demote else id) t)))
     (slot (task_table sc) i)"
  by (cases "slot (task_table sc) i") (auto simp: hand_over_def Let_def slot_upd_slot slot_swap)

lemma reprogram_on_run:
  assumes "pmp_configured L old (pmp s h)"
  obtains r where "pmp_configured L new r"
    "reprogram_on h L new s = (s\<lparr>pmp := (pmp s)(h := r)\<rparr>, Ok ())"
  using reprogram_configured [OF assms, of new] by (auto simp: reprogram_on_def zoom_def)

lemma upd_sched_id: "h < length (schedulers s) \<Longrightarrow> f (schedulers s ! h) = schedulers s ! h \<Longrightarrow>
  upd_sched h f s = s"
  by (simp add: upd_sched_def)

lemma switch_task_cases:
  assumes k: "kinv (stacks e) s" and h: "hart_id e < 2"
    and c: "c = current_partition_idx (schedulers s ! hart_id e)"
  obtains
    (stay) r where
      "resched b (schedulers s ! hart_id e) \<Longrightarrow> \<forall>i. state_at (schedulers s ! hart_id e) i \<noteq> Some Ready"
      "switch_task e sp b s = (upd_sched (hart_id e) (\<lambda>sc. sc\<lparr>remaining_mif_ticks := r\<rparr>) s, Ok sp)"
  | (switch) j tcb r where "resched b (schedulers s ! hart_id e)"
      "select_next (schedulers s ! hart_id e) c = Some j"
      "tcb_at s (hart_id e) j = Some tcb" "task_state tcb = Ready"
      "pmp_configured (stacks e) (task_name tcb) r"
      "switch_task e sp b s =
         (s\<lparr>schedulers := (schedulers s)[hart_id e := hand_over c j sp (schedulers s ! hart_id e)],
            pmp := (pmp s)(hart_id e := r),
            trace := trace s @ [TaskSwap (of_nat c) (of_nat j) (swap_cycle e)]\<rparr>,
          Ok (saved_sp tcb))"
proof -
  let ?h = "hart_id e" and ?sc = "schedulers s ! hart_id e"
  have len: "?h < length (schedulers s)" using kinvD(1) [OF k h] h by simp
  note wf = sched_wfD [OF kinvD(4) [OF k h]]
  have run: "run_schedule ?h b s = (upd_sched ?h (\<lambda>_. fst (schedule b ?sc)) s, snd (schedule b ?sc))"
    using len by (simp add: run_schedule_def sched_of_def kdefs zoom_def split: prod.split)
  have idx: "running_idx ?h t = (t, Ok (current_partition_idx (schedulers t ! ?h)))"
    if "length (schedulers t) = length (schedulers s)" for t
    using len that by (simp add: running_idx_def sched_of_def kdefs)
  from wf(1,2) show thesis
  proof (cases rule: schedule_cases [where is_tick = b])
    case stay
    obtain r where "charge_tick b ?sc = ?sc\<lparr>remaining_mif_ticks := r\<rparr>" using charge_tick_form by blast
    with stay show thesis
      by (intro that(1) [of r]) (simp_all add: switch_task_def Let_def idx kbind_eval run kret_def upd_sched_def)
  next
    case (idle r)
    then show thesis
      by (intro that(1) [of r]) (simp_all add: switch_task_def Let_def idx kbind_eval run kret_def upd_sched_def)
  next
    case (switch j tcb)
    obtain old where old: "pmp_configured (stacks e) old (pmp s ?h)"
      using kinvD(5) [OF k h] by (auto simp: pmp_current_def)
    let ?s1 = "s\<lparr>schedulers := (schedulers s)[?h := swap_partition c j ?sc]\<rparr>"
    let ?s2 = "upd_tcb ?h c (\<lambda>tcb. tcb\<lparr>saved_sp := sp\<rparr>)
       (?s1\<lparr>trace := trace s @ [TaskSwap (of_nat c) (of_nat j) (swap_cycle e)]\<rparr>)"
    have s2: "schedulers ?s2 = (schedulers s)[?h := hand_over c j sp ?sc]"
      using len by (simp add: upd_tcb_def upd_sched_def hand_over_def Let_def)
    have "pmp_configured (stacks e) old (pmp ?s2 ?h)" using old by simp
    then obtain r where r: "pmp_configured (stacks e) (task_name tcb) r"
      "reprogram_on ?h (stacks e) (task_name tcb) ?s2 = (?s2\<lparr>pmp := (pmp ?s2)(?h := r)\<rparr>, Ok ())"
      by (rule reprogram_on_run)
    obtain tcb' where tcb': "slot (task_table (hand_over c j sp ?sc)) j = Some tcb'"
      "task_name tcb' = task_name tcb"
      using switch(3) by (auto simp: slot_hand_over)
    then have peek: "peek_tcb ?h j ?s2 = (?s2, Ok (Some tcb'))"
      using len slot_Some_less [OF tcb'(1)] by (simp add: peek_tcb_def sched_of_def kdefs s2 slot_nth)
    have "switch_task e sp b s = (?s2\<lparr>pmp := (pmp ?s2)(?h := r)\<rparr>, Ok (saved_sp tcb))"
      using switch(5) len r(2) tcb'(2) peek
      by (simp add: switch_task_def Let_def idx run kdefs c upd_sched_def log_telemetry_def)
    also have "?s2\<lparr>pmp := (pmp ?s2)(?h := r)\<rparr> =
      s\<lparr>schedulers := (schedulers s)[?h := hand_over c j sp ?sc], pmp := (pmp s)(?h := r),
        trace := trace s @ [TaskSwap (of_nat c) (of_nat j) (swap_cycle e)]\<rparr>"
      using s2 by (simp add: upd_tcb_def upd_sched_def)
    finally show thesis using switch r(1) c by (intro that(2) [of j tcb r]) (simp_all add: tcb_at_def)
  qed
qed

text \<open>What a switch on hart \<open>h\<close> leaves alone.\<close>

definition rescheduled :: "TaskControlBlock \<Rightarrow> TaskControlBlock \<Rightarrow> bool" where
  "rescheduled t t' \<longleftrightarrow> (\<exists>sp st. t' = t\<lparr>saved_sp := sp, task_state := st\<rparr>
     \<and> (st = task_state t \<or> task_state t = Ready \<and> st = Running \<or> task_state t = Running \<and> st = Ready))"

definition switch_frame :: "nat \<Rightarrow> kernel \<Rightarrow> kernel \<Rightarrow> bool" where
  "switch_frame h s s' \<longleftrightarrow>
     (\<exists>ss p tr. s' = s\<lparr>schedulers := ss, pmp := p, trace := trace s @ tr\<rparr>)
   \<and> (\<forall>h'. h' \<noteq> h \<longrightarrow> schedulers s' ! h' = schedulers s ! h' \<and> pmp s' h' = pmp s h')
   \<and> (\<forall>i. case tcb_at s h i of
          None \<Rightarrow> tcb_at s' h i = None
        | Some t \<Rightarrow> (\<exists>t'. tcb_at s' h i = Some t' \<and> rescheduled t t'))"

lemma rescheduled_refl [simp]: "rescheduled t t"
  unfolding rescheduled_def by (intro exI [of _ "saved_sp t"] exI [of _ "task_state t"]) simp

lemma rescheduled_ok: "rescheduled t t' \<Longrightarrow> tcb_ok h i t' = tcb_ok h i t"
  by (elim exE conjE rescheduled_def [THEN iffD1, elim_format]) (simp add: tcb_ok_def)

lemma rescheduled_hand_over:
  assumes "i = j \<Longrightarrow> task_state t = Ready"
  shows "rescheduled t ((if i = c then (\<lambda>t. t\<lparr>saved_sp := sp\<rparr>) else id)
     ((if i = j then set_state Running else id) ((if i = c then demote else id) t)))"
    (is "rescheduled t ?t")
  unfolding rescheduled_def
  by (rule exI [of _ "saved_sp ?t"], rule exI [of _ "task_state ?t"])
    (use assms in \<open>auto simp: demote_def set_state_def\<close>)

lemma switch_frame_fields:
  assumes "switch_frame h s s'"
  shows "mutexes s' = mutexes s" "sched_lock s' = sched_lock s" "mutex_lock s' = mutex_lock s"
    "tick_count s' = tick_count s" "last_checkin_tick s' = last_checkin_tick s" "ram s' = ram s"
    "msip s' = msip s" "mtimecmp s' = mtimecmp s"
    "metric_trap_latency s' = metric_trap_latency s"
    "metric_pmp_violations s' = metric_pmp_violations s"
    "\<exists>tr. trace s' = trace s @ tr"
  using assms by (auto simp: switch_frame_def)

lemma kinv_schedulers:
  assumes k: "kinv L s" and h: "h < 2" and ss: "schedulers s' = (schedulers s)[h := sc]"
    and wf: "sched_wf sc" and same: "mutexes s' = mutexes s"
      "length (last_checkin_tick s') = length (last_checkin_tick s)"
    and slots: "\<And>i. slot (task_table sc) i = None \<longleftrightarrow> tcb_at s h i = None"
    and ok: "\<And>i t. slot (task_table sc) i = Some t \<Longrightarrow> tcb_ok h i t"
    and cur: "pmp_current L s' h" and pmp: "\<And>h'. h' \<noteq> h \<Longrightarrow> pmp s' h' = pmp s h'"
  shows "kinv L s'"
proof (rule kinvI)
  have len: "h < length (schedulers s)" using kinvD(1) [OF k h] h by simp
  have at: "tcb_at s' h' i = (if h' = h then slot (task_table sc) i else tcb_at s h' i)" for h' i
    using len by (auto simp: tcb_at_def ss nth_list_update)
  show "sched_wf (schedulers s' ! h')" if "h' < 2" for h'
    using kinvD(4) [OF k that] wf len by (auto simp: ss nth_list_update)
  show "pmp_current L s' h'" if "h' < 2" for h'
    using kinvD(5) [OF k that] cur pmp len
    by (cases "h' = h") (auto simp: pmp_current_def at ss nth_list_update)
  show "tcb_ok h' i tcb" if "h' < 2" "tcb_at s' h' i = Some tcb" for h' i tcb
    using that ok kinvD(6) [OF k that(1)] by (auto simp: at split: if_splits)
  show "mutex_ok s' m" if "slot (mutexes s') n = Some m" for n m
    using that kinvD(7) [OF k h, of n m] same mutex_ok_cong [of s' s m] slots by (simp add: at)
qed (use kinvD(1-3) [OF k h] ss same in simp_all)

lemma switch_task_wp:
  assumes k: "kinv (stacks e) s" and h: "hart_id e < 2"
    and Q: "\<And>sp' s'. kinv (stacks e) s' \<Longrightarrow> switch_frame (hart_id e) s s' \<Longrightarrow> Q sp' s'"
  shows "wp (switch_task e sp b) Q E s"
proof -
  let ?h = "hart_id e" and ?sc = "schedulers s ! hart_id e"
  have len: "?h < length (schedulers s)" using kinvD(1) [OF k h] h by simp
  from k h refl show ?thesis
  proof (cases rule: switch_task_cases [where b = b and sp = sp])
    case (stay r)
    let ?s = "upd_sched ?h (\<lambda>sc. sc\<lparr>remaining_mif_ticks := r\<rparr>) s"
    have at: "tcb_at ?s h' i = tcb_at s h' i" for h' i
      using len by (auto simp: tcb_at_def upd_sched_def nth_list_update)
    have "kinv (stacks e) ?s"
    proof (rule kinv_schedulers [OF k h])
      show "schedulers ?s = (schedulers s)[?h := ?sc\<lparr>remaining_mif_ticks := r\<rparr>]"
        by (simp add: upd_sched_def)
      show "pmp_current (stacks e) ?s ?h"
        using kinvD(5) [OF k h] len at by (simp add: pmp_current_def upd_sched_def)
    qed (use kinvD(4,6) [OF k h] in \<open>auto simp: upd_sched_def tcb_at_def\<close>)
    moreover have "\<exists>ss p tr. ?s = s\<lparr>schedulers := ss, pmp := p, trace := trace s @ tr\<rparr>"
      by (rule exI [of _ "schedulers ?s"], rule exI [of _ "pmp s"], rule exI [of _ "[]"]) (simp add: upd_sched_def)
    then have "switch_frame ?h s ?s"
      unfolding switch_frame_def at using len by (auto simp: upd_sched_def nth_list_update split: option.split)
    ultimately show ?thesis using Q stay(2) by (simp add: wp_def)
  next
    case (switch j tcb r)
    let ?c = "current_partition_idx ?sc"
    let ?s = "s\<lparr>schedulers := (schedulers s)[?h := hand_over ?c j sp ?sc], pmp := (pmp s)(?h := r),
      trace := trace s @ [TaskSwap (of_nat ?c) (of_nat j) (swap_cycle e)]\<rparr>"
    have at: "tcb_at ?s ?h i = slot (task_table (hand_over ?c j sp ?sc)) i" for i
      using len by (simp add: tcb_at_def)
    have tcb: "slot (task_table ?sc) j = Some tcb" using switch(3) by (simp add: tcb_at_def)
    have resched_slot: "case tcb_at s ?h i of None \<Rightarrow> tcb_at ?s ?h i = None
        | Some t \<Rightarrow> (\<exists>t'. tcb_at ?s ?h i = Some t' \<and> rescheduled t t')" for i
      proof (cases "tcb_at s ?h i")
        case None
        then show ?thesis unfolding at by (simp add: slot_hand_over tcb_at_def)
      next
        case (Some t)
        then have "i = j \<Longrightarrow> task_state t = Ready" using switch(3,4) by simp
        from rescheduled_hand_over [of i j t "current_partition_idx ?sc" sp, OF this] Some
        show ?thesis unfolding at by (simp add: slot_hand_over tcb_at_def split del: if_split)
      qed
    have "kinv (stacks e) ?s"
    proof (rule kinv_schedulers [OF k h])
      show "schedulers ?s = (schedulers s)[?h := hand_over ?c j sp ?sc]" by simp
      show "sched_wf (hand_over ?c j sp ?sc)"
        by (rule hand_over_wf [OF kinvD(4) [OF k h] tcb refl])
      show "pmp_current (stacks e) ?s ?h"
        using switch(5) tcb len by (auto simp: pmp_current_def at slot_hand_over)
      show "tcb_ok ?h i t" if "slot (task_table (hand_over ?c j sp ?sc)) i = Some t" for i t
        using that kinvD(6) [OF k h, of i] resched_slot [of i] rescheduled_ok
        by (fastforce simp: at [symmetric] split: option.splits)
    qed (auto simp: slot_hand_over tcb_at_def)
    moreover have "switch_frame ?h s ?s" unfolding switch_frame_def using resched_slot by auto
    ultimately show ?thesis using Q switch(6) by (simp add: wp_def)
  qed
qed

section \<open>Locks\<close>

definition taken :: "nat \<Rightarrow> Spinlock" where
  "taken h = \<lparr>owner = of_nat h + 1, depth = 1\<rparr>"

lemma spin_lock_free: "h < 2 \<Longrightarrow> spin_lock h spinlock_new = (taken h, Ok ())"
  using me_nonzero [of h] by (simp add: spin_lock_def spinlock_new_def taken_def Let_def)

lemma spin_unlock_taken: "spin_unlock (taken h) = (spinlock_new, Ok ())"
  by (simp add: spin_unlock_def spinlock_new_def taken_def Let_def)

lemma mutex_acquire_wp [kvc]:
  "mutex_lock s = spinlock_new \<Longrightarrow> h < 2 \<Longrightarrow>
     wp (mutex_acquire h) Q E s = Q () (s\<lparr>mutex_lock := taken h\<rparr>)"
  by (simp add: mutex_acquire_def wp_zoom) (simp add: wp_def spin_lock_free)

lemma mutex_release_wp [kvc]:
  "mutex_lock s = taken h \<Longrightarrow> wp mutex_release Q E s = Q () (s\<lparr>mutex_lock := spinlock_new\<rparr>)"
  by (simp add: mutex_release_def wp_zoom) (simp add: wp_def spin_unlock_taken)

definition acquired :: "nat \<Rightarrow> Spinlock \<Rightarrow> Spinlock" where
  "acquired h l = fst (spin_lock h l)"

lemma spin_lock_acquired:
  assumes "usable h l" "h < 2"
  shows "spin_lock h l = (acquired h l, Ok ())" "spin_unlock (acquired h l) = (l, Ok ())"
  using spin_lock_usable [OF assms] by (auto simp: acquired_def)

lemma sched_guard_wp:
  assumes u: "usable h (sched_lock s)" and h: "h < 2"
    and body: "wp body (\<lambda>a s'. sched_lock s' = acquired h (sched_lock s)
        \<and> Q a (s'\<lparr>sched_lock := sched_lock s\<rparr>)) E (s\<lparr>sched_lock := acquired h (sched_lock s)\<rparr>)"
  shows "wp (sched_guard h body) Q E s"
proof -
  let ?l = "sched_lock s"
  have "wp (spin_lock h) (\<lambda>a l. wp body (\<lambda>a. wp (kseq (zoom sched_lock (\<lambda>l s. s\<lparr>sched_lock := l\<rparr>) spin_unlock)
      (kret a)) Q E) E (s\<lparr>sched_lock := l\<rparr>)) (\<lambda>p l. E p (s\<lparr>sched_lock := l\<rparr>)) ?l"
    unfolding wp_def [of "spin_lock h"] spin_lock_acquired(1) [OF u h]
    by simp (rule wp_mono [OF body]; simp add: kvc; simp add: wp_def spin_lock_acquired(2) [OF u h])
  then show ?thesis by (simp add: sched_guard_def with_guard_def kvc)
qed

end
