(* ===== verification/Kernel_Mutex.thy ===== *)
theory Kernel_Mutex
  imports Kernel
begin

text \<open>
  The kernel mutexes (\<^verbatim>\<open>kernel/src/trap.rs\<close>): lock and unlock (system calls 3 and 4), the scan for
  the waiter that gets the mutex, and the recovery of the mutexes of a terminated task, which
  system call 8 and the fault handler share.
\<close>

section \<open>Operations\<close>

definition put_mutex :: "nat \<Rightarrow> KernelMutex \<Rightarrow> (kernel, unit) km" where
  "put_mutex k m = kmodify (\<lambda>s. s\<lparr>mutexes := (mutexes s)[k := Some m]\<rparr>)"

definition peek_mutex :: "nat \<Rightarrow> (kernel, KernelMutex option) km" where
  "peek_mutex k = kbind (kgets mutexes) (\<lambda>ms. kindex ms k)"

text \<open>The capability patterns the system calls match against.\<close>

fun lock_cap :: "Capability \<Rightarrow> u8 option" where
  "lock_cap (Mutex idx True _) = Some idx"
| "lock_cap _ = None"

fun unlock_cap :: "Capability \<Rightarrow> u8 option" where
  "unlock_cap (Mutex idx _ True) = Some idx"
| "unlock_cap _ = None"

text \<open>The capability in slot \<open>cap_idx\<close> of the running task.\<close>

definition running_cap :: "nat \<Rightarrow> nat \<Rightarrow> usize \<Rightarrow> (kernel, Capability) km" where
  "running_cap h running cap_idx =
     kbind (get_tcb h running) (\<lambda>tcb. kindex (capabilities tcb) (unat cap_idx))"

definition denied :: "usize \<Rightarrow> (kernel, bool \<times> bool \<times> usize) km" where
  "denied sp = kseq mutex_release (kret (True, False, sp))"

text \<open>The checks that system calls 3 and 4 share, made while \<^verbatim>\<open>MUTEX_LOCK\<close> is held: a capability
  of the wanted kind in slot \<open>cap_idx\<close>, and a mutex behind it. Every other path releases
  \<^verbatim>\<open>MUTEX_LOCK\<close> and sets \<^verbatim>\<open>permission_denied\<close>. The result is the two flags and
  \<^verbatim>\<open>current_sp\<close>.\<close>

definition with_mutex :: "(Capability \<Rightarrow> u8 option) \<Rightarrow> nat \<Rightarrow> nat \<Rightarrow> usize \<Rightarrow> usize \<Rightarrow>
    (u8 \<Rightarrow> KernelMutex \<Rightarrow> (kernel, bool \<times> bool \<times> usize) km) \<Rightarrow> (kernel, bool \<times> bool \<times> usize) km" where
  "with_mutex pattern h running cap_idx current_sp action =
     (if cap_idx < 8 then
        kbind (running_cap h running cap_idx) (\<lambda>cap.
          case pattern cap of
            None \<Rightarrow> denied current_sp
          | Some idx \<Rightarrow>
              kbind (peek_mutex (unat idx)) (\<lambda>entry.
                case entry of
                  None \<Rightarrow> denied current_sp
                | Some mutex \<Rightarrow> action idx mutex))
      else denied current_sp)"

text \<open>Taking the mutex, or blocking on it.\<close>

definition lock_mutex ::
    "trap_env \<Rightarrow> nat \<Rightarrow> usize \<Rightarrow> u8 \<Rightarrow> KernelMutex \<Rightarrow> (kernel, bool \<times> bool \<times> usize) km" where
  "lock_mutex e running current_sp idx mutex =
     (let h = hart_id e in
      if \<not> locked mutex then
        kseq (put_mutex (unat idx)
               (mutex\<lparr>locked := True, owner_task_idx := Some (of_nat running)\<rparr>))
       (kseq mutex_release
             (kret (False, True, current_sp)))
      else
        kbind (get_tcb h running) (\<lambda>_.
        kseq (set_task_state h running (BlockedOnMutex idx))
       (kseq (put_mutex (unat idx)
               (mutex\<lparr>waiters_bitmap := waiters_bitmap mutex OR push_bit running 1\<rparr>))
       (kseq mutex_release
       (kbind (switch_task e current_sp False) (\<lambda>sp.
         kret (False, True, sp)))))))"

fun waits_on_mutex :: "TaskState \<Rightarrow> bool" where
  "waits_on_mutex (BlockedOnMutex _) = True"
| "waits_on_mutex _ = False"

text \<open>The value returned in \<^verbatim>\<open>a0\<close>, and the new \<^verbatim>\<open>current_sp\<close>.\<close>

definition lock_result :: "nat \<Rightarrow> nat \<Rightarrow> usize \<Rightarrow> bool \<times> bool \<times> usize \<Rightarrow> (kernel, usize) km" where
  "lock_result h running user_sp = (\<lambda>(permission_denied, lock_granted, current_sp).
     if permission_denied then kseq (frame_write user_sp 6 (-1)) (kret current_sp)
     else if lock_granted then
       kbind (get_tcb h running) (\<lambda>tcb.
         if \<not> waits_on_mutex (task_state tcb)
         then kseq (frame_write user_sp 6 0) (kret current_sp)
         else kret current_sp)
     else kret current_sp)"

definition sys_lock :: "trap_env \<Rightarrow> usize \<Rightarrow> (kernel, usize) km" where
  "sys_lock e user_sp =
     (let h = hart_id e in
      kbind (frame_read user_sp 6) (\<lambda>cap_idx.
      sched_guard h (
        kbind (running_idx h) (\<lambda>running.
        kseq (mutex_acquire h)
       (kbind (with_mutex lock_cap h running cap_idx user_sp (lock_mutex e running user_sp))
              (lock_result h running user_sp))))))"

text \<open>The loop over the waiter bits: the first waiter found is replaced by a later one only if
  that one's base priority is a smaller number.\<close>

definition waiter_prio :: "nat \<Rightarrow> (kernel, u8) km" where
  "waiter_prio i = kbind (get_tcb (waiter_hart i) i) (\<lambda>tcb. kret (priority tcb))"

fun scan_waiters :: "u32 \<Rightarrow> nat list \<Rightarrow> nat option \<Rightarrow> (kernel, nat option) km" where
  "scan_waiters bm [] highest = kret highest"
| "scan_waiters bm (i # is) highest =
     (if bm AND push_bit i 1 \<noteq> 0 then
        (case highest of
           None \<Rightarrow> scan_waiters bm is (Some i)
         | Some w \<Rightarrow>
             kbind (waiter_prio w) (\<lambda>w_prio.
             kbind (waiter_prio i) (\<lambda>i_prio.
               scan_waiters bm is (if i_prio < w_prio then Some i else Some w))))
      else scan_waiters bm is highest)"

definition highest_waiter :: "u32 \<Rightarrow> (kernel, nat option) km" where
  "highest_waiter bm = scan_waiters bm [0..<32] None"

text \<open>Handing the mutex to a waiter, or freeing it; in both cases the caller gives up the hart.\<close>

definition hand_mutex ::
    "trap_env \<Rightarrow> u8 \<Rightarrow> KernelMutex \<Rightarrow> nat option \<Rightarrow> (kernel, unit) km" where
  "hand_mutex e idx mutex highest =
     (case highest of
        Some w \<Rightarrow>
          kseq (put_mutex (unat idx)
                 (mutex\<lparr>owner_task_idx := Some (of_nat w),
                        waiters_bitmap := waiters_bitmap mutex AND NOT (push_bit w 1)\<rparr>))
         (kbind (get_tcb (waiter_hart w) w) (\<lambda>waiter_tcb.
          kseq (set_task_state (waiter_hart w) w Ready)
         (kseq (frame_write (saved_sp waiter_tcb) 6 0)
         (kseq mutex_release
               (if waiter_hart w \<noteq> hart_id e then write_msip (waiter_hart w) 1 else kret ())))))
      | None \<Rightarrow>
          kseq (put_mutex (unat idx) (mutex\<lparr>locked := False, owner_task_idx := None\<rparr>))
               mutex_release)"

definition unlock_mutex ::
    "trap_env \<Rightarrow> nat \<Rightarrow> usize \<Rightarrow> u8 \<Rightarrow> KernelMutex \<Rightarrow> (kernel, bool \<times> bool \<times> usize) km" where
  "unlock_mutex e running current_sp idx mutex =
     kseq (kassert AssertFailed (owner_task_idx mutex = Some (of_nat running)))
    (kbind (highest_waiter (waiters_bitmap mutex)) (\<lambda>highest.
     kseq (hand_mutex e idx mutex highest)
    (kbind (switch_task e current_sp False) (\<lambda>sp.
      kret (False, True, sp)))))"

definition unlock_result :: "usize \<Rightarrow> bool \<times> bool \<times> usize \<Rightarrow> (kernel, usize) km" where
  "unlock_result user_sp = (\<lambda>(permission_denied, unlock_success, current_sp).
     if permission_denied then kseq (frame_write user_sp 6 (-1)) (kret current_sp)
     else if unlock_success then kseq (frame_write user_sp 6 0) (kret current_sp)
     else kret current_sp)"

definition sys_unlock :: "trap_env \<Rightarrow> usize \<Rightarrow> (kernel, usize) km" where
  "sys_unlock e user_sp =
     (let h = hart_id e in
      kbind (frame_read user_sp 6) (\<lambda>cap_idx.
      sched_guard h (
        kbind (running_idx h) (\<lambda>running.
        kseq (mutex_acquire h)
       (kbind (with_mutex unlock_cap h running cap_idx user_sp (unlock_mutex e running user_sp))
              (unlock_result user_sp))))))"

text \<open>Recovery: every mutex of the terminated task goes to its highest waiter or is freed.\<close>

definition recover_mutex :: "nat \<Rightarrow> nat \<Rightarrow> (kernel, unit) km" where
  "recover_mutex task k =
     kbind (peek_mutex k) (\<lambda>entry.
       case entry of
         None \<Rightarrow> kret ()
       | Some mutex \<Rightarrow>
           if owner_task_idx mutex = Some (of_nat task) then
             (let freed = mutex\<lparr>locked := False, owner_task_idx := None\<rparr> in
              kseq (put_mutex k freed)
             (kbind (highest_waiter (waiters_bitmap mutex)) (\<lambda>highest.
                case highest of
                  None \<Rightarrow> kret ()
                | Some w \<Rightarrow>
                    kseq (put_mutex k (freed\<lparr>locked := True, owner_task_idx := Some (of_nat w),
                            waiters_bitmap := waiters_bitmap mutex AND NOT (push_bit w 1)\<rparr>))
                   (kbind (peek_tcb (waiter_hart w) w) (\<lambda>waiter.
                      case waiter of
                        None \<Rightarrow> kret ()
                      | Some _ \<Rightarrow> set_task_state (waiter_hart w) w Ready)))))
           else kret ())"

definition recover_mutexes :: "trap_env \<Rightarrow> nat \<Rightarrow> (kernel, unit) km" where
  "recover_mutexes e task =
     kseq (mutex_acquire (hart_id e))
    (kseq (kbind (kgets mutexes) (\<lambda>ms. kforeach [0..<length ms] (recover_mutex task)))
          mutex_release)"

text \<open>System call 4 on a mutex that the running task does not own, through a capability that
  allows unlocking it.\<close>

definition foreign_unlock :: "trap_env \<Rightarrow> usize \<Rightarrow> kernel \<Rightarrow> bool" where
  "foreign_unlock e sp s =
     (let h = hart_id e; r = current_partition_idx (schedulers s ! h);
          cap_idx = read_frame (ram s) sp 6 in
      cap_idx < 8 \<and> (case tcb_at s h r of
          None \<Rightarrow> False
        | Some tcb \<Rightarrow> (case unlock_cap (capabilities tcb ! unat cap_idx) of
              None \<Rightarrow> False
            | Some idx \<Rightarrow> (case slot (mutexes s) (unat idx) of
                  None \<Rightarrow> False
                | Some m \<Rightarrow> owner_task_idx m \<noteq> Some (of_nat r)))))"

section \<open>The scan finds the lowest waiter\<close>

lemma bit_test: "bm AND push_bit i 1 \<noteq> 0 \<longleftrightarrow> bit bm i" if "i < 32" for bm :: u32
proof -
  have "bm AND push_bit i 1 = (if bit bm i then push_bit i 1 else 0)"
    by (rule bit_word_eqI) (auto simp: bit_simps)
  moreover have "bit (push_bit i 1 :: u32) i" using that by (simp add: bit_simps)
  then have "(push_bit i 1 :: u32) \<noteq> 0" by (metis bit_0_eq bot_apply bot_bool_def)
  ultimately show ?thesis by simp
qed

lemma get_tcb_wp [kvc]:
  "tcb_at s h i = Some tcb \<Longrightarrow> h < length (schedulers s) \<Longrightarrow> wp (get_tcb h i) Q E s = Q tcb s"
  by (auto simp: get_tcb_def peek_tcb_def kvc tcb_at_def slot_nth dest: slot_Some_less
      split: if_splits)

lemma get_tcb_run:
  "tcb_at s h i = Some tcb \<Longrightarrow> h < length (schedulers s) \<Longrightarrow> get_tcb h i s = (s, Ok tcb)"
  using slot_Some_less [of "task_table (schedulers s ! h)" i tcb]
  by (auto simp: get_tcb_def peek_tcb_def sched_of_def kdefs tcb_at_def slot_nth)

lemma waiter_hart_less [simp]: "waiter_hart i < 2"
  by (simp add: waiter_hart_def)

lemma waiter_prio_run:
  assumes "kinv L s" "tcb_at s (waiter_hart i) i = Some tcb"
  shows "waiter_prio i s = (s, Ok (of_nat i))"
proof -
  have "unat (priority tcb) = i"
    using kinvD(6) [OF assms(1) waiter_hart_less assms(2)] by (simp add: tcb_ok_def)
  then have "priority tcb = of_nat i" by auto
  moreover have "waiter_hart i < length (schedulers s)"
    using kinvD(1) [OF assms(1), of 0] by simp
  ultimately show ?thesis
    using get_tcb_run [OF assms(2)] by (simp add: waiter_prio_def kdefs)
qed

lemma scan_waiters_run:
  assumes k: "kinv L s" and reg: "\<And>w. bit bm w \<Longrightarrow> tcb_at s (waiter_hart w) w \<noteq> None"
    and "\<forall>i\<in>set is. i < 32" "sorted_wrt (<) is"
    and "case highest of None \<Rightarrow> True | Some w \<Rightarrow> bit bm w \<and> (\<forall>i\<in>set is. w < i)"
  shows "scan_waiters bm is highest s = (s, Ok (case highest of
     None \<Rightarrow> find (bit bm) is | Some w \<Rightarrow> Some w))"
  using assms(3-)
proof (induction "is" arbitrary: highest)
  case Nil
  then show ?case by (simp add: kret_def split: option.split)
next
  case (Cons i "is")
  show ?case
  proof (cases "bit bm i")
    case False
    then show ?thesis using Cons bit_test [of i bm] by (auto split: option.splits)
  next
    case True
    then have test: "bm AND push_bit i 1 \<noteq> 0" using Cons.prems(1) bit_test [of i bm] by simp
    show ?thesis
    proof (cases highest)
      case None
      have "scan_waiters bm is (Some i) s = (s, Ok (Some i))"
        using Cons.IH [of "Some i"] Cons.prems True by simp
      then show ?thesis using None True test by simp
    next
      case (Some w)
      obtain ti tw where "tcb_at s (waiter_hart i) i = Some ti" "tcb_at s (waiter_hart w) w = Some tw"
        using reg True Cons.prems(3) Some by fastforce
      then have p: "waiter_prio i s = (s, Ok (of_nat i))" "waiter_prio w s = (s, Ok (of_nat w))"
        using waiter_prio_run [OF k] by blast+
      have "w < i" "i < 32" using Cons.prems Some by auto
      then have "\<not> (of_nat i :: u8) < of_nat w" by (simp add: word_less_nat_alt unat_of_nat)
      moreover have "scan_waiters bm is (Some w) s = (s, Ok (Some w))"
        using Cons.IH [of "Some w"] Cons.prems Some by auto
      ultimately show ?thesis using Some test p by (simp add: kbind_eval)
    qed
  qed
qed

text \<open>The waiter that gets the mutex: the lowest bit.\<close>

definition first_waiter :: "u32 \<Rightarrow> nat option" where
  "first_waiter bm = find (bit bm) [0..<32]"

lemma first_waiter_Some:
  "first_waiter bm = Some w \<longleftrightarrow> bit bm w \<and> (\<forall>i<w. \<not> bit bm i)" for bm :: u32
proof -
  have "bit bm w \<Longrightarrow> w < 32" using bit_imp_le_length [of bm w] by simp
  then show ?thesis
    unfolding first_waiter_def find_Some_iff by (auto intro!: exI [of _ w])
qed

lemma first_waiter_None: "first_waiter bm = None \<longleftrightarrow> bm = 0" for bm :: u32
proof -
  have "first_waiter bm = None \<longleftrightarrow> (\<forall>n<32. \<not> bit bm n)"
    by (auto simp: first_waiter_def find_None_iff)
  also have "\<dots> \<longleftrightarrow> bm = 0" by (auto intro!: bit_word_eqI)
  finally show ?thesis .
qed

lemma highest_waiter_run:
  assumes "kinv L s" "\<And>w. bit bm w \<Longrightarrow> tcb_at s (waiter_hart w) w \<noteq> None"
  shows "highest_waiter bm s = (s, Ok (first_waiter bm))"
  using scan_waiters_run [OF assms(1), of bm "[0..<32]" None] assms(2)
  by (simp add: highest_waiter_def first_waiter_def sorted_wrt_upt)

section \<open>Safety of the operations\<close>

lemma lock_capD: "lock_cap c = Some idx \<Longrightarrow> \<exists>u. c = Mutex idx True u"
  by (cases c rule: lock_cap.cases) auto

lemma unlock_capD: "unlock_cap c = Some idx \<Longrightarrow> \<exists>l. c = Mutex idx l True"
  by (cases c rule: unlock_cap.cases) auto

lemma mutex_cap_ok:
  assumes "kinv L s" "h < 2" "tcb_at s h i = Some tcb" "c \<in> set (capabilities tcb)"
    and "lock_cap c = Some idx \<or> unlock_cap c = Some idx"
  shows "unat idx < 8" "waiter_hart i = h"
  using kinvD(6) [OF assms(1-3)] assms(4,5)
  by (auto simp: tcb_ok_def dest!: lock_capD unlock_capD)

lemma running_cap_wp:
  assumes "kinv L s" "h < 2" "tcb_at s h running = Some tcb" "cap_idx < 8"
    and "capabilities tcb ! unat cap_idx \<in> set (capabilities tcb) \<Longrightarrow>
      Q (capabilities tcb ! unat cap_idx) s"
  shows "wp (running_cap h running cap_idx) Q E s"
proof -
  have "length (capabilities tcb) = 8" using kinvD(6) [OF assms(1-3)] by (simp add: tcb_ok_def)
  moreover have "unat cap_idx < 8" using assms(4) by (simp add: word_less_nat_alt)
  moreover have "h < length (schedulers s)" using kinvD(1) [OF assms(1,2)] assms(2) by simp
  ultimately show ?thesis using assms(3,5) by (simp add: running_cap_def kvc)
qed

lemma peek_mutex_wp:
  "kinv L s \<Longrightarrow> k < 8 \<Longrightarrow> wp (peek_mutex k) Q E s = Q (slot (mutexes s) k) s"
  using kinvD(2) [of L s 0] by (simp add: peek_mutex_def kvc slot_nth)

lemma put_mutex_wp [kvc]:
  "wp (put_mutex k m) Q E s = Q () (s\<lparr>mutexes := (mutexes s)[k := Some m]\<rparr>)"
  by (simp add: put_mutex_def kvc)

lemma denied_wp [kvc]:
  "mutex_lock s = taken h \<Longrightarrow> wp (denied sp) Q E s = Q (True, False, sp) (s\<lparr>mutex_lock := spinlock_new\<rparr>)"
  by (simp add: denied_def kvc)

text \<open>What holds inside a system call: the invariant, with \<^verbatim>\<open>SCHED_LOCK\<close> as acquired and
  \<^verbatim>\<open>MUTEX_LOCK\<close> in a given state.\<close>

definition guarded :: "trap_env \<Rightarrow> Spinlock \<Rightarrow> Spinlock \<Rightarrow> kernel \<Rightarrow> bool" where
  "guarded e sl ml s \<longleftrightarrow> kinv (stacks e) s \<and> sched_lock s = sl \<and> mutex_lock s = ml"

lemma guarded_fields [simp]:
  "guarded e sl ml (s\<lparr>ram := m\<rparr>) = guarded e sl ml s" "guarded e sl ml (s\<lparr>trace := tr\<rparr>) = guarded e sl ml s"
  "guarded e sl ml (s\<lparr>msip := ip\<rparr>) = guarded e sl ml s"
  "guarded e sl ml (s\<lparr>mutex_lock := ml'\<rparr>) \<longleftrightarrow> guarded e sl (mutex_lock s) s \<and> ml' = ml"
  by (auto simp: guarded_def)

lemma guarded_upd_tcb:
  "guarded e sl ml s \<Longrightarrow> h < 2 \<Longrightarrow> benign f \<Longrightarrow> guarded e sl ml (upd_tcb h i f s)"
  by (simp add: guarded_def kinv_upd_tcb)

lemma guarded_put_mutex:
  "guarded e sl ml s \<Longrightarrow> mutex_ok s m \<Longrightarrow> k < 8 \<Longrightarrow>
     guarded e sl ml (s\<lparr>mutexes := (mutexes s)[k := Some m]\<rparr>)"
  by (simp add: guarded_def kinv_mutexes)

lemma guarded_switch:
  assumes "guarded e sl ml s" "hart_id e < 2"
    and "\<And>sp' s'. guarded e sl ml s' \<Longrightarrow> switch_frame (hart_id e) s s' \<Longrightarrow> Q sp' s'"
  shows "wp (switch_task e sp b) Q E s"
  by (rule switch_task_wp) (use assms switch_frame_fields in \<open>auto simp: guarded_def\<close>)

lemma switch_frame_tcb:
  "switch_frame h s s' \<Longrightarrow> (tcb_at s' h i = None) = (tcb_at s h i = None)"
  by (auto simp: switch_frame_def split: option.splits dest!: spec [of _ i])

lemma sched_guard_safe:
  assumes "kinv (stacks e) s" "locks_ok (hart_id e) s" "hart_id e < 2"
    and "\<And>s0 sl. guarded e sl spinlock_new s0 \<Longrightarrow> s0 = s\<lparr>sched_lock := sl\<rparr> \<Longrightarrow>
      wp body (\<lambda>a. guarded e sl spinlock_new) E s0"
  shows "wp (sched_guard (hart_id e) body) (\<lambda>a. settled (stacks e) s) E s"
proof (rule sched_guard_wp)
  let ?sl = "acquired (hart_id e) (sched_lock s)"
  let ?s0 = "s\<lparr>sched_lock := ?sl\<rparr>"
  have "guarded e ?sl spinlock_new ?s0" using assms(1,2) by (simp add: guarded_def locks_ok_def)
  from assms(4) [OF this refl]
  show "wp body (\<lambda>a s'. sched_lock s' = ?sl \<and> settled (stacks e) s (s'\<lparr>sched_lock := sched_lock s\<rparr>)) E ?s0"
    by (rule wp_mono) (use assms(2) in \<open>auto simp: guarded_def locks_ok_def settled_def\<close>)
qed (use assms in \<open>simp_all add: locks_ok_def\<close>)

lemma mutex_ok_waits:
  assumes "mutex_ok s m" "tcb_at s (waiter_hart i) i \<noteq> None"
  shows "mutex_ok s (m\<lparr>waiters_bitmap := waiters_bitmap m OR push_bit i 1\<rparr>)"
  using assms by (auto simp: mutex_ok_def bit_simps)

lemma mutex_ok_owned:
  assumes "mutex_ok s m" "tcb_at s (waiter_hart i) i \<noteq> None" "i < 32"
  shows "mutex_ok s (m\<lparr>locked := True, owner_task_idx := Some (of_nat i)\<rparr>)"
    and "mutex_ok s (m\<lparr>locked := True, owner_task_idx := Some (of_nat i), waiters_bitmap := waiters_bitmap m AND NOT b\<rparr>)"
  using assms by (auto simp: mutex_ok_def bit_simps unat_of_nat)

lemma mutex_ok_freed: "mutex_ok s m \<Longrightarrow> mutex_ok s (m\<lparr>locked := False, owner_task_idx := None\<rparr>)"
  by (auto simp: mutex_ok_def)

lemma with_mutex_wp:
  assumes k: "kinv L s" and h: "h < 2" and t: "tcb_at s h running = Some tcb"
    and ml: "mutex_lock s = taken h'"
    and pat: "\<And>c idx. pattern c = Some idx \<Longrightarrow> lock_cap c = Some idx \<or> unlock_cap c = Some idx"
    and no: "Q (True, False, sp) (s\<lparr>mutex_lock := spinlock_new\<rparr>)"
    and yes: "\<And>idx m. cap_idx < 8 \<Longrightarrow> pattern (capabilities tcb ! unat cap_idx) = Some idx \<Longrightarrow>
      unat idx < 8 \<Longrightarrow> waiter_hart running = h \<Longrightarrow>
      slot (mutexes s) (unat idx) = Some m \<Longrightarrow> wp (action idx m) Q E s"
  shows "wp (with_mutex pattern h running cap_idx sp action) Q E s"
proof (cases "cap_idx < 8")
  case False
  then show ?thesis using ml no by (simp add: with_mutex_def kvc)
next
  case True
  let ?c = "capabilities tcb ! unat cap_idx"
  have "wp (case pattern ?c of None \<Rightarrow> denied sp | Some idx \<Rightarrow> kbind (peek_mutex (unat idx))
      (\<lambda>entry. case entry of None \<Rightarrow> denied sp | Some mutex \<Rightarrow> action idx mutex)) Q E s"
    if "?c \<in> set (capabilities tcb)"
    using mutex_cap_ok [OF k h t that pat] no yes ml True
    by (auto simp: kvc peek_mutex_wp [OF k] split: option.split)
  then show ?thesis
    using True by (auto simp: with_mutex_def kvc intro!: running_cap_wp [OF k h t True])
qed

lemma upd_tcb_mutexes:
  "upd_tcb h i f s\<lparr>mutexes := ms\<rparr> = upd_tcb h i f (s\<lparr>mutexes := ms\<rparr>)"
  by (simp add: upd_tcb_def upd_sched_def)

lemma lock_mutex_safe:
  assumes g: "guarded e sl (taken (hart_id e)) s" and h: "hart_id e < 2"
    and t: "tcb_at s (hart_id e) running = Some tcb" "running < 32" "waiter_hart running = hart_id e"
    and m: "slot (mutexes s) (unat idx) = Some m" "unat idx < 8"
  shows "wp (lock_mutex e running sp idx m)
    (\<lambda>_ s'. guarded e sl spinlock_new s' \<and> tcb_at s' (hart_id e) running \<noteq> None) E s"
proof -
  let ?h = "hart_id e"
  have k: "kinv (stacks e) s" and ml: "mutex_lock s = taken ?h" using g by (auto simp: guarded_def)
  have len: "?h < length (schedulers s)" using kinvD(1) [OF k h] h by simp
  have ok: "mutex_ok s m" by (rule kinvD(7) [OF k h m(1)])
  show ?thesis
  proof (cases "locked m")
    case False
    have "guarded e sl (taken ?h) (s\<lparr>mutexes := (mutexes s)[unat idx := Some
        (m\<lparr>locked := True, owner_task_idx := Some (of_nat running)\<rparr>)]\<rparr>)"
      by (intro guarded_put_mutex g m(2) mutex_ok_owned ok t(2)) (use t in simp)
    then show ?thesis using False ml t(1) by (simp add: lock_mutex_def Let_def kvc) (simp add: guarded_def tcb_at_def)
  next
    case True
    let ?m = "m\<lparr>waiters_bitmap := waiters_bitmap m OR push_bit running 1\<rparr>"
    let ?s1 = "s\<lparr>mutexes := (mutexes s)[unat idx := Some ?m]\<rparr>"
    let ?s2 = "upd_tcb ?h running (set_state (BlockedOnMutex idx)) ?s1\<lparr>mutex_lock := spinlock_new\<rparr>"
    have "guarded e sl (taken ?h) ?s1"
      by (intro guarded_put_mutex g m(2) mutex_ok_waits ok) (use t in simp)
    then have "guarded e sl (taken ?h) (upd_tcb ?h running (set_state (BlockedOnMutex idx)) ?s1)"
      by (rule guarded_upd_tcb) (use h in simp_all)
    then have g2: "guarded e sl spinlock_new ?s2" by (simp add: guarded_def)
    have "tcb_at ?s2 ?h running \<noteq> None"
      using t(1) len tcb_at_upd_tcb [of ?h ?s1] by (simp add: tcb_at_def)
    then have "wp (switch_task e sp False)
      (\<lambda>_ s'. guarded e sl spinlock_new s' \<and> tcb_at s' ?h running \<noteq> None) E ?s2"
      by (intro guarded_switch [OF g2 h]) (auto simp: switch_frame_tcb)
    then show ?thesis
      using True t(1) len ml by (simp add: lock_mutex_def Let_def kvc upd_tcb_mutexes)
  qed
qed

lemma lock_result_safe:
  assumes "guarded e sl spinlock_new s" "hart_id e < 2" "tcb_at s (hart_id e) running \<noteq> None"
  shows "wp (lock_result (hart_id e) running sp r) (\<lambda>_. guarded e sl spinlock_new) E s"
proof -
  obtain tcb where "tcb_at s (hart_id e) running = Some tcb" using assms(3) by auto
  moreover have "hart_id e < length (schedulers s)"
    using assms(1,2) kinvD(1) by (auto simp: guarded_def)
  ultimately show ?thesis using assms(1) by (cases r) (simp add: lock_result_def kvc)
qed

text \<open>The frame of system calls 3 and 4: under both locks, with the running task registered.\<close>

lemma mutex_call_safe:
  assumes k: "kinv (stacks e) s" "locks_ok (hart_id e) s" and h: "hart_id e < 2"
    and body: "\<And>s1 running tcb sl. guarded e sl (taken (hart_id e)) s1 \<Longrightarrow> running < 32 \<Longrightarrow>
      running = current_partition_idx (schedulers s ! hart_id e) \<Longrightarrow> mutexes s1 = mutexes s \<Longrightarrow>
      tcb_at s1 (hart_id e) running = Some tcb \<Longrightarrow> tcb_at s (hart_id e) running = Some tcb \<Longrightarrow>
      wp (body running) (\<lambda>_. guarded e sl spinlock_new) E s1"
  shows "wp (sched_guard (hart_id e) (kbind (running_idx (hart_id e)) (\<lambda>running.
      kseq (mutex_acquire (hart_id e)) (body running))))
    (\<lambda>_. settled (stacks e) s) E s"
proof (rule sched_guard_safe [OF k h])
  fix s0 sl assume g: "guarded e sl spinlock_new s0" and s0: "s0 = s\<lparr>sched_lock := sl\<rparr>"
  let ?h = "hart_id e" and ?r = "current_partition_idx (schedulers s0 ! hart_id e)"
  from g have k0: "kinv (stacks e) s0" and ml: "mutex_lock s0 = spinlock_new" by (auto simp: guarded_def)
  have len: "?h < length (schedulers s0)" using kinvD(1) [OF k0 h] h by simp
  obtain tcb where t: "tcb_at s0 ?h ?r = Some tcb" using kinv_current [OF k0 h] by blast
  have "wp (body ?r) (\<lambda>_. guarded e sl spinlock_new) E (s0\<lparr>mutex_lock := taken ?h\<rparr>)"
    by (rule body [where tcb = tcb]) (use g t tcb_at_less [OF k0 h t] in
      \<open>simp_all add: guarded_def tcb_at_def s0\<close>)
  then show "wp (kbind (running_idx ?h) (\<lambda>running. kseq (mutex_acquire ?h) (body running)))
     (\<lambda>_. guarded e sl spinlock_new) E s0"
    using len ml h by (simp add: kvc)
qed

lemma sys_lock_safe:
  assumes k: "kinv (stacks e) s" "locks_ok (hart_id e) s" and h: "hart_id e < 2"
  shows "wp (sys_lock e sp) (\<lambda>_. settled (stacks e) s) E s"
  unfolding sys_lock_def Let_def wp_kbind [of "frame_read sp 6"] access_wp
proof (rule mutex_call_safe [OF k h])
  fix s1 r tcb cap sl
  assume g: "guarded e sl (taken (hart_id e)) s1" and r: "r < 32"
    and t: "tcb_at s1 (hart_id e) r = Some tcb"
  have "wp (with_mutex lock_cap (hart_id e) r cap sp (lock_mutex e r sp))
    (\<lambda>_ s'. guarded e sl spinlock_new s' \<and> tcb_at s' (hart_id e) r \<noteq> None) E s1"
    by (rule with_mutex_wp [OF _ h t])
      (use g t r lock_mutex_safe [OF g h t] in \<open>auto simp: guarded_def tcb_at_def\<close>)
  then show "wp (kbind (with_mutex lock_cap (hart_id e) r cap sp (lock_mutex e r sp))
     (lock_result (hart_id e) r sp)) (\<lambda>_. guarded e sl spinlock_new) E s1"
    unfolding wp_kbind by (rule wp_mono) (use h lock_result_safe in auto)
qed

lemma mutex_ok_waiter:
  assumes "mutex_ok s m" "first_waiter (waiters_bitmap m) = Some w"
  obtains tcb where "tcb_at s (waiter_hart w) w = Some tcb"
  using assms by (auto simp: mutex_ok_def first_waiter_Some)

lemma mutex_highest_waiter_run:
  "kinv L s \<Longrightarrow> mutex_ok s m \<Longrightarrow>
     highest_waiter (waiters_bitmap m) s = (s, Ok (first_waiter (waiters_bitmap m)))"
  by (rule highest_waiter_run) (auto simp: mutex_ok_def)

lemma hand_mutex_safe:
  assumes g: "guarded e sl (taken (hart_id e)) s"
    and m: "mutex_ok s m" "owner_task_idx m \<noteq> None" "unat idx < 8"
  shows "wp (hand_mutex e idx m (first_waiter (waiters_bitmap m))) (\<lambda>_. guarded e sl spinlock_new) E s"
proof (cases "first_waiter (waiters_bitmap m)")
  case None
  have "guarded e sl (taken (hart_id e)) (s\<lparr>mutexes := (mutexes s)[unat idx := Some
      (m\<lparr>locked := False, owner_task_idx := None\<rparr>)]\<rparr>)"
    by (intro guarded_put_mutex g m(3) mutex_ok_freed m(1))
  then show ?thesis
    using None g by (simp add: hand_mutex_def kvc guarded_def)
next
  case (Some w)
  have k: "kinv (stacks e) s" using g by (simp add: guarded_def)
  obtain tcb where t: "tcb_at s (waiter_hart w) w = Some tcb" using mutex_ok_waiter [OF m(1) Some] .
  have w: "w < 32" by (rule tcb_at_less [OF k _ t]) simp
  let ?b = "waiters_bitmap m AND NOT (push_bit w 1)"
  have m': "m\<lparr>owner_task_idx := x, waiters_bitmap := b\<rparr> =
      m\<lparr>locked := True, owner_task_idx := x, waiters_bitmap := b\<rparr>" for x b
    using m(1,2) by (simp add: mutex_ok_def)
  let ?s1 = "s\<lparr>mutexes := (mutexes s)[unat idx := Some
      (m\<lparr>owner_task_idx := Some (of_nat w), waiters_bitmap := ?b\<rparr>)]\<rparr>"
  have g1: "guarded e sl (taken (hart_id e)) ?s1"
    unfolding m' by (intro guarded_put_mutex g m(3) mutex_ok_owned(2) m(1) w) (use t in simp)
  have g2: "guarded e sl (taken (hart_id e)) (upd_tcb (waiter_hart w) w (set_state Ready) ?s1)"
    by (rule guarded_upd_tcb [OF g1]) simp_all
  have len: "waiter_hart w < length (schedulers ?s1)" using kinvD(1) [OF k, of 0] by simp
  have t1: "tcb_at ?s1 (waiter_hart w) w = Some tcb" using t by (simp add: tcb_at_def)
  show ?thesis
    using g2 len t1 Some g unfolding hand_mutex_def option.case kvc
    by (auto simp: kvc guarded_def simp del: push_bit_of_1)
qed

lemma unlock_mutex_safe:
  assumes g: "guarded e sl (taken (hart_id e)) s" and h: "hart_id e < 2"
    and m: "slot (mutexes s) (unat idx) = Some m" "unat idx < 8"
  shows "wp (unlock_mutex e running sp idx m) (\<lambda>_. guarded e sl spinlock_new)
    (\<lambda>p _. p = AssertFailed \<and> owner_task_idx m \<noteq> Some (of_nat running)) s"
proof -
  have k: "kinv (stacks e) s" using g by (simp add: guarded_def)
  have ok: "mutex_ok s m" by (rule kinvD(7) [OF k h m(1)])
  have *: "wp (hand_mutex e idx m (first_waiter (waiters_bitmap m)))
     (\<lambda>_. wp (switch_task e sp False) (\<lambda>_. guarded e sl spinlock_new) E) E s"
    if "owner_task_idx m = Some (of_nat running)" for E
    by (rule wp_mono [OF hand_mutex_safe [OF g ok _ m(2)]])
      (use that h in \<open>auto intro: guarded_switch\<close>)
  show ?thesis
    unfolding unlock_mutex_def kvc
    by (simp add: kvc wp_def [of "highest_waiter _"] mutex_highest_waiter_run [OF k ok] *)
qed

lemma sys_unlock_safe:
  assumes k: "kinv (stacks e) s" "locks_ok (hart_id e) s" and h: "hart_id e < 2"
  shows "wp (sys_unlock e sp) (\<lambda>_. settled (stacks e) s)
    (\<lambda>p _. p = AssertFailed \<and> foreign_unlock e sp s) s"
  unfolding sys_unlock_def Let_def wp_kbind [of "frame_read sp 6"] access_wp
proof (rule mutex_call_safe [OF k h])
  let ?cap = "read_frame (ram s) sp 6" and ?E = "\<lambda>p _. p = AssertFailed \<and> foreign_unlock e sp s"
  fix s1 r tcb sl
  assume g: "guarded e sl (taken (hart_id e)) s1" and r: "r < 32"
    "r = current_partition_idx (schedulers s ! hart_id e)" "mutexes s1 = mutexes s"
    and t: "tcb_at s1 (hart_id e) r = Some tcb" "tcb_at s (hart_id e) r = Some tcb"
  have act: "wp (unlock_mutex e r sp idx m) (\<lambda>_. guarded e sl spinlock_new) ?E s1"
    if "?cap < 8" "unlock_cap (capabilities tcb ! unat ?cap) = Some idx" "unat idx < 8"
      "slot (mutexes s1) (unat idx) = Some m" for idx m
    by (rule wp_mono [OF unlock_mutex_safe [OF g h that(4,3), of r sp]])
      (use that r t(2) in \<open>auto simp: foreign_unlock_def\<close>)
  have "wp (with_mutex unlock_cap (hart_id e) r ?cap sp (unlock_mutex e r sp))
    (\<lambda>_. guarded e sl spinlock_new) ?E s1"
    by (rule with_mutex_wp [OF _ h t(1)]) (use g act in \<open>auto simp: guarded_def\<close>)
  then show "wp (kbind (with_mutex unlock_cap (hart_id e) r ?cap sp (unlock_mutex e r sp))
     (unlock_result sp)) (\<lambda>_. guarded e sl spinlock_new) ?E s1"
    unfolding wp_kbind by (rule wp_mono) (auto simp: unlock_result_def kvc split: prod.split)
qed

text \<open>The effect of the recovery on one mutex, as a function.\<close>

definition recovered :: "nat \<Rightarrow> nat \<Rightarrow> kernel \<Rightarrow> kernel" where
  "recovered task k s =
     (case slot (mutexes s) k of
        None \<Rightarrow> s
      | Some m \<Rightarrow>
          if owner_task_idx m = Some (of_nat task) then
            (case first_waiter (waiters_bitmap m) of
               None \<Rightarrow> s\<lparr>mutexes := (mutexes s)[k := Some (m\<lparr>locked := False, owner_task_idx := None\<rparr>)]\<rparr>
             | Some w \<Rightarrow>
                 upd_tcb (waiter_hart w) w (set_state Ready)
                   (s\<lparr>mutexes := (mutexes s)[k := Some (m\<lparr>locked := True, owner_task_idx := Some (of_nat w),
                        waiters_bitmap := waiters_bitmap m AND NOT (push_bit w 1)\<rparr>)]\<rparr>))
          else s)"

lemma recovered_kinv:
  assumes k: "kinv L s" and i: "i < 8"
  shows "kinv L (recovered task i s)"
proof (cases "slot (mutexes s) i")
  case (Some m)
  have ok: "mutex_ok s m" using kinvD(7) [OF k, of 0] Some by simp
  show ?thesis
  proof (cases "first_waiter (waiters_bitmap m)")
    case None
    then show ?thesis
      using k Some i kinv_mutexes [OF k mutex_ok_freed [OF ok] i] by (simp add: recovered_def)
  next
    case (Some w)
    obtain tcb where t: "tcb_at s (waiter_hart w) w = Some tcb" using mutex_ok_waiter [OF ok Some] .
    have "w < 32" by (rule tcb_at_less [OF k _ t]) simp
    then have "mutex_ok s (m\<lparr>locked := True, owner_task_idx := Some (of_nat w),
        waiters_bitmap := waiters_bitmap m AND NOT (push_bit w 1)\<rparr>)"
      using mutex_ok_owned(2) [OF ok] t by simp
    from kinv_upd_tcb [OF kinv_mutexes [OF k this i] waiter_hart_less]
    show ?thesis using k Some \<open>slot (mutexes s) i = Some m\<close> by (simp add: recovered_def)
  qed
qed (use k in \<open>simp add: recovered_def\<close>)

lemma recovered_locks [simp]:
  "sched_lock (recovered task k s) = sched_lock s" "mutex_lock (recovered task k s) = mutex_lock s"
  "ram (recovered task k s) = ram s" "trace (recovered task k s) = trace s"
  "tick_count (recovered task k s) = tick_count s" "msip (recovered task k s) = msip s"
  "pmp (recovered task k s) = pmp s"
  "last_checkin_tick (recovered task k s) = last_checkin_tick s"
  "length (mutexes (recovered task k s)) = length (mutexes s)"
  "length (schedulers (recovered task k s)) = length (schedulers s)"
  "current_partition_idx (schedulers (recovered task k s) ! h)
     = current_partition_idx (schedulers s ! h)"
  by (simp_all add: recovered_def split: option.split)

lemma recover_mutex_run:
  assumes k: "kinv L s" and i: "i < 8"
  shows "recover_mutex task i s = (recovered task i s, Ok ())"
proof -
  have peek: "peek_mutex i s = (s, Ok (slot (mutexes s) i))"
    using kinvD(2) [OF k, of 0] i by (simp add: peek_mutex_def kdefs slot_nth)
  show ?thesis
  proof (cases "slot (mutexes s) i")
    case (Some m)
    have ok: "mutex_ok s m" using kinvD(7) [OF k, of 0] Some by simp
    let ?s1 = "s\<lparr>mutexes := (mutexes s)[i := Some (m\<lparr>locked := False, owner_task_idx := None\<rparr>)]\<rparr>"
    have ok1: "mutex_ok ?s1 m" using ok mutex_ok_cong [of ?s1 s m] by (simp add: tcb_at_def)
    have run: "highest_waiter (waiters_bitmap m) ?s1 = (?s1, Ok (first_waiter (waiters_bitmap m)))"
      by (rule mutex_highest_waiter_run [OF kinv_mutexes [OF k mutex_ok_freed [OF ok] i] ok1])
    show ?thesis
    proof (cases "first_waiter (waiters_bitmap m)")
      case None
      then show ?thesis using peek run Some
        by (simp add: recover_mutex_def recovered_def kdefs Let_def put_mutex_def)
    next
      case (Some w)
      obtain tcb where t: "tcb_at s (waiter_hart w) w = Some tcb" using mutex_ok_waiter [OF ok Some] .
      have w: "w < 32" by (rule tcb_at_less [OF k _ t]) simp
      have "peek_tcb (waiter_hart w) w (s\<lparr>mutexes := ms\<rparr>) = (s\<lparr>mutexes := ms\<rparr>, Ok (Some tcb))" for ms
        using t w kinv_table_length [OF k waiter_hart_less, of w] kinvD(1) [OF k, of 0]
        by (simp add: peek_tcb_def sched_of_def kdefs tcb_at_def slot_nth)
      then show ?thesis using peek run Some \<open>slot (mutexes s) i = Some m\<close>
        by (simp add: recover_mutex_def recovered_def kdefs Let_def put_mutex_def set_task_state_def)
    qed
  qed (use peek in \<open>simp add: recover_mutex_def recovered_def kdefs\<close>)
qed

lemma recover_loop_run:
  assumes "kinv L s" "\<forall>i\<in>set is. i < 8"
  shows "kforeach is (recover_mutex task) s = (fold (recovered task) is s, Ok ())
     \<and> kinv L (fold (recovered task) is s)"
  using assms
  by (induction "is" arbitrary: s)
    (auto simp: kret_def kseq_def kbind_eval recover_mutex_run recovered_kinv)

definition recovered_all :: "nat \<Rightarrow> kernel \<Rightarrow> kernel" where
  "recovered_all task = fold (recovered task) [0..<8]"

lemma fold_recovered_fields:
  "sched_lock (fold (recovered task) ks s) = sched_lock s"
  "mutex_lock (fold (recovered task) ks s) = mutex_lock s" "ram (fold (recovered task) ks s) = ram s"
  "trace (fold (recovered task) ks s) = trace s" "msip (fold (recovered task) ks s) = msip s"
  "tick_count (fold (recovered task) ks s) = tick_count s"
  "length (schedulers (fold (recovered task) ks s)) = length (schedulers s)"
  "current_partition_idx (schedulers (fold (recovered task) ks s) ! h)
     = current_partition_idx (schedulers s ! h)"
  by (induction ks arbitrary: s) simp_all

lemmas recovered_all_fields [simp] = fold_recovered_fields [where ks = "[0..<8]", folded recovered_all_def]

lemma recovered_lock_commute:
  "recovered task k (s\<lparr>mutex_lock := l\<rparr>) = recovered task k s\<lparr>mutex_lock := l\<rparr>"
  by (simp add: recovered_def upd_tcb_def upd_sched_def split: option.split)

lemma recovered_all_lock:
  "fold (recovered task) is (s\<lparr>mutex_lock := l\<rparr>) = fold (recovered task) is s\<lparr>mutex_lock := l\<rparr>"
  by (induction "is" arbitrary: s) (simp_all add: recovered_lock_commute)

lemma recover_mutexes_run:
  assumes k: "kinv (stacks e) s" and l: "mutex_lock s = spinlock_new" and h: "hart_id e < 2"
  shows "recover_mutexes e task s = (recovered_all task s, Ok ())" "kinv (stacks e) (recovered_all task s)"
proof -
  let ?s1 = "s\<lparr>mutex_lock := taken (hart_id e)\<rparr>"
  have n: "length (mutexes s) = 8" using kinvD(2) [OF k, of 0] by simp
  have "kforeach [0..<8] (recover_mutex task) ?s1 = (fold (recovered task) [0..<8] ?s1, Ok ())"
    using recover_loop_run [of "stacks e" ?s1 "[0..<8]"] k by simp
  moreover have "fold (recovered task) [0..<8] s\<lparr>mutex_lock := spinlock_new\<rparr> = fold (recovered task) [0..<8] s"
    using l fold_recovered_fields(2) [of task "[0..<8]" s] by simp
  ultimately show "recover_mutexes e task s = (recovered_all task s, Ok ())"
    using h n l
    by (simp add: recover_mutexes_def kdefs mutex_acquire_def mutex_release_def zoom_def spin_lock_free
        spin_unlock_taken recovered_all_lock recovered_all_def)
  show "kinv (stacks e) (recovered_all task s)"
    using recover_loop_run [OF k, of "[0..<8]"] by (simp add: recovered_all_def)
qed

lemma recover_mutexes_safe:
  assumes g: "guarded e sl spinlock_new s" and h: "hart_id e < 2"
  shows "wp (recover_mutexes e task) (\<lambda>_. guarded e sl spinlock_new) E s"
  using recover_mutexes_run [of e s task] g h by (simp add: guarded_def wp_def)

end
