(* ===== verification/Kernel_Ipc.thy ===== *)
theory Kernel_Ipc
  imports Kernel_Mutex
begin

text \<open>
  Synchronous message passing (system calls 6 and 7 of \<^verbatim>\<open>kernel/src/trap.rs\<close>): a sender and a
  receiver of the same endpoint meet; whoever comes first blocks, the second one moves the bytes.
\<close>

section \<open>Operations\<close>

fun send_cap :: "Capability \<Rightarrow> u8 option" where
  "send_cap (Ipc ep True _) = Some ep"
| "send_cap _ = None"

fun recv_cap :: "Capability \<Rightarrow> u8 option" where
  "recv_cap (Ipc ep _ True) = Some ep"
| "recv_cap _ = None"

text \<open>What a blocked party left behind: endpoint, address, length.\<close>

fun recv_wait :: "TaskState \<Rightarrow> (u8 \<times> usize \<times> usize) option" where
  "recv_wait (BlockedOnIpcRecv ep buf_addr max_len) = Some (ep, buf_addr, max_len)"
| "recv_wait _ = None"

fun send_wait :: "TaskState \<Rightarrow> (u8 \<times> usize \<times> usize) option" where
  "send_wait (BlockedOnIpcSend ep msg_addr msg_len) = Some (ep, msg_addr, msg_len)"
| "send_wait _ = None"

text \<open>The search over both cores: the first task, core 0 before core 1 and low slots first, that
  waits on the endpoint.\<close>

definition waits_for :: "(TaskState \<Rightarrow> (u8 \<times> usize \<times> usize) option) \<Rightarrow> u8 \<Rightarrow>
    TaskControlBlock option \<Rightarrow> bool" where
  "waits_for wait ep other_tcb =
     (case other_tcb of
        None \<Rightarrow> False
      | Some tcb \<Rightarrow> (case wait (task_state tcb) of None \<Rightarrow> False | Some (ep', _) \<Rightarrow> ep' = ep))"

definition find_partner :: "(TaskState \<Rightarrow> (u8 \<times> usize \<times> usize) option) \<Rightarrow> u8 \<Rightarrow>
    (kernel, (nat \<times> nat) option) km" where
  "find_partner wait ep = kgets (\<lambda>s.
     find (\<lambda>(h, i). waits_for wait ep (tcb_at s h i))
       (List.product [0..<2] [0..<MAX_PARTITIONS]))"

definition copy_message :: "usize \<Rightarrow> usize \<Rightarrow> usize \<Rightarrow> (kernel, unit) km" where
  "copy_message src dst n = kmodify (\<lambda>s. s\<lparr>ram := copy_bytes (ram s) src dst n\<rparr>)"

definition notify_core :: "trap_env \<Rightarrow> nat \<Rightarrow> (kernel, unit) km" where
  "notify_core e other = (if other \<noteq> hart_id e then write_msip other 1 else kret ())"

text \<open>The rendezvous, seen from the sender and from the receiver.\<close>

definition deliver_to_receiver ::
    "trap_env \<Rightarrow> usize \<Rightarrow> u8 \<Rightarrow> usize \<Rightarrow> usize \<Rightarrow> nat \<times> nat \<Rightarrow> (kernel, unit) km" where
  "deliver_to_receiver e user_sp ep msg_addr msg_len = (\<lambda>(rx_hart, rx_idx).
     kbind (get_tcb rx_hart rx_idx) (\<lambda>receiver_tcb.
       case recv_wait (task_state receiver_tcb) of
         None \<Rightarrow> kret ()
       | Some (_, buf_addr, max_len) \<Rightarrow>
           (let transfer_len = min msg_len max_len in
            kseq (copy_message msg_addr buf_addr transfer_len)
           (kseq (set_task_state rx_hart rx_idx Ready)
           (kseq (frame_write (saved_sp receiver_tcb) 6 transfer_len)
           (kseq (frame_write user_sp 6 0)
           (kseq (log_telemetry (IpcTransfer ep (ucast transfer_len)))
                 (notify_core e rx_hart))))))))"

definition collect_from_sender ::
    "trap_env \<Rightarrow> usize \<Rightarrow> u8 \<Rightarrow> usize \<Rightarrow> usize \<Rightarrow> nat \<times> nat \<Rightarrow> (kernel, unit) km" where
  "collect_from_sender e user_sp ep buf_addr max_len = (\<lambda>(tx_hart, tx_idx).
     kbind (get_tcb tx_hart tx_idx) (\<lambda>sender_tcb.
       case send_wait (task_state sender_tcb) of
         None \<Rightarrow> kret ()
       | Some (_, msg_addr, msg_len) \<Rightarrow>
           (let transfer_len = min msg_len max_len in
            kseq (copy_message msg_addr buf_addr transfer_len)
           (kseq (set_task_state tx_hart tx_idx Ready)
           (kseq (frame_write (saved_sp sender_tcb) 6 0)
           (kseq (frame_write user_sp 6 transfer_len)
           (kseq (log_telemetry (IpcTransfer ep (ucast transfer_len)))
                 (notify_core e tx_hart))))))))"

text \<open>Blocking the caller and giving up the hart.\<close>

definition block_and_switch :: "trap_env \<Rightarrow> nat \<Rightarrow> TaskState \<Rightarrow> usize \<Rightarrow> (kernel, usize) km" where
  "block_and_switch e running st current_sp =
     kbind (get_tcb (hart_id e) running) (\<lambda>_.
     kseq (set_task_state (hart_id e) running st)
          (switch_task e current_sp False))"

text \<open>The capability check that both calls share.\<close>

definition with_endpoint :: "(Capability \<Rightarrow> u8 option) \<Rightarrow> nat \<Rightarrow> nat \<Rightarrow> usize \<Rightarrow> usize \<Rightarrow>
    (u8 \<Rightarrow> (kernel, usize) km) \<Rightarrow> (kernel, usize) km" where
  "with_endpoint pattern h running cap_idx user_sp action =
     (let refuse = kseq (frame_write user_sp 6 (-1)) (kret user_sp) in
      if cap_idx < 8 then
        kbind (running_cap h running cap_idx) (\<lambda>cap.
          case pattern cap of
            None \<Rightarrow> refuse
          | Some ep \<Rightarrow> action ep)
      else refuse)"

definition sys_send :: "trap_env \<Rightarrow> usize \<Rightarrow> (kernel, usize) km" where
  "sys_send e user_sp =
     (let h = hart_id e in
      kbind (frame_read user_sp 6) (\<lambda>cap_idx.
      kbind (frame_read user_sp 7) (\<lambda>msg_addr.
      kbind (frame_read user_sp 8) (\<lambda>msg_len.
      sched_guard h (
        kbind (running_idx h) (\<lambda>running.
        with_endpoint send_cap h running cap_idx user_sp (\<lambda>ep.
          kbind (find_partner recv_wait ep) (\<lambda>found_receiver.
            case found_receiver of
              Some rx \<Rightarrow>
                kseq (deliver_to_receiver e user_sp ep msg_addr msg_len rx) (kret user_sp)
            | None \<Rightarrow>
                block_and_switch e running (BlockedOnIpcSend ep msg_addr msg_len) user_sp))))))))"

definition sys_recv :: "trap_env \<Rightarrow> usize \<Rightarrow> (kernel, usize) km" where
  "sys_recv e user_sp =
     (let h = hart_id e in
      kbind (frame_read user_sp 6) (\<lambda>cap_idx.
      kbind (frame_read user_sp 7) (\<lambda>buf_addr.
      kbind (frame_read user_sp 8) (\<lambda>max_len.
      sched_guard h (
        kbind (running_idx h) (\<lambda>running.
        with_endpoint recv_cap h running cap_idx user_sp (\<lambda>ep.
          kbind (find_partner send_wait ep) (\<lambda>found_sender.
            case found_sender of
              Some tx \<Rightarrow>
                kseq (collect_from_sender e user_sp ep buf_addr max_len tx) (kret user_sp)
            | None \<Rightarrow>
                block_and_switch e running (BlockedOnIpcRecv ep buf_addr max_len) user_sp))))))))"

section \<open>Safety\<close>

lemma ipc_wp [kvc]:
  "wp (copy_message src dst n) Q E s = Q () (s\<lparr>ram := copy_bytes (ram s) src dst n\<rparr>)"
  by (simp add: copy_message_def kvc)

lemma notify_wp [kvc]:
  "wp (notify_core e h) Q E s =
     Q () (if h \<noteq> hart_id e then s\<lparr>msip := (msip s)(h := 1)\<rparr> else s)"
  by (simp add: notify_core_def kvc)

lemma find_partner_run: "find_partner wait ep s = (s, Ok (find (\<lambda>(h, i). waits_for wait ep (tcb_at s h i))
   (List.product [0..<2] [0..<MAX_PARTITIONS])))"
  by (simp add: find_partner_def kgets_def)

lemma partner_found:
  assumes "find (\<lambda>(h, i). waits_for wait ep (tcb_at s h i)) (List.product [0..<2] [0..<n]) = Some (h, i)"
  obtains tcb where "h < 2" "i < n" "tcb_at s h i = Some tcb"
    "\<exists>a n. wait (task_state tcb) = Some (ep, a, n)"
proof -
  from assms have "waits_for wait ep (tcb_at s h i)" "(h, i) \<in> set (List.product [0..<2] [0..<n])"
    by (auto elim: find_SomeE)
  then show thesis
    using that by (auto simp: waits_for_def split: option.splits)
qed

lemma with_endpoint_wp:
  assumes k: "kinv L s" and h: "h < 2" and t: "tcb_at s h running = Some tcb"
    and no: "Q sp (s\<lparr>ram := write_frame (ram s) sp 6 (-1)\<rparr>)"
    and yes: "\<And>ep. cap_idx < 8 \<Longrightarrow> pattern (capabilities tcb ! unat cap_idx) = Some ep \<Longrightarrow>
      wp (action ep) Q E s"
  shows "wp (with_endpoint pattern h running cap_idx sp action) Q E s"
  using no yes
  by (auto simp: with_endpoint_def Let_def kvc split: option.split intro!: running_cap_wp [OF k h t])

lemma rendezvous_safe:
  assumes g: "guarded e sl ml s" and rx: "rh < 2" "tcb_at s rh ri = Some tcb"
  shows "wp (deliver_to_receiver e sp ep addr len (rh, ri)) (\<lambda>_. guarded e sl ml) E s"
    and "wp (collect_from_sender e sp ep addr len (rh, ri)) (\<lambda>_. guarded e sl ml) E s"
proof -
  have len: "rh < length (schedulers s)" using kinvD(1) [of "stacks e" s 0] g rx(1) by (simp add: guarded_def)
  have g': "guarded e sl ml (upd_tcb rh ri (set_state Ready) (s\<lparr>ram := m\<rparr>))" for m
    by (rule guarded_upd_tcb) (use g rx in simp_all)
  show "wp (deliver_to_receiver e sp ep addr len (rh, ri)) (\<lambda>_. guarded e sl ml) E s"
    using g g' len rx(2) by (auto simp: deliver_to_receiver_def Let_def kvc split: option.split)
  show "wp (collect_from_sender e sp ep addr len (rh, ri)) (\<lambda>_. guarded e sl ml) E s"
    using g g' len rx(2) by (auto simp: collect_from_sender_def Let_def kvc split: option.split)
qed

lemma block_and_switch_safe:
  assumes g: "guarded e sl ml s" and h: "hart_id e < 2" and t: "tcb_at s (hart_id e) running = Some tcb"
    and st: "st \<noteq> Running"
  shows "wp (block_and_switch e running st sp) (\<lambda>_. guarded e sl ml) E s"
proof -
  have len: "hart_id e < length (schedulers s)"
    using kinvD(1) [of "stacks e" s 0] g h by (simp add: guarded_def)
  have "guarded e sl ml (upd_tcb (hart_id e) running (set_state st) s)"
    by (rule guarded_upd_tcb [OF g h]) (use st in simp)
  then show ?thesis
    using t len h by (auto simp: block_and_switch_def kvc intro: guarded_switch)
qed

text \<open>The frame of the calls that take \<^verbatim>\<open>SCHED_LOCK\<close> only.\<close>

lemma guarded_call_safe:
  assumes k: "kinv (stacks e) s" "locks_ok (hart_id e) s" and h: "hart_id e < 2"
    and body: "\<And>s1 running tcb sl. guarded e sl spinlock_new s1 \<Longrightarrow> running < 32 \<Longrightarrow>
      running = current_partition_idx (schedulers s1 ! hart_id e) \<Longrightarrow>
      tcb_at s1 (hart_id e) running = Some tcb \<Longrightarrow>
      wp (body running) (\<lambda>_. guarded e sl spinlock_new) E s1"
  shows "wp (sched_guard (hart_id e) (kbind (running_idx (hart_id e)) body))
    (\<lambda>_. settled (stacks e) s) E s"
proof (rule sched_guard_safe [OF k h])
  fix s0 sl assume g: "guarded e sl spinlock_new s0"
  let ?h = "hart_id e" and ?r = "current_partition_idx (schedulers s0 ! hart_id e)"
  from g have k0: "kinv (stacks e) s0" by (auto simp: guarded_def)
  have len: "?h < length (schedulers s0)" using kinvD(1) [OF k0 h] h by simp
  obtain tcb where t: "tcb_at s0 ?h ?r = Some tcb" using kinv_current [OF k0 h] by blast
  have "wp (body ?r) (\<lambda>_. guarded e sl spinlock_new) E s0"
    by (rule body [OF g tcb_at_less [OF k0 h t] refl t])
  then show "wp (kbind (running_idx ?h) body) (\<lambda>_. guarded e sl spinlock_new) E s0"
    using len by (simp add: kvc)
qed

lemma ipc_call_safe:
  assumes k: "kinv (stacks e) s" "locks_ok (hart_id e) s" and h: "hart_id e < 2"
    and meet: "\<And>s ep p tcb sl. guarded e sl spinlock_new s \<Longrightarrow> fst p < 2 \<Longrightarrow> tcb_at s (fst p) (snd p) = Some tcb \<Longrightarrow>
      wp (meet ep p) (\<lambda>_. guarded e sl spinlock_new) E s"
    and st: "\<And>ep. st ep \<noteq> Running"
  shows "wp (sched_guard (hart_id e) (kbind (running_idx (hart_id e)) (\<lambda>running.
      with_endpoint pattern (hart_id e) running cap_idx sp (\<lambda>ep.
        kbind (find_partner wait ep) (\<lambda>found. case found of
            Some p \<Rightarrow> kseq (meet ep p) (kret sp)
          | None \<Rightarrow> block_and_switch e running (st ep) sp)))))
    (\<lambda>_. settled (stacks e) s) E s"
proof (rule guarded_call_safe [OF k h])
  fix s1 r tcb sl
  assume g: "guarded e sl spinlock_new s1" and t: "tcb_at s1 (hart_id e) r = Some tcb"
  then have k1: "kinv (stacks e) s1" by (simp add: guarded_def)
  show "wp (with_endpoint pattern (hart_id e) r cap_idx sp (\<lambda>ep.
        kbind (find_partner wait ep) (\<lambda>found. case found of
            Some p \<Rightarrow> kseq (meet ep p) (kret sp)
          | None \<Rightarrow> block_and_switch e r (st ep) sp))) (\<lambda>_. guarded e sl spinlock_new) E s1"
  proof (rule with_endpoint_wp [OF k1 h t])
    fix ep
    let ?f = "find (\<lambda>(h, i). waits_for wait ep (tcb_at s1 h i)) (List.product [0..<2] [0..<MAX_PARTITIONS])"
    show "wp (kbind (find_partner wait ep) (\<lambda>found. case found of
            Some p \<Rightarrow> kseq (meet ep p) (kret sp)
          | None \<Rightarrow> block_and_switch e r (st ep) sp)) (\<lambda>_. guarded e sl spinlock_new) E s1"
    proof (cases ?f)
      case None
      then show ?thesis using block_and_switch_safe [OF g h t st]
        by (simp add: kvc wp_def [of "find_partner _ _"] find_partner_run)
    next
      case (Some p)
      obtain rt where "fst p < 2" "tcb_at s1 (fst p) (snd p) = Some rt"
        using partner_found [of wait ep s1 MAX_PARTITIONS "fst p" "snd p"] Some by auto
      from meet [OF g this] Some show ?thesis
        by (simp add: kvc wp_def [of "find_partner _ _"] find_partner_run)
    qed
  qed (use g in simp)
qed

lemma sys_send_safe:
  assumes "kinv (stacks e) s" "locks_ok (hart_id e) s" "hart_id e < 2"
  shows "wp (sys_send e sp) (\<lambda>_. settled (stacks e) s) E s"
  unfolding sys_send_def Let_def wp_kbind [of "frame_read _ _"] access_wp
  by (rule ipc_call_safe [OF assms]) (auto intro: rendezvous_safe)

lemma sys_recv_safe:
  assumes "kinv (stacks e) s" "locks_ok (hart_id e) s" "hart_id e < 2"
  shows "wp (sys_recv e sp) (\<lambda>_. settled (stacks e) s) E s"
  unfolding sys_recv_def Let_def wp_kbind [of "frame_read _ _"] access_wp
  by (rule ipc_call_safe [OF assms]) (auto intro: rendezvous_safe)

end
