(* ===== verification/Trap.thy ===== *)
theory Trap
  imports Kernel_Ipc
begin

text \<open>
  The trap handler (\<^verbatim>\<open>kernel/src/trap.rs\<close>): the timer and software interrupts, the dispatch of
  the eight system calls, the emulation of cycle-counter reads, and the containment of faults. The
  result is the stack pointer of the task that runs next. What the handler logs as text is left out.
\<close>

section \<open>Interrupts\<close>

fun sleeping_until :: "TaskState \<Rightarrow> u32 option" where
  "sleeping_until (Blocked wake_tick) = Some wake_tick"
| "sleeping_until _ = None"

definition wake_task :: "nat \<Rightarrow> u32 \<Rightarrow> nat \<Rightarrow> (kernel, unit) km" where
  "wake_task h tick i =
     kbind (peek_tcb h i) (\<lambda>entry.
       case entry of
         None \<Rightarrow> kret ()
       | Some tcb \<Rightarrow>
           (case sleeping_until (task_state tcb) of
              None \<Rightarrow> kret ()
            | Some wake_tick \<Rightarrow>
                if wake_tick \<le> tick then set_task_state h i Ready else kret ()))"

definition wake_sleepers :: "nat \<Rightarrow> u32 \<Rightarrow> (kernel, unit) km" where
  "wake_sleepers h tick = kforeach [0..<MAX_PARTITIONS] (wake_task h tick)"

definition on_timer :: "trap_env \<Rightarrow> usize \<Rightarrow> (kernel, usize) km" where
  "on_timer e user_sp =
     (let h = hart_id e in
      kseq (kmodify (\<lambda>s. s\<lparr>tick_count := tick_count s + 1\<rparr>))
     (kbind (kgets tick_count) (\<lambda>tick.
      kseq (kmodify (\<lambda>s. s\<lparr>mtimecmp := (mtimecmp s)(h := mtime e + 40000)\<rparr>))
     (sched_guard h (
        kseq (wake_sleepers h tick)
             (switch_task e user_sp True))))))"

definition on_software :: "trap_env \<Rightarrow> usize \<Rightarrow> (kernel, usize) km" where
  "on_software e user_sp =
     kseq (write_msip (hart_id e) 0)
          (sched_guard (hart_id e) (switch_task e user_sp False))"

section \<open>The other system calls\<close>

definition sys_yield :: "trap_env \<Rightarrow> usize \<Rightarrow> (kernel, usize) km" where
  "sys_yield e user_sp = sched_guard (hart_id e) (switch_task e user_sp False)"

definition sys_sleep :: "trap_env \<Rightarrow> usize \<Rightarrow> (kernel, usize) km" where
  "sys_sleep e user_sp =
     (let h = hart_id e in
      kbind (frame_read user_sp 6) (\<lambda>ticks.
      sched_guard h (
        kbind (running_idx h) (\<lambda>running.
        kbind (kgets tick_count) (\<lambda>current_tick.
        kbind (get_tcb h running) (\<lambda>_.
        kseq (set_task_state h running (Blocked (current_tick + ticks)))
             (switch_task e user_sp False)))))))"

definition sys_checkin :: "trap_env \<Rightarrow> usize \<Rightarrow> (kernel, usize) km" where
  "sys_checkin e user_sp =
     sched_guard (hart_id e) (
       kbind (running_idx (hart_id e)) (\<lambda>running.
       kbind (kgets tick_count) (\<lambda>current_tick.
       kbind (kgets last_checkin_tick) (\<lambda>ticks.
       kbind (kindex ticks running) (\<lambda>_.
       kseq (kmodify (\<lambda>s. s\<lparr>last_checkin_tick := (last_checkin_tick s)[running := current_tick]\<rparr>))
            (kret user_sp))))))"

text \<open>The task to terminate: slot \<open>target\<close> of core 0 if it is registered, of core 1 otherwise.
  The result is the core it was found on.\<close>

definition terminate_target :: "usize \<Rightarrow> (kernel, nat option) km" where
  "terminate_target target_prio =
     (if target_prio < 32 then
        kbind (peek_tcb 0 (unat target_prio)) (\<lambda>entry0.
          case entry0 of
            Some _ \<Rightarrow> kseq (set_task_state 0 (unat target_prio) Terminated) (kret (Some 0))
          | None \<Rightarrow>
              kbind (peek_tcb 1 (unat target_prio)) (\<lambda>entry1.
                case entry1 of
                  Some _ \<Rightarrow> kseq (set_task_state 1 (unat target_prio) Terminated) (kret (Some 1))
                | None \<Rightarrow> kret None))
      else kret None)"

definition sys_terminate :: "trap_env \<Rightarrow> usize \<Rightarrow> (kernel, usize) km" where
  "sys_terminate e user_sp =
     (let h = hart_id e in
      kbind (frame_read user_sp 6) (\<lambda>target_prio.
      sched_guard h (
        kbind (terminate_target target_prio) (\<lambda>found.
          case found of
            None \<Rightarrow> kseq (frame_write user_sp 6 (-1)) (kret user_sp)
          | Some found_hart \<Rightarrow>
              kseq (recover_mutexes e (unat target_prio))
             (kseq (frame_write user_sp 6 0)
                   (if found_hart \<noteq> h then kseq (write_msip found_hart 1) (kret user_sp)
                    else
                      kbind (running_idx h) (\<lambda>active_idx.
                        if unat target_prio = active_idx then switch_task e user_sp False
                        else kret user_sp)))))))"

definition syscall :: "trap_env \<Rightarrow> usize \<Rightarrow> (kernel, usize) km" where
  "syscall e user_sp =
     kbind (frame_read user_sp 13) (\<lambda>syscall_id.
     kbind (frame_read user_sp 28) (\<lambda>mepc.
     kseq (frame_write user_sp 28 (mepc + 4))
       (if syscall_id = 1 then sys_yield e user_sp
        else if syscall_id = 2 then sys_sleep e user_sp
        else if syscall_id = 3 then sys_lock e user_sp
        else if syscall_id = 4 then sys_unlock e user_sp
        else if syscall_id = 5 then sys_checkin e user_sp
        else if syscall_id = 6 then sys_send e user_sp
        else if syscall_id = 7 then sys_recv e user_sp
        else if syscall_id = 8 then sys_terminate e user_sp
        else kret user_sp)))"

section \<open>Faults\<close>

text \<open>A read of \<^verbatim>\<open>cycle\<close> (0xC00) or \<^verbatim>\<open>mcycle\<close> (0xB00): any SYSTEM instruction on these CSRs.\<close>

definition is_cycle_read :: "u32 \<Rightarrow> bool" where
  "is_cycle_read instruction \<longleftrightarrow>
     instruction AND 0x7F = 0x73 \<and> (drop_bit 20 instruction = 0xC00 \<or> drop_bit 20 instruction = 0xB00)"

text \<open>The table from register numbers to frame words: 1 to 0, 5 to 31 to 1 to 27.\<close>

definition csr_frame_idx :: "u32 \<Rightarrow> nat option" where
  "csr_frame_idx rd_idx =
     (if rd_idx = 1 then Some 0
      else if 5 \<le> rd_idx \<and> rd_idx \<le> 31 then Some (unat rd_idx - 4)
      else None)"

definition emulate_csr :: "trap_env \<Rightarrow> usize \<Rightarrow> u32 \<Rightarrow> u32 \<Rightarrow> (kernel, usize) km" where
  "emulate_csr e user_sp epc instruction =
     kseq (case csr_frame_idx (drop_bit 7 instruction AND 0x1F) of
             None \<Rightarrow> kret ()
           | Some idx \<Rightarrow> frame_write user_sp idx (emu_cycle e))
    (kseq (frame_write user_sp 28 (epc + 4))
          (kret user_sp))"

definition contained_causes :: "u32 list" where
  "contained_causes = [1, 2, 4, 5, 6, 7]"

definition contain_fault :: "trap_env \<Rightarrow> u32 \<Rightarrow> usize \<Rightarrow> (kernel, usize) km" where
  "contain_fault e cause user_sp =
     (let h = hart_id e in
      kbind (frame_read user_sp 28) (\<lambda>mepc.
      kseq (log_telemetry (FaultInterception cause mepc))
     (kseq (if cause \<noteq> 2 then kmodify (\<lambda>s. s\<lparr>metric_pmp_violations := metric_pmp_violations s + 1\<rparr>)
            else kret ())
     (sched_guard h (
        kbind (running_idx h) (\<lambda>running.
        kbind (peek_tcb h running) (\<lambda>entry.
        kseq (case entry of
                None \<Rightarrow> kret ()
              | Some _ \<Rightarrow>
                  kseq (set_task_state h running Terminated) (recover_mutexes e running))
             (switch_task e user_sp False))))))))"

definition on_exception :: "trap_env \<Rightarrow> u32 \<Rightarrow> usize \<Rightarrow> (kernel, usize) km" where
  "on_exception e cause user_sp =
     (let rest =
        (if cause \<in> set contained_causes then contain_fault e cause user_sp
         else kpanic (UnhandledException cause)) in
      if cause = 2 then
        kbind (frame_read user_sp 28) (\<lambda>mepc.
        kbind (kgets (\<lambda>s. read_word (ram s) mepc)) (\<lambda>instruction.
          if is_cycle_read instruction then emulate_csr e user_sp mepc instruction
          else rest))
      else rest)"

definition trap_handler :: "trap_env \<Rightarrow> usize \<Rightarrow> usize \<Rightarrow> usize \<Rightarrow> (kernel, usize) km" where
  "trap_handler e mcause user_sp start_cycle =
     kseq (kmodify (\<lambda>s. s\<lparr>metric_trap_latency := end_cycle e - start_cycle\<rparr>))
       (if mcause = push_bit 31 1 OR 7 then on_timer e user_sp
        else if mcause = push_bit 31 1 OR 3 then on_software e user_sp
        else if mcause = 8 then syscall e user_sp
        else on_exception e mcause user_sp)"

section \<open>Safety\<close>

abbreviation Safe :: "trap_env \<Rightarrow> kernel \<Rightarrow> 'a \<Rightarrow> kernel \<Rightarrow> bool" where
  "Safe e s \<equiv> (\<lambda>_. settled (stacks e) s)"

lemma locks_ok_fields [simp]:
  "locks_ok h (s\<lparr>ram := m\<rparr>) = locks_ok h s" "locks_ok h (s\<lparr>trace := tr\<rparr>) = locks_ok h s"
  "locks_ok h (s\<lparr>msip := ip\<rparr>) = locks_ok h s" "locks_ok h (s\<lparr>mtimecmp := tc\<rparr>) = locks_ok h s"
  "locks_ok h (s\<lparr>tick_count := n\<rparr>) = locks_ok h s"
  "locks_ok h (s\<lparr>metric_trap_latency := n\<rparr>) = locks_ok h s"
  "locks_ok h (s\<lparr>metric_pmp_violations := n\<rparr>) = locks_ok h s"
  by (simp_all add: locks_ok_def)

lemma settled_fields [simp]:
  "settled L (s\<lparr>ram := m\<rparr>) = settled L s" "settled L (s\<lparr>trace := tr\<rparr>) = settled L s"
  "settled L (s\<lparr>msip := ip\<rparr>) = settled L s" "settled L (s\<lparr>mtimecmp := tc\<rparr>) = settled L s"
  "settled L (s\<lparr>tick_count := n\<rparr>) = settled L s"
  "settled L (s\<lparr>metric_trap_latency := n\<rparr>) = settled L s"
  "settled L (s\<lparr>metric_pmp_violations := n\<rparr>) = settled L s"
  by (simp_all add: settled_def fun_eq_iff)

lemma peek_tcb_wp:
  "kinv L s \<Longrightarrow> h < 2 \<Longrightarrow> i < 32 \<Longrightarrow> wp (peek_tcb h i) Q E s = Q (tcb_at s h i) s"
  using kinv_table_length [of L s h] kinvD(1) [of L s h]
  by (simp add: peek_tcb_def kvc tcb_at_def slot_nth)

lemma guarded_peek_wp:
  "guarded e sl ml s \<Longrightarrow> h < 2 \<Longrightarrow> i < 32 \<Longrightarrow> wp (peek_tcb h i) Q E s = Q (tcb_at s h i) s"
  using peek_tcb_wp by (auto simp: guarded_def)

lemma guarded_length: "guarded e sl ml s \<Longrightarrow> length (schedulers s) = 2"
  using kinvD(1) [of "stacks e" s 0] by (simp add: guarded_def)

lemma wake_sleepers_safe:
  assumes "guarded e sl ml s" "h < 2"
  shows "wp (wake_sleepers h tick) (\<lambda>_. guarded e sl ml) E s"
  unfolding wake_sleepers_def
proof (rule wp_kforeach)
  fix i s assume "i \<in> set [0..<MAX_PARTITIONS]" and g: "guarded e sl ml s"
  then have "i < 32" by (simp add: MAX_PARTITIONS_def)
  then show "wp (wake_task h tick i) (\<lambda>_. guarded e sl ml) E s"
    using g assms(2) guarded_upd_tcb [OF g assms(2), of "set_state Ready" i]
    by (auto simp: wake_task_def kvc guarded_peek_wp split: option.split)
qed (rule assms(1))

lemma on_timer_safe:
  assumes "kinv (stacks e) s" "locks_ok (hart_id e) s" "hart_id e < 2"
  shows "wp (on_timer e sp) (Safe e s) E s"
proof -
  let ?s = "s\<lparr>tick_count := tick_count s + 1, mtimecmp := (mtimecmp s)(hart_id e := mtime e + 40000)\<rparr>"
  have "wp (sched_guard (hart_id e) (kseq (wake_sleepers (hart_id e) (tick_count s + 1))
      (switch_task e sp True))) (Safe e ?s) E ?s"
  proof (rule sched_guard_safe)
    fix s0 sl assume "guarded e sl spinlock_new s0"
    from wake_sleepers_safe [OF this assms(3)]
    show "wp (kseq (wake_sleepers (hart_id e) (tick_count s + 1)) (switch_task e sp True))
       (\<lambda>_. guarded e sl spinlock_new) E s0"
      unfolding wp_kseq by (rule wp_mono) (use assms(3) in \<open>auto intro: guarded_switch\<close>)
  qed (use assms in simp_all)
  then show ?thesis by (simp add: on_timer_def Let_def kvc)
qed

lemma sys_yield_safe:
  assumes "kinv (stacks e) s" "locks_ok (hart_id e) s" "hart_id e < 2"
  shows "wp (sys_yield e sp) (Safe e s) E s"
  unfolding sys_yield_def
  by (rule sched_guard_safe [OF assms]) (use assms(3) in \<open>auto intro: guarded_switch\<close>)

lemma on_software_safe:
  assumes "kinv (stacks e) s" "locks_ok (hart_id e) s" "hart_id e < 2"
  shows "wp (on_software e sp) (Safe e s) E s"
  using sys_yield_safe [of e "s\<lparr>msip := (msip s)(hart_id e := 0)\<rparr>" sp E] assms
  by (simp add: on_software_def kvc sys_yield_def)

lemma sys_sleep_safe:
  assumes "kinv (stacks e) s" "locks_ok (hart_id e) s" "hart_id e < 2"
  shows "wp (sys_sleep e sp) (Safe e s) E s"
  unfolding sys_sleep_def Let_def wp_kbind [of "frame_read _ _"] access_wp
proof (rule guarded_call_safe [OF assms])
  fix s1 r tcb ticks sl
  assume g: "guarded e sl spinlock_new s1" and t: "tcb_at s1 (hart_id e) r = Some tcb"
  from block_and_switch_safe [OF g assms(3) t, of "Blocked (tick_count s1 + ticks)" sp E]
  show "wp (kbind (kgets tick_count) (\<lambda>current_tick. kbind (get_tcb (hart_id e) r) (\<lambda>_.
      kseq (set_task_state (hart_id e) r (Blocked (current_tick + ticks)))
        (switch_task e sp False)))) (\<lambda>_. guarded e sl spinlock_new) E s1"
    by (simp add: kvc block_and_switch_def)
qed

lemma sys_checkin_safe:
  assumes "kinv (stacks e) s" "locks_ok (hart_id e) s" "hart_id e < 2"
  shows "wp (sys_checkin e sp) (Safe e s) E s"
  unfolding sys_checkin_def
proof (rule guarded_call_safe [OF assms])
  fix s1 tcb sl and r :: nat
  assume g: "guarded e sl spinlock_new s1" and r: "r < 32"
  have "length (last_checkin_tick s1) = 32"
    using kinvD(3) [of "stacks e" s1 0] g by (simp add: guarded_def)
  moreover have "guarded e sl spinlock_new (s1\<lparr>last_checkin_tick := (last_checkin_tick s1)[r := v]\<rparr>)" for v
    using g kinv_cong [of "s1\<lparr>last_checkin_tick := (last_checkin_tick s1)[r := v]\<rparr>" s1]
    by (simp add: guarded_def)
  ultimately show "wp (kbind (kgets tick_count) (\<lambda>current_tick. kbind (kgets last_checkin_tick) (\<lambda>ticks.
       kbind (kindex ticks r) (\<lambda>_.
       kseq (kmodify (\<lambda>s. s\<lparr>last_checkin_tick := (last_checkin_tick s)[r := current_tick]\<rparr>))
            (kret sp))))) (\<lambda>_. guarded e sl spinlock_new) E s1"
    using r by (simp add: kvc)
qed

lemma terminate_target_safe:
  assumes g: "guarded e sl ml s"
  shows "wp (terminate_target target) (\<lambda>_. guarded e sl ml) E s"
proof (cases "target < 32")
  case True
  then have i: "unat target < 32" by (simp add: word_less_nat_alt)
  have "guarded e sl ml (upd_tcb h' (unat target) (set_state Terminated) s)" if "h' < 2" for h'
    by (rule guarded_upd_tcb [OF g that]) simp
  then show ?thesis
    using True g guarded_peek_wp [OF g _ i] by (auto simp: terminate_target_def kvc split: option.split)
qed (use g in \<open>simp add: terminate_target_def kvc\<close>)

lemma sys_terminate_safe:
  assumes "kinv (stacks e) s" "locks_ok (hart_id e) s" "hart_id e < 2"
  shows "wp (sys_terminate e sp) (Safe e s) E s"
  unfolding sys_terminate_def Let_def wp_kbind [of "frame_read _ _"] access_wp
proof (rule sched_guard_safe [OF assms], goal_cases)
  case (1 s0 sl)
  let ?t = "read_frame (ram s) sp 6"
  have tail: "wp (kseq (recover_mutexes e (unat ?t)) (kseq (frame_write sp 6 0)
       (if fh \<noteq> hart_id e then kseq (write_msip fh 1) (kret sp)
        else kbind (running_idx (hart_id e)) (\<lambda>active_idx.
          if unat ?t = active_idx then switch_task e sp False else kret sp))))
      (\<lambda>_. guarded e sl spinlock_new) E s1" if g: "guarded e sl spinlock_new s1" for s1 fh
    unfolding wp_kseq
    by (rule wp_mono [OF recover_mutexes_safe [OF g assms(3)]])
      (use assms(3) guarded_length in \<open>auto simp: kvc intro!: guarded_switch\<close>)
  show ?case
    unfolding wp_kbind
  proof (rule wp_mono [OF terminate_target_safe [OF 1(1), of _ E]], goal_cases)
    case (1 found s1)
    then show ?case by (cases found) (use tail in \<open>simp_all add: wp_kseq [of "frame_write _ _ _"] access_wp wp_kret\<close>)
  qed simp
qed

lemma contain_fault_safe:
  assumes "kinv (stacks e) s" "locks_ok (hart_id e) s" "hart_id e < 2"
  shows "wp (contain_fault e cause sp) (Safe e s) E s"
proof -
  have *: "wp (sched_guard (hart_id e) (kbind (running_idx (hart_id e)) (\<lambda>running.
        kbind (peek_tcb (hart_id e) running) (\<lambda>entry.
        kseq (case entry of None \<Rightarrow> kret ()
              | Some _ \<Rightarrow> kseq (set_task_state (hart_id e) running Terminated) (recover_mutexes e running))
             (switch_task e sp False))))) (Safe e s1) E s1"
    if "kinv (stacks e) s1" "locks_ok (hart_id e) s1" for s1
  proof (rule guarded_call_safe [OF that assms(3)])
    fix s2 r tcb sl
    assume g: "guarded e sl spinlock_new s2" and r: "r < 32" and t: "tcb_at s2 (hart_id e) r = Some tcb"
    have "guarded e sl spinlock_new (upd_tcb (hart_id e) r (set_state Terminated) s2)"
      by (rule guarded_upd_tcb [OF g assms(3)]) simp
    from recover_mutexes_safe [OF this assms(3), of r E]
    have "wp (recover_mutexes e r) (\<lambda>_. wp (switch_task e sp False) (\<lambda>_. guarded e sl spinlock_new) E) E
        (upd_tcb (hart_id e) r (set_state Terminated) s2)"
      by (rule wp_mono) (use assms(3) in \<open>auto intro: guarded_switch\<close>)
    then show "wp (kbind (peek_tcb (hart_id e) r) (\<lambda>entry.
        kseq (case entry of None \<Rightarrow> kret ()
              | Some _ \<Rightarrow> kseq (set_task_state (hart_id e) r Terminated) (recover_mutexes e r))
             (switch_task e sp False))) (\<lambda>_. guarded e sl spinlock_new) E s2"
      using guarded_peek_wp [OF g assms(3) r] t by (simp add: kvc)
  qed
  show ?thesis
    using * [of "s\<lparr>trace := trace s @ [FaultInterception cause (read_frame (ram s) sp 28)]\<rparr>"]
      * [of "s\<lparr>trace := trace s @ [FaultInterception cause (read_frame (ram s) sp 28)],
           metric_pmp_violations := metric_pmp_violations s + 1\<rparr>"] assms
    by (cases "cause = 2") (simp_all add: contain_fault_def Let_def kvc)
qed

lemma emulate_csr_safe:
  "kinv (stacks e) s \<Longrightarrow> locks_ok (hart_id e) s \<Longrightarrow> wp (emulate_csr e sp epc ins) (Safe e s) E s"
  by (auto simp: emulate_csr_def kvc settled_def split: option.split)

lemma on_exception_safe:
  assumes "kinv (stacks e) s" "locks_ok (hart_id e) s" "hart_id e < 2"
  shows "wp (on_exception e cause sp) (Safe e s)
    (\<lambda>p _. p = UnhandledException cause \<and> cause \<notin> set contained_causes) s"
  using contain_fault_safe [OF assms] emulate_csr_safe [OF assms(1,2)]
  by (auto simp: on_exception_def Let_def kvc contained_causes_def)

lemma foreign_unlock_cong:
  "schedulers s' = schedulers s \<Longrightarrow> mutexes s' = mutexes s \<Longrightarrow>
     read_frame (ram s') sp 6 = read_frame (ram s) sp 6 \<Longrightarrow>
     foreign_unlock e sp s' = foreign_unlock e sp s"
  unfolding foreign_unlock_def tcb_at_def by (simp only:)

lemma syscall_safe:
  assumes "kinv (stacks e) s" "locks_ok (hart_id e) s" "hart_id e < 2"
  shows "wp (syscall e sp) (Safe e s)
    (\<lambda>p _. p = AssertFailed \<and> read_frame (ram s) sp 13 = 4 \<and> foreign_unlock e sp s) s"
proof -
  let ?s = "s\<lparr>ram := write_frame (ram s) sp 28 (read_frame (ram s) sp 28 + 4)\<rparr>"
  have s: "kinv (stacks e) ?s" "locks_ok (hart_id e) ?s" "foreign_unlock e sp ?s = foreign_unlock e sp s"
    using assms foreign_unlock_cong [of ?s s sp] by (simp_all add: read_write_frame)
  note safe = sys_yield_safe sys_sleep_safe sys_lock_safe sys_checkin_safe
    sys_send_safe sys_recv_safe sys_terminate_safe
  have unlock: "wp (sys_unlock e sp) (Safe e s) (\<lambda>p _. p = AssertFailed \<and> foreign_unlock e sp s) ?s"
    using sys_unlock_safe [OF s(1,2) assms(3), of sp] unfolding s(3) by simp
  show ?thesis
    using unlock safe [OF s(1,2) assms(3)] assms(1,2)
    by (simp add: syscall_def kvc settled_def [of "stacks e" s "?s"])
qed

lemma trap_handler_safe:
  assumes "kinv (stacks e) s" "locks_ok (hart_id e) s" "hart_id e < 2"
  shows "wp (trap_handler e mcause sp start) (Safe e s)
    (\<lambda>p _. p = AssertFailed \<and> mcause = 8 \<and> read_frame (ram s) sp 13 = 4 \<and> foreign_unlock e sp s
       \<or> p = UnhandledException mcause
         \<and> mcause \<notin> set contained_causes \<union> {push_bit 31 1 OR 7, push_bit 31 1 OR 3, 8}) s"
proof -
  let ?s = "s\<lparr>metric_trap_latency := end_cycle e - start\<rparr>"
  have s: "kinv (stacks e) ?s" "locks_ok (hart_id e) ?s" "foreign_unlock e sp ?s = foreign_unlock e sp s"
    using assms foreign_unlock_cong [of ?s s sp] by simp_all
  have exc: "wp (on_exception e mcause sp) (Safe e s)
      (\<lambda>p _. p = UnhandledException mcause \<and> mcause \<notin> set contained_causes) ?s"
    using on_exception_safe [OF s(1,2) assms(3)] by simp
  have sys: "wp (syscall e sp) (Safe e s)
      (\<lambda>p _. p = AssertFailed \<and> read_frame (ram s) sp 13 = 4 \<and> foreign_unlock e sp s) ?s"
    using syscall_safe [OF s(1,2) assms(3), of sp] unfolding s(3) by simp
  show ?thesis
    using on_timer_safe [OF s(1,2) assms(3)] on_software_safe [OF s(1,2) assms(3)]
    by (auto simp: trap_handler_def kvc contained_causes_def intro: wp_mono [OF exc] wp_mono [OF sys])
qed

end
