(* ===== verification/Boot.thy ===== *)
theory Boot
  imports Trap
begin

text \<open>
  The boot sequence (\<^verbatim>\<open>kernel/src/main.rs\<close>): the statics before \<^verbatim>\<open>kmain\<close>, the memory protection,
  stacks and task registrations of core 0, the boot path of core 1 and \<^verbatim>\<open>start_first_task\<close>. The
  addresses of the task functions are a parameter. The secure-boot check is a parameter of
  \<open>kmain_core0\<close>: when it fails the core waits for interrupts forever, and nothing is registered. The writes to
  \<^verbatim>\<open>mtvec\<close>, \<^verbatim>\<open>mie\<close>, \<^verbatim>\<open>mstatus\<close>, \<^verbatim>\<open>mcounteren\<close> and \<^verbatim>\<open>mscratch\<close> are not part of the state, and the
  self-test of the CAN stack, which touches metrics only, is in theory \<open>Startup\<close>.
\<close>

section \<open>Statics and timers\<close>

record entry_points =
  watchdog_task :: usize
  task_a :: usize
  task_b :: usize
  task_c :: usize
  hsm_task :: usize
  idle_task :: usize

definition MUTEXES :: "KernelMutex option list" where
  "MUTEXES = Some \<lparr>locked = False, owner_task_idx = None, waiters_bitmap = 0\<rparr> # replicate 7 None"

text \<open>The state at reset: zeroed statics and whatever the memory holds.\<close>

definition reset_kernel :: "mem \<Rightarrow> kernel" where
  "reset_kernel m = \<lparr>schedulers = [scheduler_new, scheduler_new], mutexes = MUTEXES,
     sched_lock = spinlock_new, mutex_lock = spinlock_new, tick_count = 0,
     last_checkin_tick = replicate 32 0, metric_trap_latency = 0, metric_pmp_violations = 0,
     ram = m, msip = (\<lambda>_. 0), mtimecmp = (\<lambda>_. 0), pmp = (\<lambda>_. pmp_reset), trace = [], test_counter = 0\<rparr>"

definition init_protection :: "nat \<Rightarrow> layout \<Rightarrow> (kernel, unit) km" where
  "init_protection h L =
     zoom (\<lambda>s. pmp s h) (\<lambda>r s. s\<lparr>pmp := (pmp s)(h := r)\<rparr>) (init_memory_protection L)"

definition init_timer :: "nat \<Rightarrow> u64 \<Rightarrow> (kernel, unit) km" where
  "init_timer h now = kmodify (\<lambda>s. s\<lparr>mtimecmp := (mtimecmp s)(h := now + 40000)\<rparr>)"

section \<open>Registration\<close>

definition init_task_stack :: "usize \<Rightarrow> usize \<Rightarrow> (kernel, usize) km" where
  "init_task_stack stack entry_fn = (\<lambda>s.
     case initialize_stack stack 1024 entry_fn (ram s) of (m, sp) \<Rightarrow> (s\<lparr>ram := m\<rparr>, Ok sp))"

definition register_on :: "nat \<Rightarrow> TaskControlBlock \<Rightarrow> (kernel, unit) km" where
  "register_on h tcb =
     zoom (\<lambda>s. schedulers s ! h) (\<lambda>sched. upd_sched h (\<lambda>_. sched)) (register_task tcb)"

definition new_tcb :: "usize \<Rightarrow> u8 \<Rightarrow> string \<Rightarrow> Capability list \<Rightarrow> TaskControlBlock" where
  "new_tcb sp prio name caps = \<lparr>saved_sp = sp, priority = prio, active_priority = prio,
     task_state = Ready, task_name = name, capabilities = caps\<rparr>"

definition no_caps :: "Capability list" where
  "no_caps = replicate 8 NoCap"

definition task_a_caps :: "Capability list" where
  "task_a_caps = [Mutex 0 True True, Ipc 0 True False, Ipc 2 True False, Ipc 3 False True,
     NoCap, NoCap, NoCap, NoCap]"

definition hsm_caps :: "Capability list" where
  "hsm_caps = [Ipc 2 False True, Ipc 3 True False, NoCap, NoCap, NoCap, NoCap, NoCap, NoCap]"

definition task_b_caps :: "Capability list" where
  "task_b_caps = [Ipc 0 False True, NoCap, NoCap, NoCap, NoCap, NoCap, NoCap, NoCap]"

definition task_c_caps :: "Capability list" where
  "task_c_caps = [Mutex 0 True True, NoCap, NoCap, NoCap, NoCap, NoCap, NoCap, NoCap]"

definition register_tasks :: "layout \<Rightarrow> entry_points \<Rightarrow> (kernel, unit) km" where
  "register_tasks L ep =
     kbind (init_task_stack (TASK_WD_STACK L) (watchdog_task ep)) (\<lambda>sp_wd.
     kbind (init_task_stack (TASK_A_STACK L) (task_a ep)) (\<lambda>sp_a.
     kbind (init_task_stack (TASK_B_STACK L) (task_b ep)) (\<lambda>sp_b.
     kbind (init_task_stack (TASK_C_STACK L) (task_c ep)) (\<lambda>sp_c.
     kbind (init_task_stack (HSM_STACK L) (hsm_task ep)) (\<lambda>sp_hsm.
     kbind (init_task_stack (IDLE_STACK_0 L) (idle_task ep)) (\<lambda>sp_idle0.
     kbind (init_task_stack (IDLE_STACK_1 L) (idle_task ep)) (\<lambda>sp_idle1.
     kseq (register_on 0 (new_tcb sp_wd 0 ''Watchdog'' no_caps))
    (kseq (register_on 0 (new_tcb sp_a 1 ''Task A'' task_a_caps))
    (kseq (register_on 0 (new_tcb sp_hsm 4 ''HSM Task'' hsm_caps))
    (kseq (register_on 0 (new_tcb sp_idle0 31 ''Idle 0'' no_caps))
    (kseq (register_on 1 (new_tcb sp_b 2 ''Task B'' task_b_caps))
    (kseq (register_on 1 (new_tcb sp_c 3 ''Task C'' task_c_caps))
          (register_on 1 (new_tcb sp_idle1 31 ''Idle 1'' no_caps))))))))))))))"

section \<open>Boot paths\<close>

text \<open>Core 0 up to the release of core 1; the result says whether the boot went on.\<close>

definition kmain_core0 :: "bool \<Rightarrow> layout \<Rightarrow> entry_points \<Rightarrow> u64 \<Rightarrow> (kernel, bool) km" where
  "kmain_core0 verify_secure_boot L ep now =
     kseq (init_protection 0 L)
       (if verify_secure_boot then
          kseq (register_tasks L ep)
         (kseq (init_timer 0 now)
               (kret True))
        else kret False)"

definition kmain_core1 :: "layout \<Rightarrow> u64 \<Rightarrow> (kernel, unit) km" where
  "kmain_core1 L now = kseq (init_protection 1 L) (init_timer 1 now)"

text \<open>\<^verbatim>\<open>start_first_task\<close>: the search, the state changes, the PMP, and the stack pointer from which
  the first task's registers are loaded.\<close>

definition first_ready :: "BitMapScheduler \<Rightarrow> nat option" where
  "first_ready sched = find (\<lambda>i. state_at sched i = Some Ready) [0..<MAX_PARTITIONS]"

definition start_first_task :: "nat \<Rightarrow> layout \<Rightarrow> (kernel, usize) km" where
  "start_first_task h L =
     kbind (sched_of h) (\<lambda>sched.
       case first_ready sched of
         None \<Rightarrow> kpanic AssertFailed
       | Some first_idx \<Rightarrow>
           kseq (kmodify (upd_sched h (\<lambda>sched. sched\<lparr>current_partition_idx := first_idx,
                   remaining_mif_ticks := partition_durations sched ! first_idx\<rparr>)))
          (kbind (get_tcb h first_idx) (\<lambda>new_tcb.
           kseq (set_task_state h first_idx Running)
          (kseq (reprogram_on h L (task_name new_tcb))
                (kret (saved_sp new_tcb))))))"

text \<open>The whole boot: core 0, then core 1, then both first tasks, which are the result.\<close>

definition boot :: "layout \<Rightarrow> entry_points \<Rightarrow> u64 \<Rightarrow> u64 \<Rightarrow> (kernel, usize \<times> usize) km" where
  "boot L ep now0 now1 =
     kbind (kmain_core0 True L ep now0) (\<lambda>_.
     kseq (kmain_core1 L now1)
    (kbind (start_first_task 1 L) (\<lambda>sp1.
     kbind (start_first_task 0 L) (\<lambda>sp0.
     kret (sp0, sp1)))))"

section \<open>What the boot leaves\<close>

definition boot_table0 :: "usize \<Rightarrow> usize \<Rightarrow> usize \<Rightarrow> usize \<Rightarrow> TaskControlBlock option list" where
  "boot_table0 sp_wd sp_a sp_hsm sp_idle0 = (replicate 32 None)
     [0 := Some (new_tcb sp_wd 0 ''Watchdog'' no_caps), 1 := Some (new_tcb sp_a 1 ''Task A'' task_a_caps),
      4 := Some (new_tcb sp_hsm 4 ''HSM Task'' hsm_caps), 31 := Some (new_tcb sp_idle0 31 ''Idle 0'' no_caps)]"

definition boot_table1 :: "usize \<Rightarrow> usize \<Rightarrow> usize \<Rightarrow> TaskControlBlock option list" where
  "boot_table1 sp_b sp_c sp_idle1 = (replicate 32 None)
     [2 := Some (new_tcb sp_b 2 ''Task B'' task_b_caps), 3 := Some (new_tcb sp_c 3 ''Task C'' task_c_caps),
      31 := Some (new_tcb sp_idle1 31 ''Idle 1'' no_caps)]"

text \<open>Where a task's first frame lies in its stack.\<close>

definition frame_top :: "usize \<Rightarrow> usize" where
  "frame_top stack = snd (initialize_stack stack 1024 0 (\<lambda>_. 0))"

definition boot_ram :: "layout \<Rightarrow> entry_points \<Rightarrow> mem \<Rightarrow> mem" where
  "boot_ram L ep m =
     fold (\<lambda>(stack, fn) m. fst (initialize_stack stack 1024 fn m))
       [(TASK_WD_STACK L, watchdog_task ep), (TASK_A_STACK L, task_a ep), (TASK_B_STACK L, task_b ep),
        (TASK_C_STACK L, task_c ep), (HSM_STACK L, hsm_task ep), (IDLE_STACK_0 L, idle_task ep),
        (IDLE_STACK_1 L, idle_task ep)] m"

lemma init_task_stack_run:
  "init_task_stack stack fn s =
     (s\<lparr>ram := fst (initialize_stack stack 1024 fn (ram s))\<rparr>, Ok (frame_top stack))"
  by (simp add: init_task_stack_def frame_top_def initialize_stack_def Let_def)

lemma register_on_run:
  "unat prio < 32 \<Longrightarrow> register_on h (new_tcb sp prio name caps) s =
     (upd_sched h (\<lambda>sc. sc\<lparr>task_table := (task_table sc)[unat prio := Some (new_tcb sp prio name caps)]\<rparr>) s,
      Ok ())"
  by (simp add: register_on_def zoom_def register_task_def new_tcb_def MAX_PARTITIONS_def Let_def
      upd_sched_def)

definition boot_schedulers :: "layout \<Rightarrow> BitMapScheduler list" where
  "boot_schedulers L =
     [scheduler_new\<lparr>task_table := boot_table0 (frame_top (TASK_WD_STACK L)) (frame_top (TASK_A_STACK L))
        (frame_top (HSM_STACK L)) (frame_top (IDLE_STACK_0 L))\<rparr>,
      scheduler_new\<lparr>task_table := boot_table1 (frame_top (TASK_B_STACK L)) (frame_top (TASK_C_STACK L))
        (frame_top (IDLE_STACK_1 L))\<rparr>]"

lemma register_tasks_run:
  assumes "schedulers s = [scheduler_new, scheduler_new]"
  shows "register_tasks L ep s =
    (s\<lparr>ram := boot_ram L ep (ram s), schedulers := boot_schedulers L\<rparr>, Ok ())"
  using assms
  by (simp add: register_tasks_def kbind_eval kseq_def init_task_stack_run register_on_run upd_sched_def
      boot_ram_def boot_schedulers_def boot_table0_def boot_table1_def scheduler_new_def
      MAX_PARTITIONS_def)

definition start_on :: "nat \<Rightarrow> BitMapScheduler \<Rightarrow> BitMapScheduler" where
  "start_on i sc = sc\<lparr>current_partition_idx := i, remaining_mif_ticks := partition_durations sc ! i,
     task_table := upd_slot (task_table sc) i (set_state Running)\<rparr>"

text \<open>A launch changes its own core's scheduler and PMP only.\<close>

lemma start_first_task_eq:
  assumes h: "h < length (schedulers s)" and i: "first_ready (schedulers s ! h) = Some i"
    and t: "slot (task_table (schedulers s ! h)) i = Some tcb" and p: "pmp_configured L old (pmp s h)"
  shows "start_first_task h L s = (s\<lparr>schedulers := (schedulers s)[h := start_on i (schedulers s ! h)],
       pmp := (pmp s)(h := fst (reprogram_pmp_stack L (task_name tcb) (pmp s h)))\<rparr>, Ok (saved_sp tcb))"
proof -
  let ?s1 = "upd_sched h (\<lambda>sched. sched\<lparr>current_partition_idx := i,
      remaining_mif_ticks := partition_durations sched ! i\<rparr>) s"
  let ?s2 = "upd_tcb h i (set_state Running) ?s1" and ?r = "fst (reprogram_pmp_stack L (task_name tcb) (pmp s h))"
  have at: "tcb_at ?s1 h i = Some tcb" using h t by (simp add: tcb_at_def upd_sched_def)
  have len: "h < length (schedulers ?s1)" using h by (simp add: upd_sched_def)
  have "pmp ?s2 = pmp s" by (simp add: upd_sched_def)
  then have r: "reprogram_on h L (task_name tcb) ?s2 = (?s2\<lparr>pmp := (pmp ?s2)(h := ?r)\<rparr>, Ok ())"
    using reprogram_configured [OF p, of "task_name tcb"] by (auto simp: reprogram_on_def zoom_def)
  have s2: "?s2\<lparr>pmp := (pmp ?s2)(h := ?r)\<rparr> =
      s\<lparr>schedulers := (schedulers s)[h := start_on i (schedulers s ! h)], pmp := (pmp s)(h := ?r)\<rparr>"
    using h by (simp add: upd_tcb_def upd_sched_def start_on_def)
  have "start_first_task h L s = (?s2\<lparr>pmp := (pmp ?s2)(h := ?r)\<rparr>, Ok (saved_sp tcb))"
    using h i r get_tcb_run [OF at len]
    by (simp add: start_first_task_def sched_of_def kdefs set_task_state_def)
  with s2 show ?thesis by simp
qed

lemma start_on_wf:
  assumes "sched_shape sc" "slot (task_table sc) i = Some tcb" "\<And>k. state_at sc k \<noteq> Some Running"
  shows "sched_wf (start_on i sc)"
proof -
  have "i < 32" using assms(1,2) slot_Some_less by (fastforce simp: sched_shape_def)
  moreover have "k = i" if "state_at (start_on i sc) k = Some Running" for k
    using that assms(3) [of k] by (auto simp: state_at_def start_on_def slot_upd_slot split: if_splits)
  ultimately show ?thesis
    using assms(1,2) by (simp add: sched_wf_def sched_shape_def start_on_def)
qed

lemmas boot_slots = boot_schedulers_def boot_table0_def boot_table1_def slot_list_update

lemma boot_scheduler_ok:
  assumes "h < 2"
  shows "sched_shape (boot_schedulers L ! h)" "state_at (boot_schedulers L ! h) k \<noteq> Some Running"
    "slot (task_table (boot_schedulers L ! h)) k = Some tcb \<Longrightarrow> tcb_ok h k tcb"
proof -
  from assms have h: "h = 0 \<or> h = 1" by auto
  show "sched_shape (boot_schedulers L ! h)"
    using h by (auto simp: sched_shape_def boot_schedulers_def boot_table0_def boot_table1_def
        scheduler_new_def MAX_PARTITIONS_def)
  show "state_at (boot_schedulers L ! h) k \<noteq> Some Running"
    using h by (auto simp: state_at_def boot_slots new_tcb_def split: if_splits)
  show "slot (task_table (boot_schedulers L ! h)) k = Some tcb \<Longrightarrow> tcb_ok h k tcb"
    using h by (auto simp: boot_slots tcb_ok_def new_tcb_def no_caps_def task_a_caps_def hsm_caps_def
        task_b_caps_def task_c_caps_def waiter_hart_def split: if_splits)
qed

lemma boot_first_ready:
  "first_ready (boot_schedulers L ! 0) = Some 0" "first_ready (boot_schedulers L ! 1) = Some 2"
proof -
  have "state_at (boot_schedulers L ! 0) 0 = Some Ready"
    by (simp add: state_at_def boot_slots new_tcb_def)
  then show "first_ready (boot_schedulers L ! 0) = Some 0"
    unfolding first_ready_def find_Some_iff by (intro exI [of _ 0]) (simp add: MAX_PARTITIONS_def)
  have "state_at (boot_schedulers L ! 1) 2 = Some Ready" "state_at (boot_schedulers L ! 1) 0 = None"
    "state_at (boot_schedulers L ! 1) 1 = None"
    by (simp_all add: state_at_def boot_slots new_tcb_def)
  then show "first_ready (boot_schedulers L ! 1) = Some 2"
    unfolding first_ready_def find_Some_iff
    by (intro exI [of _ 2]) (auto simp: MAX_PARTITIONS_def less_Suc_eq numeral_2_eq_2)
qed

lemma boot_first_slot:
  "slot (task_table (boot_schedulers L ! 0)) 0
     = Some (new_tcb (frame_top (TASK_WD_STACK L)) 0 ''Watchdog'' no_caps)"
  "slot (task_table (boot_schedulers L ! 1)) 2
     = Some (new_tcb (frame_top (TASK_B_STACK L)) 2 ''Task B'' task_b_caps)"
  by (simp_all add: boot_slots)

lemma new_tcb_simps [simp]:
  "saved_sp (new_tcb sp p n c) = sp" "task_name (new_tcb sp p n c) = n"
  "capabilities (new_tcb sp p n c) = c" "task_state (new_tcb sp p n c) = Ready"
  by (simp_all add: new_tcb_def)

lemma length_boot_schedulers [simp]: "length (boot_schedulers L) = 2"
  by (simp add: boot_schedulers_def)

lemma init_protection_run:
  assumes "pmp s h = pmp_reset"
  obtains r where "pmp_configured L ''none'' r" "init_protection h L s = (s\<lparr>pmp := (pmp s)(h := r)\<rparr>, Ok ())"
  using init_configured [of L] assms by (auto simp: init_protection_def zoom_def)

text \<open>The stages of the boot; the two launches can take place in either order.\<close>

lemma boot_stages:
  obtains k0 k1 k2 x b sp0 sp1 r0 r1 where
    "kmain_core0 True L ep now0 (reset_kernel m) = (k0, Ok True)" "kmain_core1 L now1 k0 = (k1, Ok ())"
    "start_first_task 1 L k1 = (k2, Ok sp1)" "start_first_task 0 L k2 = (b, Ok sp0)"
    "start_first_task 0 L k1 = (x, Ok sp0)" "start_first_task 1 L x = (b, Ok sp1)"
    "boot L ep now0 now1 (reset_kernel m) = (b, Ok (sp0, sp1))"
    "sp0 = frame_top (TASK_WD_STACK L)" "sp1 = frame_top (TASK_B_STACK L)"
    "pmp_configured L ''Watchdog'' r0" "pmp_configured L ''Task B'' r1"
    "b = (reset_kernel m)\<lparr>
       schedulers := [start_on 0 (boot_schedulers L ! 0), start_on 2 (boot_schedulers L ! 1)],
       pmp := (\<lambda>_. pmp_reset)(0 := r0, 1 := r1), ram := boot_ram L ep m,
       mtimecmp := (\<lambda>_. 0)(0 := now0 + 40000, 1 := now1 + 40000)\<rparr>"
proof -
  let ?s = "reset_kernel m"
  obtain p0 where p0: "pmp_configured L ''none'' p0" "init_protection 0 L ?s = (?s\<lparr>pmp := (pmp ?s)(0 := p0)\<rparr>, Ok ())"
    by (rule init_protection_run [of ?s 0 L]) (simp_all add: reset_kernel_def)
  let ?k0 = "?s\<lparr>pmp := (pmp ?s)(0 := p0), ram := boot_ram L ep m, schedulers := boot_schedulers L,
      mtimecmp := (mtimecmp ?s)(0 := now0 + 40000)\<rparr>"
  have k0: "kmain_core0 True L ep now0 ?s = (?k0, Ok True)"
    using p0(2) register_tasks_run [of "?s\<lparr>pmp := (pmp ?s)(0 := p0)\<rparr>" L ep]
    by (simp add: kmain_core0_def kdefs init_timer_def reset_kernel_def)
  obtain p1 where p1: "pmp_configured L ''none'' p1" "init_protection 1 L ?k0 = (?k0\<lparr>pmp := (pmp ?k0)(1 := p1)\<rparr>, Ok ())"
    by (rule init_protection_run [of ?k0 1 L]) (simp_all add: reset_kernel_def)
  let ?k1 = "?k0\<lparr>pmp := (pmp ?k0)(1 := p1), mtimecmp := (mtimecmp ?k0)(1 := now1 + 40000)\<rparr>"
  have k1: "kmain_core1 L now1 ?k0 = (?k1, Ok ())"
    using p1(2) by (simp add: kmain_core1_def kdefs init_timer_def)
  let ?r0 = "fst (reprogram_pmp_stack L ''Watchdog'' p0)" and ?r1 = "fst (reprogram_pmp_stack L ''Task B'' p1)"
  have start0: "start_first_task 0 L k = (k\<lparr>schedulers := (schedulers k)[0 := start_on 0 (boot_schedulers L ! 0)],
       pmp := (pmp k)(0 := ?r0)\<rparr>, Ok (frame_top (TASK_WD_STACK L)))"
    if "schedulers k ! 0 = boot_schedulers L ! 0" "length (schedulers k) = 2" "pmp k 0 = p0" for k
    using start_first_task_eq [of 0 k 0 "new_tcb (frame_top (TASK_WD_STACK L)) 0 ''Watchdog'' no_caps" L "''none''"]
      that p0(1) boot_first_ready(1) [of L] boot_first_slot(1) [of L] by simp
  have start1: "start_first_task 1 L k = (k\<lparr>schedulers := (schedulers k)[1 := start_on 2 (boot_schedulers L ! 1)],
       pmp := (pmp k)(1 := ?r1)\<rparr>, Ok (frame_top (TASK_B_STACK L)))"
    if "schedulers k ! 1 = boot_schedulers L ! 1" "length (schedulers k) = 2" "pmp k 1 = p1" for k
    using start_first_task_eq [of 1 k 2 "new_tcb (frame_top (TASK_B_STACK L)) 2 ''Task B'' task_b_caps" L "''none''"]
      that p1(1) boot_first_ready(2) [of L] boot_first_slot(2) [of L] by simp
  let ?k2 = "?k1\<lparr>schedulers := (schedulers ?k1)[1 := start_on 2 (boot_schedulers L ! 1)], pmp := (pmp ?k1)(1 := ?r1)\<rparr>"
  let ?x = "?k1\<lparr>schedulers := (schedulers ?k1)[0 := start_on 0 (boot_schedulers L ! 0)], pmp := (pmp ?k1)(0 := ?r0)\<rparr>"
  let ?b = "?k2\<lparr>schedulers := (schedulers ?k2)[0 := start_on 0 (boot_schedulers L ! 0)], pmp := (pmp ?k2)(0 := ?r0)\<rparr>"
  have s: "start_first_task 1 L ?k1 = (?k2, Ok (frame_top (TASK_B_STACK L)))"
    "start_first_task 0 L ?k2 = (?b, Ok (frame_top (TASK_WD_STACK L)))"
    "start_first_task 0 L ?k1 = (?x, Ok (frame_top (TASK_WD_STACK L)))"
    by (rule start1 start0; simp)+
  have x: "start_first_task 1 L ?x = (?b, Ok (frame_top (TASK_B_STACK L)))"
    by (subst start1) (simp_all add: fun_upd_twist list_update_swap)
  have boot: "boot L ep now0 now1 ?s = (?b, Ok (frame_top (TASK_WD_STACK L), frame_top (TASK_B_STACK L)))"
    unfolding boot_def kbind_eval kseq_def k0 prod.case res.case k1 s kret_def by simp
  have b: "?b = ?s\<lparr>schedulers := [start_on 0 (boot_schedulers L ! 0), start_on 2 (boot_schedulers L ! 1)],
       pmp := (\<lambda>_. pmp_reset)(0 := ?r0, 1 := ?r1), ram := boot_ram L ep m,
       mtimecmp := (\<lambda>_. 0)(0 := now0 + 40000, 1 := now1 + 40000)\<rparr>"
    by (simp add: reset_kernel_def boot_schedulers_def fun_upd_twist)
  have "pmp_configured L ''Watchdog'' ?r0" "pmp_configured L ''Task B'' ?r1"
    using reprogram_configured p0(1) p1(1) by (metis fst_conv)+
  with k0 k1 s x boot b show thesis by (intro that) simp_all
qed

lemma boot_run:
  obtains r0 r1 where "pmp_configured L ''Watchdog'' r0" "pmp_configured L ''Task B'' r1"
    "boot L ep now0 now1 (reset_kernel m) = ((reset_kernel m)\<lparr>
       schedulers := [start_on 0 (boot_schedulers L ! 0), start_on 2 (boot_schedulers L ! 1)],
       pmp := (\<lambda>_. pmp_reset)(0 := r0, 1 := r1), ram := boot_ram L ep m,
       mtimecmp := (\<lambda>_. 0)(0 := now0 + 40000, 1 := now1 + 40000)\<rparr>,
       Ok (frame_top (TASK_WD_STACK L), frame_top (TASK_B_STACK L)))"
  by (rule boot_stages [of L ep now0 m now1]) (use that in blast)

section \<open>The first frames\<close>

lemma frame_top_aligned:
  assumes "take_bit 10 stack = 0"
  shows "frame_top stack = stack + 896"
proof -
  have "stack = push_bit 10 (drop_bit 10 stack)" using word_split [of stack 10] assms by simp
  then have "stack + 1024 = push_bit 10 (drop_bit 10 stack) + push_bit 10 1"
    by (simp add: push_bit_eq_mult)
  then have "stack + 1024 = push_bit 10 (drop_bit 10 stack + 1)" by (simp only: push_bit_add)
  then have low: "\<not> bit (stack + 1024) n" if "n < 10" for n
    using that by (simp only: bit_push_bit_iff) simp
  have "(stack + 1024) AND NOT (mask 4) = stack + 1024"
    by (rule bit_word_eqI) (use low in \<open>auto simp: bit_simps\<close>)
  then show ?thesis
    by (simp add: frame_top_def initialize_stack_sp mask_eq_exp_minus_1)
qed

lemma frame_in_stack:
  assumes "in_range b (stack + 896) 128"
  shows "in_range b stack 1024"
proof -
  obtain d where d: "d = b - (stack + 896)" by simp
  have "unat d < 128" using assms by (simp add: in_range_def word_less_nat_alt d)
  then have "unat (d + 896) < 1024" by (simp add: unat_word_ariths)
  moreover have "b - stack = d + 896" by (simp add: d)
  ultimately show ?thesis by (simp add: in_range_def word_less_nat_alt)
qed

lemma init_frame_read:
  "j < 32 \<Longrightarrow> read_frame (fst (initialize_stack stack 1024 fn m)) (frame_top stack) j
     = (if j = 28 then fn else if j = 29 then 0x80 else 0)"
  by (rule initialize_stack_read) (simp_all add: frame_top_def initialize_stack_def Let_def)

lemma init_frame_elsewhere:
  assumes "layout_ok L" "stack \<in> set (layout_stacks L)" "other \<in> set (layout_stacks L)" "stack \<noteq> other"
    and "j < 32"
  shows "read_frame (fst (initialize_stack other 1024 fn m)) (frame_top stack) j
     = read_frame m (frame_top stack) j"
proof (rule read_frame_cong)
  fix b assume "in_range b (frame_top stack) 128"
  then have "in_range b stack 1024"
    using frame_in_stack frame_top_aligned layout_stack_aligned assms(1,2) by metis
  then have "\<not> in_range b other 1024" using stacks_disjoint assms(1-4) by blast
  then have "\<not> in_range b (frame_top other) 128"
    using frame_in_stack frame_top_aligned layout_stack_aligned assms(1,3) by metis
  then show "fst (initialize_stack other 1024 fn m) b = m b"
    by (intro initialize_stack_outside [of other 1024 fn m]) (simp_all add: frame_top_def initialize_stack_def Let_def)
qed (rule assms(5))

lemma boot_frame_read:
  assumes "layout_ok L" "fst ` set xs \<subseteq> set (layout_stacks L)" "distinct (map fst xs)"
    and "(stack, fn) \<in> set xs" "j < 32"
  shows "read_frame (fold (\<lambda>(stack, fn) m. fst (initialize_stack stack 1024 fn m)) xs m) (frame_top stack) j
     = (if j = 28 then fn else if j = 29 then 0x80 else 0)"
  using assms(2-4)
proof (induction xs rule: rev_induct)
  case (snoc x xs)
  obtain st f where x: "x = (st, f)" by fastforce
  show ?case
  proof (cases "st = stack")
    case True
    then have "f = fn" using snoc.prems x by (force simp: image_iff)
    then show ?thesis using True x by (simp add: init_frame_read [OF assms(5)])
  next
    case False
    then have "(stack, fn) \<in> set xs" using snoc.prems x by auto
    moreover have "stack \<in> set (layout_stacks L)" "st \<in> set (layout_stacks L)"
      using snoc.prems x by force+
    ultimately show ?thesis
      using snoc False x by (simp add: init_frame_elsewhere [OF assms(1) _ _ _ assms(5)])
  qed
qed simp

section \<open>The invariant after boot\<close>

lemma boot_kinv:
  assumes r: "pmp_configured L ''Watchdog'' r0" "pmp_configured L ''Task B'' r1"
    and s: "schedulers s = [start_on 0 (boot_schedulers L ! 0), start_on 2 (boot_schedulers L ! 1)]"
      "pmp s = (\<lambda>_. pmp_reset)(0 := r0, 1 := r1)" "mutexes s = MUTEXES"
      "last_checkin_tick s = replicate 32 0"
  shows "kinv L s"
proof (rule kinvI)
  have first: "slot (task_table (boot_schedulers L ! h)) (2 * h) \<noteq> None" if "h < 2" for h
    using that boot_first_slot [of L] by (auto simp: less_2_cases_iff)
  have sched: "schedulers s ! h = start_on (2 * h) (boot_schedulers L ! h)" if "h < 2" for h
    using that by (auto simp: s(1) less_2_cases_iff)
  show "sched_wf (schedulers s ! h)" if "h < 2" for h
    using first [OF that] start_on_wf boot_scheduler_ok(1,2) [OF that] by (fastforce simp: sched [OF that])
  show "tcb_ok h i tcb" if "h < 2" "tcb_at s h i = Some tcb" for h i tcb
    using that(2) boot_scheduler_ok(3) [OF that(1), of L i]
    by (auto simp: tcb_at_def sched [OF that(1)] start_on_def slot_upd_slot split: if_splits)
  show "pmp_current L s h" if "h < 2" for h
    using that r boot_first_slot [of L]
    by (auto simp: pmp_current_def tcb_at_def s(1,2) start_on_def less_2_cases_iff)
  show "mutex_ok s m" if "slot (mutexes s) k = Some m" for k m
    using that by (auto simp: s(3) MUTEXES_def slot_def nth_Cons mutex_ok_def split: if_splits nat.splits)
qed (simp_all add: s MUTEXES_def)

section \<open>A booted kernel\<close>

definition demo_entries :: entry_points where
  "demo_entries = \<lparr>watchdog_task = 0x42000100, task_a = 0x42000200, task_b = 0x42000300,
     task_c = 0x42000400, hsm_task = 0x42000500, idle_task = 0x42000600\<rparr>"

definition demo_kernel :: kernel where
  "demo_kernel = fst (boot demo_layout demo_entries 0 0 (reset_kernel (\<lambda>_. 0)))"

definition demo_env :: "nat \<Rightarrow> trap_env" where
  "demo_env h = \<lparr>hart_id = h, end_cycle = 120, emu_cycle = 77, swap_cycle = 5, mtime = 1000,
     stacks = demo_layout\<rparr>"

lemma demo_env_simps [simp]: "hart_id (demo_env h) = h" "stacks (demo_env h) = demo_layout"
  "emu_cycle (demo_env h) = 77" "end_cycle (demo_env h) = 120" "mtime (demo_env h) = 1000"
  by (simp_all add: demo_env_def)

lemma demo_kernel_facts:
  "kinv demo_layout demo_kernel" "sched_lock demo_kernel = spinlock_new"
  "mutex_lock demo_kernel = spinlock_new" "mutexes demo_kernel = MUTEXES"
  "schedulers demo_kernel =
     [start_on 0 (boot_schedulers demo_layout ! 0), start_on 2 (boot_schedulers demo_layout ! 1)]"
  "ram demo_kernel = boot_ram demo_layout demo_entries (\<lambda>_. 0)" "tick_count demo_kernel = 0"
proof -
  obtain r0 r1 where r: "pmp_configured demo_layout ''Watchdog'' r0" "pmp_configured demo_layout ''Task B'' r1"
    and s: "demo_kernel = (reset_kernel (\<lambda>_. 0))\<lparr>
       schedulers := [start_on 0 (boot_schedulers demo_layout ! 0), start_on 2 (boot_schedulers demo_layout ! 1)],
       pmp := (\<lambda>_. pmp_reset)(0 := r0, 1 := r1), ram := boot_ram demo_layout demo_entries (\<lambda>_. 0),
       mtimecmp := (\<lambda>_. 0)(0 := 0 + 40000, 1 := 0 + 40000)\<rparr>"
    unfolding demo_kernel_def by (rule boot_run [of demo_layout demo_entries 0 0 "\<lambda>_. 0"]) simp
  show "kinv demo_layout demo_kernel" by (rule boot_kinv [OF r]) (simp_all add: s reset_kernel_def)
  show "sched_lock demo_kernel = spinlock_new" "mutex_lock demo_kernel = spinlock_new"
    "mutexes demo_kernel = MUTEXES" "tick_count demo_kernel = 0"
    "schedulers demo_kernel =
       [start_on 0 (boot_schedulers demo_layout ! 0), start_on 2 (boot_schedulers demo_layout ! 1)]"
    "ram demo_kernel = boot_ram demo_layout demo_entries (\<lambda>_. 0)"
    by (simp_all add: s reset_kernel_def)
qed

section \<open>Properties\<close>

text \<open>C16: the boot of both cores ends without a panic in a state that satisfies the kernel
  invariant with both locks free; Watchdog runs on core 0 and Task B on core 1, in user mode from
  their entry points; and the saved frame of every registered task starts that task at its own
  entry point.\<close>

theorem boot_correct:
  assumes "layout_ok L"
  shows "\<exists>s sp0 sp1. boot L ep now0 now1 (reset_kernel m) = (s, Ok (sp0, sp1))
     \<and> kinv L s \<and> sched_lock s = spinlock_new \<and> mutex_lock s = spinlock_new
     \<and> state_at (schedulers s ! 0) 0 = Some Running \<and> state_at (schedulers s ! 1) 2 = Some Running
     \<and> mepc (load_context r (ram s) sp0) = watchdog_task ep
     \<and> mepc (load_context r (ram s) sp1) = task_b ep
     \<and> mstatus (load_context r (ram s) sp0) = 0x80 \<and> mstatus (load_context r (ram s) sp1) = 0x80
     \<and> (\<forall>(h, i, fn) \<in> {(0, 0, watchdog_task ep), (0, 1, task_a ep), (0, 4, hsm_task ep),
           (0, 31, idle_task ep), (1, 2, task_b ep), (1, 3, task_c ep), (1, 31, idle_task ep)}.
          map_option (\<lambda>tcb. mepc (load_context r (ram s) (saved_sp tcb))) (tcb_at s h i) = Some fn)"
proof -
  obtain r0 r1 where r: "pmp_configured L ''Watchdog'' r0" "pmp_configured L ''Task B'' r1"
    and b: "boot L ep now0 now1 (reset_kernel m) = ((reset_kernel m)\<lparr>
       schedulers := [start_on 0 (boot_schedulers L ! 0), start_on 2 (boot_schedulers L ! 1)],
       pmp := (\<lambda>_. pmp_reset)(0 := r0, 1 := r1), ram := boot_ram L ep m,
       mtimecmp := (\<lambda>_. 0)(0 := now0 + 40000, 1 := now1 + 40000)\<rparr>,
       Ok (frame_top (TASK_WD_STACK L), frame_top (TASK_B_STACK L)))" (is "_ = (?s, _)")
    by (rule boot_run)
  have k: "kinv L ?s" by (rule boot_kinv [OF r]) (simp_all add: reset_kernel_def)
  have "distinct (layout_stacks L)" using assms by (simp add: layout_ok_def)
  then have read: "read_frame (boot_ram L ep m) (frame_top stack) j
      = (if j = 28 then fn else if j = 29 then 0x80 else 0)"
    if "(stack, fn) \<in> set [(TASK_WD_STACK L, watchdog_task ep), (TASK_A_STACK L, task_a ep),
        (TASK_B_STACK L, task_b ep), (TASK_C_STACK L, task_c ep), (HSM_STACK L, hsm_task ep),
        (IDLE_STACK_0 L, idle_task ep), (IDLE_STACK_1 L, idle_task ep)]" "j < 32" for stack fn j
    unfolding boot_ram_def
    by (intro boot_frame_read [OF assms _ _ that]) (simp_all add: layout_stacks_def)
  have ctx: "mepc (load_context r (boot_ram L ep m) (frame_top stack)) = fn"
    "mstatus (load_context r (boot_ram L ep m) (frame_top stack)) = 0x80"
    if "(stack, fn) \<in> set [(TASK_WD_STACK L, watchdog_task ep), (TASK_A_STACK L, task_a ep),
        (TASK_B_STACK L, task_b ep), (TASK_C_STACK L, task_c ep), (HSM_STACK L, hsm_task ep),
        (IDLE_STACK_0 L, idle_task ep), (IDLE_STACK_1 L, idle_task ep)]" for stack fn
    using read [OF that] by (simp_all add: load_context_def)
  show ?thesis
    by (intro exI conjI, rule b)
      (use k ctx in \<open>auto simp: reset_kernel_def state_at_def tcb_at_def start_on_def boot_slots slot_upd_slot\<close>)
qed

theorem boot_correct_witness:
  "\<exists>s sp0 sp1. boot demo_layout \<lparr>watchdog_task = 0x42000100, task_a = 0x42000200, task_b = 0x42000300,
       task_c = 0x42000400, hsm_task = 0x42000500, idle_task = 0x42000600\<rparr> 0 0 (reset_kernel (\<lambda>_. 0))
      = (s, Ok (sp0, sp1)) \<and> kinv demo_layout s \<and> mepc (load_context (\<lambda>_. 0) (ram s) sp1) = 0x42000300"
  using boot_correct [OF demo_layout_ok, of "\<lparr>watchdog_task = 0x42000100, task_a = 0x42000200,
      task_b = 0x42000300, task_c = 0x42000400, hsm_task = 0x42000500, idle_task = 0x42000600\<rparr>" 0 0
      "\<lambda>_. 0" "\<lambda>_. 0"] by auto

end
