(* ===== verification/User_Tasks.thy ===== *)
theory User_Tasks
  imports Security Boot
begin

text \<open>
  The tasks of the demonstrator as programs over system calls: Task A, B and C of \<^verbatim>\<open>kernel/src/main.rs\<close>, the
  HSM partition of \<^verbatim>\<open>security/src/hsm.rs\<close> and \<^verbatim>\<open>verify_frame_secure\<close> of \<^verbatim>\<open>security/src/hmac.rs\<close>. A
  program is a value: finished, aborted in a panic, or a request to the kernel with a continuation for the reply.
  One turn of a task's endless loop is a function from the loop's variables to such a program. Log output, busy
  loops and cycle measurements are left out.
\<close>

section \<open>Programs\<close>

datatype request =
    Yield_Now
  | Sleep_Ticks usize
  | Lock_Mutex usize
  | Unlock_Mutex usize
  | Watchdog_Checkin
  | Sys_Send usize "u8 list"
  | Sys_Recv usize "u8 list"
  | Read_Volatile usize
  | Csrw_Mstatus u32
  | Dump_Metrics

text \<open>The value of \<^verbatim>\<open>a0\<close>, and for a receive the contents of the buffer afterwards.\<close>

datatype reply = Reply (ret: usize) (buf: "u8 list")

datatype 'a prog = Ret 'a | Abort panic | Call request "reply \<Rightarrow> 'a prog"

primrec pbind :: "'a prog \<Rightarrow> ('a \<Rightarrow> 'b prog) \<Rightarrow> 'b prog" where
  "pbind (Ret a) f = f a"
| "pbind (Abort p) f = Abort p"
| "pbind (Call r k) f = Call r (\<lambda>x. pbind (k x) f)"

definition failed :: "reply \<Rightarrow> bool" where
  "failed r \<longleftrightarrow> sint (ret r) < 0"

section \<open>The authentication helper and the HSM partition\<close>

text \<open>Frames travel as the bytes of the struct \<^verbatim>\<open>CanFrame\<close>; the compiler chooses the layout. The parameters
  \<open>enc\<close> and \<open>dec\<close> are the two casts; the struct has \<open>FRAME_SIZE\<close> bytes.\<close>

definition FRAME_SIZE :: nat where
  "FRAME_SIZE = 12"

record AuthFrame =
  auth_frame :: CanFrame
  tag :: "u8 list"

definition verify_frame_secure :: "(CanFrame \<Rightarrow> u8 list) \<Rightarrow> AuthFrame \<Rightarrow> usize \<Rightarrow> usize \<Rightarrow> bool prog" where
  "verify_frame_secure enc auth hsm_send_cap hsm_recv_cap =
     Call (Sys_Send hsm_send_cap (enc (auth_frame auth))) (\<lambda>r.
       if failed r then Ret False
       else Call (Sys_Recv hsm_recv_cap (replicate HMAC_TAG_LEN 0)) (\<lambda>r.
         if failed r then Ret False
         else Ret (tags_equal (buf r) (tag auth))))"

text \<open>One turn of the HSM's loop; the request buffer lives on.\<close>

definition hsm_turn :: "(u8 list \<Rightarrow> u8 list) \<Rightarrow> (u8 list \<Rightarrow> CanFrame) \<Rightarrow> u8 list \<Rightarrow> u8 list prog" where
  "hsm_turn sha dec req_buf =
     Call Watchdog_Checkin (\<lambda>_.
     Call (Sys_Recv 0 req_buf) (\<lambda>res.
       if ret res = of_nat FRAME_SIZE then
         (case compute_hmac_local sha (dec (buf res)) of
            Ok t \<Rightarrow> Call (Sys_Send 1 t) (\<lambda>_. Ret (buf res))
          | Panic p \<Rightarrow> Abort p
          | Spin \<Rightarrow> Abort AssertFailed)
       else Ret (buf res)))"

section \<open>Tasks A, B and C\<close>

definition test_frame :: CanFrame where
  "test_frame = \<lparr>frame_id = 0x3E, dlc = 4, payload = [0xAA, 0xBB, 0xCC, 0xDD, 0, 0, 0, 0]\<rparr>"

text \<open>The signing demo: the result is the verdict, \<open>None\<close> when a call failed.\<close>

definition hsm_demo :: "(CanFrame \<Rightarrow> u8 list) \<Rightarrow> bool option prog" where
  "hsm_demo enc =
     Call (Sys_Send 2 (enc test_frame)) (\<lambda>send_res.
     Call (Sys_Recv 3 (replicate 8 0)) (\<lambda>recv_res.
       if \<not> failed send_res \<and> \<not> failed recv_res then
         pbind (verify_frame_secure enc \<lparr>auth_frame = test_frame, tag = buf recv_res\<rparr> 2 3)
           (\<lambda>hsm_verified. Ret (Some hsm_verified))
       else Ret None))"

definition task_a_turn :: "(CanFrame \<Rightarrow> u8 list) \<Rightarrow> u32 \<Rightarrow> u32 prog" where
  "task_a_turn enc loop_count =
     Call Watchdog_Checkin (\<lambda>_.
     Call (Lock_Mutex 0) (\<lambda>_.
     Call (Unlock_Mutex 0) (\<lambda>_.
     pbind (hsm_demo enc) (\<lambda>_.
     Call (Sys_Send 1 [0xDE, 0xAD, 0xBE, 0xEF, 0x12, 0x34, 0x56, 0x78]) (\<lambda>_.
       (let loop_count = loop_count + 1;
            rest = Call Yield_Now (\<lambda>_. Ret loop_count)
        in if loop_count mod 10 = 0 then Call Dump_Metrics (\<lambda>_. rest) else rest))))))"

definition task_b_turn :: "u32 \<times> u8 list \<Rightarrow> (u32 \<times> u8 list) prog" where
  "task_b_turn = (\<lambda>(loops, rx_buf).
     Call (Sys_Recv 0 rx_buf) (\<lambda>res.
       (let rest = Call Yield_Now (\<lambda>_. Ret (loops + 1, buf res)) in
        if loops < 5 then Call Watchdog_Checkin (\<lambda>_. rest) else rest)))"

text \<open>Task C up to its final \<^verbatim>\<open>loop { yield_now() }\<close>; \<open>tc\<close> is the value of \<^verbatim>\<open>TEST_COUNTER\<close>.\<close>

definition task_c_test :: "layout \<Rightarrow> u32 \<Rightarrow> unit prog" where
  "task_c_test L tc =
     (if tc = 0 then
        Call (Lock_Mutex 0) (\<lambda>_.
        Call Yield_Now (\<lambda>_.
        Call (Unlock_Mutex 0) (\<lambda>_.
        Call Yield_Now (\<lambda>_.
        Call (Read_Volatile (TASK_A_STACK L)) (\<lambda>_. Ret ())))))
      else if tc = 1 then Call (Csrw_Mstatus 0) (\<lambda>_. Ret ())
      else Call Watchdog_Checkin (\<lambda>_. Ret ()))"

section \<open>Two tasks in conversation\<close>

text \<open>The message calls of two tasks as the kernel answers them (theories \<open>Ipc_Calls\<close> and \<open>User_Calls\<close>): a send and a receive on the same
  endpoint meet, the shorter length is transferred, the sender reads 0 and the receiver the number of bytes; a call
  without a matching capability reads -1. The rest of the system is left out.\<close>

text \<open>The endpoint behind a capability slot.\<close>

definition endpoint :: "(Capability \<Rightarrow> u8 option) \<Rightarrow> Capability list \<Rightarrow> usize \<Rightarrow> u8 option" where
  "endpoint pattern caps i = (if i < 8 then pattern (caps ! unat i) else None)"

text \<open>A request that the kernel answers without a partner: the other calls, and message calls it refuses.
  \<open>None\<close>: the caller waits.\<close>

fun own_reply :: "Capability list \<Rightarrow> request \<Rightarrow> reply option" where
  "own_reply caps (Sys_Send i msg) = (case endpoint send_cap caps i of None \<Rightarrow> Some (Reply (-1) []) | Some _ \<Rightarrow> None)"
| "own_reply caps (Sys_Recv i b) = (case endpoint recv_cap caps i of None \<Rightarrow> Some (Reply (-1) b) | Some _ \<Rightarrow> None)"
| "own_reply caps (Read_Volatile _) = None"
| "own_reply caps (Csrw_Mstatus _) = None"
| "own_reply caps _ = Some (Reply 0 [])"

text \<open>The rendezvous of a sender with a receiver.\<close>

fun meet :: "Capability list \<Rightarrow> Capability list \<Rightarrow> request \<Rightarrow> request \<Rightarrow> (reply \<times> reply) option" where
  "meet cs cr (Sys_Send i msg) (Sys_Recv j b) =
     (if endpoint send_cap cs i \<noteq> None \<and> endpoint send_cap cs i = endpoint recv_cap cr j then
        (let n = min (length msg) (length b) in Some (Reply 0 [], Reply (of_nat n) (take n msg @ drop n b)))
      else None)"
| "meet cs cr _ _ = None"

fun talk_step :: "Capability list \<Rightarrow> Capability list \<Rightarrow> 'a prog \<Rightarrow> 'b prog \<Rightarrow> ('a prog \<times> 'b prog) option" where
  "talk_step ca cb (Call r k) (Call r' k') =
     (case own_reply ca r of
        Some x \<Rightarrow> Some (k x, Call r' k')
      | None \<Rightarrow> (case own_reply cb r' of
          Some y \<Rightarrow> Some (Call r k, k' y)
        | None \<Rightarrow> (case meet ca cb r r' of
            Some (x, y) \<Rightarrow> Some (k x, k' y)
          | None \<Rightarrow> (case meet cb ca r' r of
              Some (y, x) \<Rightarrow> Some (k x, k' y)
            | None \<Rightarrow> None))))"
| "talk_step ca cb (Call r k) q = (case own_reply ca r of Some x \<Rightarrow> Some (k x, q) | None \<Rightarrow> None)"
| "talk_step ca cb p (Call r' k') = (case own_reply cb r' of Some y \<Rightarrow> Some (p, k' y) | None \<Rightarrow> None)"
| "talk_step ca cb p q = None"

text \<open>The conversation of at most \<open>n\<close> steps.\<close>

fun talk :: "nat \<Rightarrow> Capability list \<Rightarrow> Capability list \<Rightarrow> 'a prog \<Rightarrow> 'b prog \<Rightarrow> 'a prog \<times> 'b prog" where
  "talk 0 ca cb p q = (p, q)"
| "talk (Suc n) ca cb p q = (case talk_step ca cb p q of None \<Rightarrow> (p, q) | Some (p', q') \<Rightarrow> talk n ca cb p' q')"

section \<open>The two casts\<close>

text \<open>What the code relies on: the struct has \<open>FRAME_SIZE\<close> bytes and reading back the bytes of a frame gives the
  frame.\<close>

locale frame_repr =
  fixes enc :: "CanFrame \<Rightarrow> u8 list" and dec :: "u8 list \<Rightarrow> CanFrame"
  assumes size_enc: "length (payload f) = 8 \<Longrightarrow> length (enc f) = FRAME_SIZE"
    and dec_enc: "length (payload f) = 8 \<Longrightarrow> dec (enc f) = f"
begin

lemma request_fills_buffer:
  assumes "length (payload f) = 8" "length b = FRAME_SIZE"
  shows "take (min (length (enc f)) (length b)) (enc f) @ drop (min (length (enc f)) (length b)) b = enc f"
    "(of_nat (min (length (enc f)) (length b)) :: usize) = of_nat FRAME_SIZE"
  using assms size_enc by simp_all

end

text \<open>The layout with the fields in declaration order: the identifier in little-endian order, the length code, the
  payload and one byte of padding.\<close>

definition frame_bytes :: "CanFrame \<Rightarrow> u8 list" where
  "frame_bytes f = [ucast (frame_id f), ucast (drop_bit 8 (frame_id f)), dlc f] @ payload f @ [0]"

definition frame_of_bytes :: "u8 list \<Rightarrow> CanFrame" where
  "frame_of_bytes bs = \<lparr>frame_id = ucast (bs ! 0) OR push_bit 8 (ucast (bs ! 1)), dlc = bs ! 2,
     payload = take 8 (drop 3 bs)\<rparr>"

lemma word_of_two_bytes: "ucast (ucast w :: u8) OR push_bit 8 (ucast (ucast (drop_bit 8 w) :: u8)) = w" for w :: u16
proof (rule bit_word_eqI)
  fix n assume "n < LENGTH(16)"
  then consider "n < 8" | "8 \<le> n" "n < 16" by fastforce
  then show "bit (ucast (ucast w :: u8) OR push_bit 8 (ucast (ucast (drop_bit 8 w) :: u8) :: u16)) n = bit w n"
    by cases (auto simp: bit_simps)
qed

interpretation declared: frame_repr frame_bytes frame_of_bytes
  by unfold_locales (auto simp: frame_bytes_def frame_of_bytes_def FRAME_SIZE_def word_of_two_bytes)

section \<open>The signing protocol\<close>

lemma caps_endpoints [simp]:
  "endpoint send_cap task_a_caps 2 = Some 2" "endpoint recv_cap task_a_caps 3 = Some 3"
  "endpoint recv_cap hsm_caps 0 = Some 2" "endpoint send_cap hsm_caps 1 = Some 3"
  by (simp_all add: endpoint_def task_a_caps_def hsm_caps_def)

text \<open>A finished client leaves the conversation where it is.\<close>

lemma talk_stuck: "talk_step ca cb p q = None \<Longrightarrow> talk n ca cb p q = (p, q)"
  by (cases n) simp_all

lemma talk_more:
  assumes "talk m ca cb p q = (p', q')" "talk_step ca cb p' q' = None"
  shows "m \<le> n \<Longrightarrow> talk n ca cb p q = (p', q')"
  using assms
proof (induction m arbitrary: n p q)
  case (Suc m)
  obtain l where n: "n = Suc l" "m \<le> l" using Suc.prems(1) by (cases n) auto
  show ?case
  proof (cases "talk_step ca cb p q")
    case None
    then show ?thesis using Suc.prems n by simp
  next
    case (Some pq)
    then show ?thesis using Suc.IH [OF n(2), of "fst pq" "snd pq"] Suc.prems n by (simp split: prod.splits)
  qed
qed (simp add: talk_stuck)

text \<open>One request of Task A served by one turn of the HSM.\<close>

lemma request_served:
  assumes r: "frame_repr enc dec" and f: "length (payload f) = 8" and b: "length req_buf = FRAME_SIZE"
    and t: "compute_hmac_local sha f = Ok t" "length t = 8"
  shows "talk 3 task_a_caps hsm_caps (Call (Sys_Send 2 (enc f)) (\<lambda>x. if failed x then k x else Call (Sys_Recv 3 (replicate 8 0)) (k' x)))
      (pbind (hsm_turn sha dec req_buf) q) = (k' (Reply 0 []) (Reply 8 t), q (enc f))"
    "talk 3 task_a_caps hsm_caps (Call (Sys_Send 2 (enc f)) (\<lambda>x. Call (Sys_Recv 3 (replicate 8 0)) (k' x)))
      (pbind (hsm_turn sha dec req_buf) q) = (k' (Reply 0 []) (Reply 8 t), q (enc f))"
  using frame_repr.request_fills_buffer [OF r f b] frame_repr.dec_enc [OF r f] t
  by (simp_all add: hsm_turn_def numeral_3_eq_3 failed_def)

text \<open>A well-formed frame gets a tag of eight bytes.\<close>

lemma hmac_tag:
  assumes "unat (dlc f) \<le> 8" "\<And>x. length (sha x) = 32"
  obtains t where "compute_hmac_local sha f = Ok t" "length t = 8"
  using assms
  by (cases "pad_keys HMAC_KEY") (simp add: compute_hmac_local_def serialize_frame_def HMAC_TAG_LEN_def CAN_MAX_PAYLOAD_def)

lemma talk_add: "talk (m + n) ca cb p q = (case talk m ca cb p q of (p', q') \<Rightarrow> talk n ca cb p' q')"
proof (induction m arbitrary: p q)
  case (Suc m)
  then show ?case by (cases "talk_step ca cb p q") (auto simp: talk_stuck)
qed simp

lemma pbind_Ret [simp]: "pbind p Ret = p"
  by (induction p) auto

lemma pbind_if: "pbind (if b then p else q) f = (if b then pbind p f else pbind q f)"
  by simp

lemma verify_served:
  assumes "frame_repr enc dec" "length (payload (auth_frame auth)) = 8" "length req_buf = FRAME_SIZE"
    "compute_hmac_local sha (auth_frame auth) = Ok t" "length t = 8" "length (tag auth) = 8"
  shows "talk 3 task_a_caps hsm_caps (pbind (verify_frame_secure enc auth 2 3) f) (pbind (hsm_turn sha dec req_buf) q)
     = (f (t = tag auth), q (enc (auth_frame auth)))"
  using request_served(1) [OF assms(1-5), of "\<lambda>_. f False" "\<lambda>_ r. if failed r then f False else f (tags_equal (buf r) (tag auth))" q]
    assms(5,6) tags_equal_iff [of t "tag auth"]
  unfolding verify_frame_secure_def HMAC_TAG_LEN_def by (simp add: pbind_if failed_def [of "Reply 8 t"] cong: if_cong)

section \<open>Properties\<close>

text \<open>C19: verification through the HSM. Task A and one turn of the HSM partition, each with the capabilities it
  got at boot, always come to an end, and the verdict is that the tag is the HMAC of the frame under the partition's
  key; nothing else makes it true.\<close>

theorem hsm_verification_is_exact:
  assumes "frame_repr enc dec" "\<And>x. length (sha x) = 32"
    and "length (payload (auth_frame auth)) = 8" "unat (dlc (auth_frame auth)) \<le> 8" "length (tag auth) = 8"
    and "length req_buf = FRAME_SIZE" "3 \<le> n"
  shows "talk n task_a_caps hsm_caps (verify_frame_secure enc auth 2 3) (hsm_turn sha dec req_buf)
     = (Ret (compute_hmac_local sha (auth_frame auth) = Ok (tag auth)), Ret (enc (auth_frame auth)))"
proof (rule talk_more [OF _ _ assms(7)])
  obtain t where t: "compute_hmac_local sha (auth_frame auth) = Ok t" "length t = 8"
    using hmac_tag assms(2,4) by blast
  from verify_served [OF assms(1,3,6) t assms(5), of Ret Ret] t(1)
  show "talk 3 task_a_caps hsm_caps (verify_frame_secure enc auth 2 3) (hsm_turn sha dec req_buf)
     = (Ret (compute_hmac_local sha (auth_frame auth) = Ok (tag auth)), Ret (enc (auth_frame auth)))" by simp
qed simp

theorem hsm_verification_is_exact_witness:
  "talk 3 task_a_caps hsm_caps (verify_frame_secure frame_bytes \<lparr>auth_frame = test_frame, tag = replicate 8 7\<rparr> 2 3)
      (hsm_turn (\<lambda>_. replicate 32 7) frame_of_bytes (replicate 12 0)) = (Ret True, Ret (frame_bytes test_frame))"
  using hsm_verification_is_exact [OF declared.frame_repr_axioms, of "\<lambda>_. replicate 32 7"
      "\<lparr>auth_frame = test_frame, tag = replicate 8 7\<rparr>" "replicate 12 0" 3]
  by (simp add: test_frame_def FRAME_SIZE_def compute_hmac_local_def serialize_frame_def CAN_MAX_PAYLOAD_def
      HMAC_TAG_LEN_def split_beta Let_def)

text \<open>The signing demo of Task A, served by two turns of the HSM, always ends with a positive verdict.\<close>

lemma hsm_demo_succeeds:
  assumes "frame_repr enc dec" "\<And>x. length (sha x) = 32" "length req_buf = FRAME_SIZE" "6 \<le> n"
  shows "talk n task_a_caps hsm_caps (hsm_demo enc) (pbind (hsm_turn sha dec req_buf) (hsm_turn sha dec))
     = (Ret (Some True), Ret (enc test_frame))"
proof (rule talk_more [OF _ _ assms(4)])
  obtain t where t: "compute_hmac_local sha test_frame = Ok t" "length t = 8"
    using hmac_tag [of test_frame sha] assms(2) by (auto simp: test_frame_def)
  have f: "length (payload test_frame) = 8" by (simp add: test_frame_def)
  have e: "length (enc test_frame) = FRAME_SIZE" using frame_repr.size_enc [OF assms(1) f] .
  let ?auth = "\<lparr>auth_frame = test_frame, tag = t\<rparr>"
  have v: "talk 3 task_a_caps hsm_caps (pbind (verify_frame_secure enc ?auth 2 3) (\<lambda>v. Ret (Some v)))
      (hsm_turn sha dec (enc test_frame)) = (Ret (Some True), Ret (enc test_frame))"
    using verify_served [OF assms(1) _ e, where auth = ?auth and q = Ret and f = "\<lambda>v. Ret (Some v)"] t f by simp
  show "talk 6 task_a_caps hsm_caps (hsm_demo enc) (pbind (hsm_turn sha dec req_buf) (hsm_turn sha dec))
     = (Ret (Some True), Ret (enc test_frame))"
    using v talk_add [of 3 3 task_a_caps hsm_caps "hsm_demo enc" "pbind (hsm_turn sha dec req_buf) (hsm_turn sha dec)"]
    unfolding hsm_demo_def request_served(2) [OF assms(1) f assms(3) t] by (simp add: failed_def)
qed simp

text \<open>C37: a request whose length code exceeds the payload stops the HSM partition in a panic, and the client waits for
  its reply for ever: no number of steps changes the conversation any more.\<close>

theorem hsm_panics_on_bad_dlc:
  assumes "frame_repr enc dec" "length (payload (auth_frame auth)) = 8" "8 < unat (dlc (auth_frame auth))"
    and "length req_buf = FRAME_SIZE" "2 \<le> n"
  shows "\<exists>k. talk n task_a_caps hsm_caps (verify_frame_secure enc auth 2 3) (hsm_turn sha dec req_buf)
     = (Call (Sys_Recv 3 (replicate 8 0)) k, Abort IndexOutOfBounds)"
proof -
  have "compute_hmac_local sha (auth_frame auth) = Panic IndexOutOfBounds"
    using assms(3) by (cases "pad_keys HMAC_KEY") (simp add: compute_hmac_local_def serialize_frame_def CAN_MAX_PAYLOAD_def)
  with frame_repr.request_fills_buffer [OF assms(1,2,4)] frame_repr.dec_enc [OF assms(1,2)]
  obtain k where k: "talk 2 task_a_caps hsm_caps (verify_frame_secure enc auth 2 3) (hsm_turn sha dec req_buf)
     = (Call (Sys_Recv 3 (replicate 8 0)) k, Abort IndexOutOfBounds)"
    by (simp add: verify_frame_secure_def hsm_turn_def numeral_2_eq_2 failed_def HMAC_TAG_LEN_def)
  from talk_more [OF k _ assms(5)] show ?thesis by simp
qed

theorem hsm_panics_on_bad_dlc_witness:
  "\<exists>k. talk 2 task_a_caps hsm_caps
      (verify_frame_secure frame_bytes \<lparr>auth_frame = test_frame\<lparr>dlc := 9\<rparr>, tag = replicate 8 7\<rparr> 2 3)
      (hsm_turn (\<lambda>_. replicate 32 7) frame_of_bytes (replicate 12 0))
   = (Call (Sys_Recv 3 (replicate 8 0)) k, Abort IndexOutOfBounds)"
  by (rule hsm_panics_on_bad_dlc [OF declared.frame_repr_axioms]) (simp_all add: test_frame_def FRAME_SIZE_def)

end
