(* ===== verification/Startup.thy ===== *)
theory Startup
  imports User_Tasks
begin

text \<open>
  The way to the first tasks (\<^verbatim>\<open>kmain\<close> in \<^verbatim>\<open>kernel/src/main.rs\<close>) with both cores running at once: the secure-boot
  check, the self-test of the CAN stack with its metrics (\<^verbatim>\<open>kernel/src/kernel/metrics.rs\<close>), and the handshake over
  \<^verbatim>\<open>BOOT_BARRIER\<close> and \<^verbatim>\<open>CORE_1_READY\<close>. Each core is a sequence of steps between its accesses to the two flags; a
  turn of a spin loop is a step. The model ends when both first tasks have been started; traps that the core started
  first takes before that are not part of it.
\<close>

section \<open>Metrics\<close>

record metrics =
  metric_switch_cycles :: u32
  metric_frames_rx :: u32
  metric_frames_dropped :: u32
  metric_hmac_failures :: u32
  metric_can_parse_cycles :: u32
  metric_can_queue_cycles :: u32
  metric_hmac_verify_cycles :: u32

definition metrics_new :: metrics where
  "metrics_new = \<lparr>metric_switch_cycles = 0, metric_frames_rx = 0, metric_frames_dropped = 0, metric_hmac_failures = 0,
     metric_can_parse_cycles = 0, metric_can_queue_cycles = 0, metric_hmac_verify_cycles = 0\<rparr>"

text \<open>The lines of the dashboard; interrupt latency and PMP violations are kept with the kernel.\<close>

definition dump_metrics :: "kernel \<Rightarrow> metrics \<Rightarrow> (string \<times> u32) list" where
  "dump_metrics s m =
     [(''Interrupt Latency'', metric_trap_latency s),
      (''Context Switch Cycles'', metric_switch_cycles m),
      (''CAN Frames Received'', metric_frames_rx m),
      (''CAN Frames Dropped'', metric_frames_dropped m),
      (''HMAC Auth Failures'', metric_hmac_failures m),
      (''PMP Memory Violations'', metric_pmp_violations s),
      (''CAN Parse Overhead'', metric_can_parse_cycles m),
      (''SPSC Queue Overhead'', metric_can_queue_cycles m),
      (''HMAC Verify Overhead'', metric_hmac_verify_cycles m)]"

section \<open>The self-test\<close>

text \<open>The readings of the cycle counter around the parser and around the queue.\<close>

record cycle_readings =
  start_parse :: u32
  end_parse :: u32
  start_queue :: u32
  end_queue :: u32

text \<open>What the test logs.\<close>

datatype report = Valid CanFrame bool "CanFrame option" | Blocked_Frame u16 | Rejected_Dlc u8 | Queue_Full

text \<open>A computation on a fresh queue that is dropped afterwards.\<close>

definition with_new_queue :: "(CanRingBuffer, 'a) km \<Rightarrow> ('s, 'a) km" where
  "with_new_queue body = (\<lambda>s. case body ring_new of (_, r) \<Rightarrow> (s, r))"

definition push_and_pop :: "CanFrame \<Rightarrow> (CanRingBuffer, bool \<times> CanFrame option) km" where
  "push_and_pop frame =
     kbind (ring_push frame) (\<lambda>pushed.
       case pushed of
         Inr _ \<Rightarrow> kbind ring_pop (\<lambda>popped. kret (True, popped))
       | Inl _ \<Rightarrow> kret (False, None))"

text \<open>The test of a raw frame, and the frame that \<^verbatim>\<open>verify_network_and_security\<close> builds.\<close>

definition receive_frame :: "u8 list \<Rightarrow> cycle_readings \<Rightarrow> (metrics, report) km" where
  "receive_frame raw cyc =
     kseq (kmodify (\<lambda>m. m\<lparr>metric_can_parse_cycles := end_parse cyc - start_parse cyc\<rparr>))
     (case parse raw of
        Inr frame \<Rightarrow>
          kseq (kmodify (\<lambda>m. m\<lparr>metric_frames_rx := metric_frames_rx m + 1\<rparr>))
         (kbind (with_new_queue (push_and_pop frame)) (\<lambda>(push_ok, popped).
          kseq (kmodify (\<lambda>m. m\<lparr>metric_can_queue_cycles := end_queue cyc - start_queue cyc\<rparr>))
               (kret (Valid frame push_ok popped))))
      | Inl (BlockedId i) \<Rightarrow>
          kseq (kmodify (\<lambda>m. m\<lparr>metric_frames_dropped := metric_frames_dropped m + 1\<rparr>)) (kret (Blocked_Frame i))
      | Inl (InvalidDlc d) \<Rightarrow> kret (Rejected_Dlc d)
      | Inl BufferFull \<Rightarrow> kret Queue_Full)"

definition self_test_raw :: "u8 list" where
  "self_test_raw = (replicate 13 0)[0 := 0x3E, 1 := 0x00, 2 := 4, 3 := 0xAA, 4 := 0xBB, 5 := 0xCC, 6 := 0xDD]"

definition verify_network_and_security :: "cycle_readings \<Rightarrow> (metrics, report) km" where
  "verify_network_and_security = receive_frame self_test_raw"

lemma push_and_pop_new: "\<exists>r. push_and_pop f ring_new = (r, Ok (True, Some f))"
  by (simp add: push_and_pop_def kdefs ring_push_def ring_pop_def is_full_def is_empty_def ring_new_def RING_CAPACITY_def)

lemma new_queue_run: "with_new_queue (push_and_pop f) s = (s, Ok (True, Some f))"
  using push_and_pop_new [of f] by (auto simp: with_new_queue_def)

lemma self_test_parse:
  "parse self_test_raw = Inr \<lparr>frame_id = 0x1F0, dlc = 4, payload = [0xAA, 0xBB, 0xCC, 0xDD, 0, 0, 0, 0]\<rparr>"
  by code_simp

section \<open>Both cores\<close>

datatype core0_pc = Start0 | Halted | Release | Await_Core1 | Launch0 | Runs0 usize
datatype core1_pc = Await_Core0 | Start1 | Signal | Launch1 | Runs1 usize

record startup =
  kern :: kernel
  mets :: metrics
  boot_barrier :: bool
  core_1_ready :: bool
  pc0 :: core0_pc
  pc1 :: core1_pc

text \<open>What the cores read from outside: the hash function, the addresses, the timers and the cycle counter.\<close>

record startup_env =
  sha256 :: "u8 list \<Rightarrow> u8 list"
  lay :: layout
  entries :: entry_points
  mtime0 :: u64
  mtime1 :: u64
  readings :: cycle_readings

definition startup_new :: "mem \<Rightarrow> startup \<Rightarrow> bool" where
  "startup_new m s \<longleftrightarrow> s = \<lparr>kern = reset_kernel m, mets = metrics_new, boot_barrier = False, core_1_ready = False,
     pc0 = Start0, pc1 = Await_Core0\<rparr>"

text \<open>The next step of a core; \<open>None\<close> when it runs its first task, or has panicked.\<close>

definition core0_step :: "startup_env \<Rightarrow> startup \<Rightarrow> startup option" where
  "core0_step v s = (case pc0 s of
       Start0 \<Rightarrow>
         (case kmain_core0 (verify_secure_boot (sha256 v)) (lay v) (entries v) (mtime0 v) (kern s) of
            (k, Ok True) \<Rightarrow>
              (case verify_network_and_security (readings v) (mets s) of
                 (m, Ok _) \<Rightarrow> Some (s\<lparr>kern := k, mets := m, pc0 := Release\<rparr>)
               | _ \<Rightarrow> None)
          | (k, Ok False) \<Rightarrow> Some (s\<lparr>kern := k, pc0 := Halted\<rparr>)
          | _ \<Rightarrow> None)
     | Halted \<Rightarrow> Some s
     | Release \<Rightarrow> Some (s\<lparr>boot_barrier := True, pc0 := Await_Core1\<rparr>)
     | Await_Core1 \<Rightarrow> Some (if core_1_ready s then s\<lparr>pc0 := Launch0\<rparr> else s)
     | Launch0 \<Rightarrow>
         (case start_first_task 0 (lay v) (kern s) of
            (k, Ok sp) \<Rightarrow> Some (s\<lparr>kern := k, pc0 := Runs0 sp\<rparr>)
          | _ \<Rightarrow> None)
     | Runs0 _ \<Rightarrow> None)"

definition core1_step :: "startup_env \<Rightarrow> startup \<Rightarrow> startup option" where
  "core1_step v s = (case pc1 s of
       Await_Core0 \<Rightarrow> Some (if boot_barrier s then s\<lparr>pc1 := Start1\<rparr> else s)
     | Start1 \<Rightarrow>
         (case kmain_core1 (lay v) (mtime1 v) (kern s) of
            (k, Ok _) \<Rightarrow> Some (s\<lparr>kern := k, pc1 := Signal\<rparr>)
          | _ \<Rightarrow> None)
     | Signal \<Rightarrow> Some (s\<lparr>core_1_ready := True, pc1 := Launch1\<rparr>)
     | Launch1 \<Rightarrow>
         (case start_first_task 1 (lay v) (kern s) of
            (k, Ok sp) \<Rightarrow> Some (s\<lparr>kern := k, pc1 := Runs1 sp\<rparr>)
          | _ \<Rightarrow> None)
     | Runs1 _ \<Rightarrow> None)"

inductive startup_step :: "startup_env \<Rightarrow> startup \<Rightarrow> startup \<Rightarrow> bool" for v where
  core0: "core0_step v s = Some t \<Longrightarrow> startup_step v s t"
| core1: "core1_step v s = Some t \<Longrightarrow> startup_step v s t"

inductive_cases startup_stepE: "startup_step v s t"

text \<open>The steps that are left, apart from turns of the spin loops.\<close>

fun left0 :: "core0_pc \<Rightarrow> nat" where
  "left0 Start0 = 4" | "left0 Release = 3" | "left0 Await_Core1 = 2" | "left0 Launch0 = 1" | "left0 _ = 0"

fun left1 :: "core1_pc \<Rightarrow> nat" where
  "left1 Await_Core0 = 4" | "left1 Start1 = 3" | "left1 Signal = 2" | "left1 Launch1 = 1" | "left1 _ = 0"

definition remaining :: "startup \<Rightarrow> nat" where
  "remaining s = left0 (pc0 s) + left1 (pc1 s)"

section \<open>The invariant\<close>

text \<open>The kernel as a function of the two positions: the stages that the cores have passed, in the order of \<open>boot\<close>.\<close>

definition stage :: "startup_env \<Rightarrow> mem \<Rightarrow> core0_pc \<Rightarrow> core1_pc \<Rightarrow> kernel" where
  "stage v m p0 p1 =
     (let k = (if p0 = Start0 then reset_kernel m
               else fst (kmain_core0 True (lay v) (entries v) (mtime0 v) (reset_kernel m)));
          k = (if left1 p1 \<le> 2 then fst (kmain_core1 (lay v) (mtime1 v) k) else k);
          k = (if left1 p1 = 0 then fst (start_first_task 1 (lay v) k) else k)
      in if left0 p0 = 0 then fst (start_first_task 0 (lay v) k) else k)"

text \<open>Where the cores can be at the same time, and the flags there.\<close>

definition positions :: "layout \<Rightarrow> (core0_pc \<times> core1_pc \<times> bool \<times> bool) set" where
  "positions L = (let r0 = Runs0 (frame_top (TASK_WD_STACK L)); r1 = Runs1 (frame_top (TASK_B_STACK L)) in
     {(Start0, Await_Core0, False, False), (Release, Await_Core0, False, False),
      (Await_Core1, Await_Core0, True, False), (Await_Core1, Start1, True, False), (Await_Core1, Signal, True, False),
      (Await_Core1, Launch1, True, True), (Await_Core1, r1, True, True), (Launch0, Launch1, True, True),
      (Launch0, r1, True, True), (r0, Launch1, True, True), (r0, r1, True, True)})"

definition passed :: "startup_env \<Rightarrow> mem \<Rightarrow> startup \<Rightarrow> bool" where
  "passed v m s \<longleftrightarrow> kern s = stage v m (pc0 s) (pc1 s)
     \<and> (pc0 s, pc1 s, boot_barrier s, core_1_ready s) \<in> positions (lay v)"

definition stopped :: "startup \<Rightarrow> bool" where
  "stopped s \<longleftrightarrow> pc0 s \<in> {Start0, Halted} \<and> pc1 s = Await_Core0 \<and> \<not> boot_barrier s \<and> \<not> core_1_ready s
     \<and> schedulers (kern s) = [scheduler_new, scheduler_new] \<and> mtimecmp (kern s) = (\<lambda>_. 0)
     \<and> (pc0 s = Start0 \<longrightarrow> pmp (kern s) 0 = pmp_reset)"

definition startup_inv :: "startup_env \<Rightarrow> mem \<Rightarrow> startup \<Rightarrow> bool" where
  "startup_inv v m s = (if verify_secure_boot (sha256 v) then passed v m s else stopped s)"

lemma self_test_runs: "\<exists>m' r. verify_network_and_security cyc m = (m', Ok r)"
  by (simp add: verify_network_and_security_def receive_frame_def self_test_parse kdefs new_queue_run)

lemma stages:
  fixes v m
  defines "L \<equiv> lay v" and "sp0 \<equiv> frame_top (TASK_WD_STACK (lay v))" and "sp1 \<equiv> frame_top (TASK_B_STACK (lay v))"
  obtains k0 k1 k2 x b where
    "kmain_core0 True L (entries v) (mtime0 v) (reset_kernel m) = (k0, Ok True)"
    "kmain_core1 L (mtime1 v) k0 = (k1, Ok ())"
    "start_first_task 1 L k1 = (k2, Ok sp1)" "start_first_task 0 L k2 = (b, Ok sp0)"
    "start_first_task 0 L k1 = (x, Ok sp0)" "start_first_task 1 L x = (b, Ok sp1)"
    "boot L (entries v) (mtime0 v) (mtime1 v) (reset_kernel m) = (b, Ok (sp0, sp1))"
    "stage v m Start0 Await_Core0 = reset_kernel m" "stage v m Release Await_Core0 = k0"
    "stage v m Await_Core1 Await_Core0 = k0" "stage v m Await_Core1 Start1 = k0"
    "\<And>p. p \<in> {Await_Core1, Launch0} \<Longrightarrow> stage v m p Signal = k1"
    "\<And>p. p \<in> {Await_Core1, Launch0} \<Longrightarrow> stage v m p Launch1 = k1"
    "\<And>p. p \<in> {Await_Core1, Launch0} \<Longrightarrow> stage v m p (Runs1 sp1) = k2"
    "stage v m (Runs0 sp0) Launch1 = x" "stage v m (Runs0 sp0) (Runs1 sp1) = b"
proof (rule boot_stages [of "lay v" "entries v" "mtime0 v" m "mtime1 v"], goal_cases)
  case (1 k0 k1 k2 x b _ _)
  then show ?thesis
    by (intro that [of k0 k1 k2 b x]) (auto simp: L_def sp0_def sp1_def stage_def)
qed

lemma core0_passed:
  assumes p: "passed v m s" and t: "core0_step v s \<noteq> None" and ok: "verify_secure_boot (sha256 v)"
  shows "passed v m (the (core0_step v s))"
proof (rule stages [of v m], goal_cases)
  case K: (1 k0 k1 k2 x b)
  obtain m' r where T: "verify_network_and_security (readings v) (mets s) = (m', Ok r)"
    using self_test_runs by blast
  have k: "kern s = stage v m (pc0 s) (pc1 s)"
    and "(pc0 s, pc1 s, boot_barrier s, core_1_ready s) \<in> positions (lay v)" using p by (auto simp: passed_def)
  from this(2) show ?case
    unfolding positions_def Let_def
    by (elim insertE) (use t k T ok K in \<open>simp_all add: passed_def core0_step_def positions_def Let_def\<close>)
qed

lemma core1_passed:
  assumes p: "passed v m s" and t: "core1_step v s \<noteq> None"
  shows "passed v m (the (core1_step v s))"
proof (rule stages [of v m], goal_cases)
  case K: (1 k0 k1 k2 x b)
  have k: "kern s = stage v m (pc0 s) (pc1 s)"
    and "(pc0 s, pc1 s, boot_barrier s, core_1_ready s) \<in> positions (lay v)" using p by (auto simp: passed_def)
  from this(2) show ?case
    unfolding positions_def Let_def
    by (elim insertE) (use t k K in \<open>simp_all add: passed_def core1_step_def positions_def Let_def\<close>)
qed

lemma core_steps:
  assumes "passed v m s" "verify_secure_boot (sha256 v)" "left0 (pc0 s) + left1 (pc1 s) \<noteq> 0"
  shows "\<exists>t. startup_step v s t \<and> remaining t < remaining s"
proof (rule stages [of v m], goal_cases)
  case K: (1 k0 k1 k2 x b)
  obtain m' r where T: "verify_network_and_security (readings v) (mets s) = (m', Ok r)"
    using self_test_runs by blast
  have k: "kern s = stage v m (pc0 s) (pc1 s)"
    and "(pc0 s, pc1 s, boot_barrier s, core_1_ready s) \<in> positions (lay v)" using assms(1) by (auto simp: passed_def)
  from this(2) have "(\<exists>t. core0_step v s = Some t \<and> remaining t < remaining s)
      \<or> (\<exists>t. core1_step v s = Some t \<and> remaining t < remaining s)"
    unfolding positions_def Let_def
    by (elim insertE) (use k T assms(2,3) K in \<open>simp_all add: core0_step_def core1_step_def remaining_def\<close>)
  then show ?case using startup_step.intros by blast
qed

lemma remaining_step: "startup_step v s t \<Longrightarrow> remaining t \<le> remaining s"
  by (elim startup_stepE)
    (auto simp: core0_step_def core1_step_def remaining_def split: core0_pc.splits core1_pc.splits if_splits
      prod.splits res.splits bool.splits)

lemma stopped_step:
  assumes "stopped s" "startup_step v s t" "\<not> verify_secure_boot (sha256 v)"
  shows "stopped t"
proof (cases "pc0 s = Start0 \<and> core1_step v s \<noteq> Some t")
  case True
  have "pmp (kern s) 0 = pmp_reset" using assms(1) True by (simp add: stopped_def)
  then obtain r where "init_protection 0 (lay v) (kern s) = ((kern s)\<lparr>pmp := (pmp (kern s))(0 := r)\<rparr>, Ok ())"
    by (rule init_protection_run)
  moreover have "core0_step v s = Some t" using assms(2) True by (auto elim: startup_stepE)
  ultimately show ?thesis
    using assms(1,3) True by (auto simp: stopped_def core0_step_def kmain_core0_def kdefs)
next
  case False
  then show ?thesis
    using assms(1,2) by (auto simp: stopped_def core0_step_def core1_step_def elim!: startup_stepE)
qed

interpretation startup: inductive_invariant "startup_new m" "startup_step v" "startup_inv v m" for v m
proof
  fix s assume "startup_new m s"
  then show "startup_inv v m s"
    by (simp add: startup_inv_def startup_new_def stopped_def passed_def positions_def Let_def stage_def reset_kernel_def)
next
  fix s t assume i: "startup_inv v m s" and s: "startup_step v s t"
  show "startup_inv v m t"
  proof (cases "verify_secure_boot (sha256 v)")
    case True
    with i have p: "passed v m s" by (simp add: startup_inv_def)
    from s have "passed v m t"
      by (cases rule: startup_step.cases) (use core0_passed [OF p _ True] core1_passed [OF p] in fastforce)+
    with True show ?thesis by (simp add: startup_inv_def)
  next
    case False
    with i s show ?thesis using stopped_step by (simp add: startup_inv_def)
  qed
qed

section \<open>Properties\<close>

text \<open>What the self-test does with a raw frame. It never panics; a frame that the parser accepts is counted, and
  comes back from the queue unchanged; a blocked one is counted as dropped; one with a bad length is reported and
  nothing is counted. The frame of the boot test is accepted, with identifier \<open>0x1F0\<close>.\<close>

lemma self_test_correct:
  "receive_frame raw cyc m =
     (let m1 = m\<lparr>metric_can_parse_cycles := end_parse cyc - start_parse cyc\<rparr> in
      case parse raw of
        Inr frame \<Rightarrow> (m1\<lparr>metric_frames_rx := metric_frames_rx m + 1,
            metric_can_queue_cycles := end_queue cyc - start_queue cyc\<rparr>, Ok (Valid frame True (Some frame)))
      | Inl (BlockedId i) \<Rightarrow> (m1\<lparr>metric_frames_dropped := metric_frames_dropped m + 1\<rparr>, Ok (Blocked_Frame i))
      | Inl (InvalidDlc d) \<Rightarrow> (m1, Ok (Rejected_Dlc d))
      | Inl BufferFull \<Rightarrow> (m1, Ok Queue_Full))
   \<and> snd (verify_network_and_security cyc m) = Ok (let f = \<lparr>frame_id = 0x1F0, dlc = 4,
         payload = [0xAA, 0xBB, 0xCC, 0xDD, 0, 0, 0, 0]\<rparr> in Valid f True (Some f))"
  by (auto simp: receive_frame_def verify_network_and_security_def self_test_parse kdefs new_queue_run Let_def
      split: sum.split CanError.split)

text \<open>C17: the handshake of the two cores cannot get stuck, however their steps interleave. If the secure-boot
  check passes, then in every state they can reach both run their first tasks and the kernel is the one that the
  sequential boot leaves, or one of them has a step that shortens what is left; no step lengthens it.\<close>

theorem boot_handshake_completes:
  assumes "reach (startup_new m) (startup_step v) s" "verify_secure_boot (sha256 v)"
  shows "((\<exists>sp0 sp1. pc0 s = Runs0 sp0 \<and> pc1 s = Runs1 sp1
        \<and> boot (lay v) (entries v) (mtime0 v) (mtime1 v) (reset_kernel m) = (kern s, Ok (sp0, sp1)))
      \<or> (\<exists>t. startup_step v s t \<and> remaining t < remaining s))
    \<and> (\<forall>t. startup_step v s t \<longrightarrow> remaining t \<le> remaining s)"
proof -
  have p: "passed v m s" using startup.reach_inv [OF assms(1)] assms(2) by (simp add: startup_inv_def)
  show ?thesis
  proof (cases "left0 (pc0 s) + left1 (pc1 s) = 0")
    case True
    obtain b where "boot (lay v) (entries v) (mtime0 v) (mtime1 v) (reset_kernel m)
        = (b, Ok (frame_top (TASK_WD_STACK (lay v)), frame_top (TASK_B_STACK (lay v))))"
      "stage v m (Runs0 (frame_top (TASK_WD_STACK (lay v)))) (Runs1 (frame_top (TASK_B_STACK (lay v)))) = b"
      by (rule stages [of v m]) blast
    with p True remaining_step show ?thesis by (auto simp: passed_def positions_def Let_def)
  next
    case False
    with p assms(2) show ?thesis using core_steps remaining_step by blast
  qed
qed

theorem boot_handshake_completes_witness:
  "\<exists>t. startup_step \<lparr>sha256 = (\<lambda>_. EXPECTED_HASH), lay = demo_layout, entries = demo_entries, mtime0 = 0, mtime1 = 0,
        readings = \<lparr>start_parse = 0, end_parse = 9, start_queue = 10, end_queue = 19\<rparr>\<rparr>
      \<lparr>kern = reset_kernel (\<lambda>_. 0), mets = metrics_new, boot_barrier = False, core_1_ready = False,
        pc0 = Start0, pc1 = Await_Core0\<rparr> t
    \<and> remaining t < 8"
proof -
  let ?v = "\<lparr>sha256 = (\<lambda>_. EXPECTED_HASH), lay = demo_layout, entries = demo_entries, mtime0 = 0, mtime1 = 0,
        readings = \<lparr>start_parse = 0, end_parse = 9, start_queue = 10, end_queue = 19\<rparr>\<rparr>"
  let ?s = "\<lparr>kern = reset_kernel (\<lambda>_. 0), mets = metrics_new, boot_barrier = False, core_1_ready = False,
        pc0 = Start0, pc1 = Await_Core0\<rparr>"
  have "reach (startup_new (\<lambda>_. 0)) (startup_step ?v) ?s" by (rule reach_init) (simp add: startup_new_def)
  moreover have "verify_secure_boot (sha256 ?v)" by (simp add: verify_secure_boot_def sha256_matches_def linkage_holds)
  ultimately show ?thesis using boot_handshake_completes [of "\<lambda>_. 0" ?v ?s] by (simp add: remaining_def)
qed

text \<open>C18: a failed secure-boot check stops the system for good. Whatever the cores do, no task is registered on either
  core, no timer is armed, core 1 is never released from its spin loop and core 0 runs no task.\<close>

theorem failed_check_stops_boot:
  assumes "reach (startup_new m) (startup_step v) s" "sha256 v TRUSTED_PAYLOAD \<noteq> EXPECTED_HASH"
  shows "schedulers (kern s) = [scheduler_new, scheduler_new] \<and> mtimecmp (kern s) = (\<lambda>_. 0)
    \<and> pc1 s = Await_Core0 \<and> \<not> boot_barrier s \<and> pc0 s \<in> {Start0, Halted}"
  using startup.reach_inv [OF assms(1)] assms(2)
  by (simp add: startup_inv_def stopped_def verify_secure_boot_def sha256_matches_def)

theorem failed_check_stops_boot_witness:
  "\<exists>s. core0_step \<lparr>sha256 = (\<lambda>_. []), lay = demo_layout, entries = demo_entries, mtime0 = 0, mtime1 = 0,
        readings = \<lparr>start_parse = 0, end_parse = 9, start_queue = 10, end_queue = 19\<rparr>\<rparr>
      \<lparr>kern = reset_kernel (\<lambda>_. 0), mets = metrics_new, boot_barrier = False, core_1_ready = False,
        pc0 = Start0, pc1 = Await_Core0\<rparr> = Some s \<and> pc0 s = Halted
    \<and> schedulers (kern s) = [scheduler_new, scheduler_new] \<and> \<not> boot_barrier s"
proof -
  let ?v = "\<lparr>sha256 = (\<lambda>_. []), lay = demo_layout, entries = demo_entries, mtime0 = 0, mtime1 = 0,
        readings = \<lparr>start_parse = 0, end_parse = 9, start_queue = 10, end_queue = 19\<rparr>\<rparr>"
  let ?s = "\<lparr>kern = reset_kernel (\<lambda>_. 0), mets = metrics_new, boot_barrier = False, core_1_ready = False,
        pc0 = Start0, pc1 = Await_Core0\<rparr>"
  have bad: "sha256 ?v TRUSTED_PAYLOAD \<noteq> EXPECTED_HASH" by (simp add: EXPECTED_HASH_def)
  obtain r where "init_protection 0 demo_layout (kern ?s) = ((kern ?s)\<lparr>pmp := (pmp (kern ?s))(0 := r)\<rparr>, Ok ())"
    by (rule init_protection_run [of "kern ?s" 0 demo_layout]) (simp_all add: reset_kernel_def)
  then obtain s where s: "core0_step ?v ?s = Some s" "pc0 s = Halted"
    using bad by (simp add: core0_step_def kmain_core0_def kdefs verify_secure_boot_def sha256_matches_def)
  have "reach (startup_new (\<lambda>_. 0)) (startup_step ?v) s"
    by (rule reach_step [of _ _ ?s]) (simp_all add: reach_init startup_new_def startup_step.core0 s(1))
  from failed_check_stops_boot [OF this bad] s show ?thesis by blast
qed

end
