(* ===== verification/Watchdog.thy ===== *)
theory Watchdog
  imports Boot
begin

text \<open>
  The watchdog task (\<^verbatim>\<open>watchdog_task\<close> in \<^verbatim>\<open>kernel/src/main.rs\<close>): the health check of the four
  monitored tasks, the termination of a task that failed it, and the restart of Task C and of the
  HSM task. It runs in user mode on core 0 and takes \<^verbatim>\<open>SCHED_LOCK\<close> itself. The system calls of
  the tasks enter the kernel through \<open>ecall\<close>: the trap entry stores the registers, then the
  handler runs.
\<close>

section \<open>The health check\<close>

text \<open>A task that never checked in has a grace period of 1000 ticks, then 200.\<close>

definition checkin_failed :: "u32 \<Rightarrow> u32 \<Rightarrow> bool" where
  "checkin_failed current_tick last_checkin =
     (let elapsed = (if last_checkin = 0 then current_tick else current_tick - last_checkin);
          timeout = (if last_checkin = 0 then 1000 else 200)
      in elapsed > timeout)"

text \<open>One check; the accumulator is \<^verbatim>\<open>failed_task\<close>, \<open>None\<close> while \<^verbatim>\<open>check_failed\<close> is false.\<close>

definition check_task :: "u32 \<Rightarrow> nat \<Rightarrow> nat \<Rightarrow> string option \<Rightarrow> (kernel, string option) km" where
  "check_task current_tick h i failed_task =
     kbind (peek_tcb h i) (\<lambda>entry.
       case entry of
         None \<Rightarrow> kret failed_task
       | Some tcb \<Rightarrow>
           if task_state tcb \<noteq> Terminated then
             kbind (kgets last_checkin_tick) (\<lambda>ticks.
             kbind (kindex ticks i) (\<lambda>last_checkin.
               kret (if checkin_failed current_tick last_checkin then Some (task_name tcb)
                     else failed_task)))
           else kret failed_task)"

definition health_check :: "u32 \<Rightarrow> (kernel, string option) km" where
  "health_check current_tick =
     kbind (check_task current_tick 0 1 None) (\<lambda>f.
     kbind (check_task current_tick 1 2 f) (\<lambda>f.
     kbind (check_task current_tick 1 3 f) (\<lambda>f.
     check_task current_tick 0 4 f)))"

definition failed_prio :: "string \<Rightarrow> usize" where
  "failed_prio failed_task =
     (if failed_task = ''Task A'' then 1
      else if failed_task = ''Task B'' then 2
      else if failed_task = ''HSM Task'' then 4
      else 3)"

section \<open>System calls from user mode\<close>

definition ecall :: "trap_env \<Rightarrow> usize \<Rightarrow> cpu_context \<Rightarrow> (kernel, usize) km" where
  "ecall e start_cycle c = (\<lambda>s.
     case trap_entry_save c (ram s) of
       (m, sp) \<Rightarrow> trap_handler e 8 sp start_cycle (s\<lparr>ram := m\<rparr>))"

text \<open>\<^verbatim>\<open>sys_terminate_task(prio)\<close>: \<^verbatim>\<open>a7 = 8\<close>, \<^verbatim>\<open>a0 = prio\<close>.\<close>

definition sys_terminate_task :: "trap_env \<Rightarrow> usize \<Rightarrow> cpu_context \<Rightarrow> usize \<Rightarrow> (kernel, usize) km" where
  "sys_terminate_task e start_cycle c prio =
     ecall e start_cycle (c\<lparr>regs := (regs c)(17 := 8, 10 := prio)\<rparr>)"

section \<open>Restarts\<close>

definition restart_slot :: "nat \<Rightarrow> nat \<Rightarrow> usize \<Rightarrow> usize \<Rightarrow> (kernel, unit) km" where
  "restart_slot h i stack entry_fn =
     kbind (init_task_stack stack entry_fn) (\<lambda>sp.
     kseq (kmodify (upd_tcb h i (\<lambda>tcb. set_state Ready (tcb\<lparr>saved_sp := sp\<rparr>))))
    (kbind (kgets last_checkin_tick) (\<lambda>ticks.
     kbind (kindex ticks i) (\<lambda>_.
     kmodify (\<lambda>s. s\<lparr>last_checkin_tick := (last_checkin_tick s)[i := 0]\<rparr>)))))"

definition restart_task_c :: "layout \<Rightarrow> entry_points \<Rightarrow> (kernel, unit) km" where
  "restart_task_c L ep =
     kbind (peek_tcb 1 3) (\<lambda>entry.
       case entry of
         None \<Rightarrow> kret ()
       | Some tcb \<Rightarrow>
           kbind (kgets test_counter) (\<lambda>n.
             if task_state tcb = Terminated \<and> n < 2 then
               kseq (kmodify (\<lambda>s. s\<lparr>test_counter := test_counter s + 1\<rparr>))
                    (restart_slot 1 3 (TASK_C_STACK L) (task_c ep))
             else kret ()))"

definition restart_hsm :: "layout \<Rightarrow> entry_points \<Rightarrow> (kernel, unit) km" where
  "restart_hsm L ep =
     kbind (peek_tcb 0 4) (\<lambda>entry.
       case entry of
         None \<Rightarrow> kret ()
       | Some tcb \<Rightarrow>
           if task_state tcb = Terminated then restart_slot 0 4 (HSM_STACK L) (hsm_task ep)
           else kret ())"

text \<open>One turn of the watchdog's loop after its sleep.\<close>

definition watchdog_round :: "trap_env \<Rightarrow> usize \<Rightarrow> cpu_context \<Rightarrow> entry_points \<Rightarrow> (kernel, unit) km" where
  "watchdog_round e start_cycle c ep =
     kbind (kgets tick_count) (\<lambda>current_tick.
     sched_guard 0 (
       kbind (health_check current_tick) (\<lambda>failed_task.
       kseq (case failed_task of
               None \<Rightarrow> kret ()
             | Some name \<Rightarrow>
                 kbind (sys_terminate_task e start_cycle c (failed_prio name)) (\<lambda>_. kret ()))
      (kseq (restart_task_c (stacks e) ep)
            (restart_hsm (stacks e) ep)))))"

section \<open>Safety\<close>

lemma settled_trans: "settled L s s' \<Longrightarrow> settled L s' s'' \<Longrightarrow> settled L s s''"
  by (simp add: settled_def)

lemma settled_refl: "kinv L s \<Longrightarrow> settled L s s"
  by (simp add: settled_def)

lemma check_task_wp:
  assumes k: "kinv L s" and i: "h < 2" "i < 32" and Q: "\<And>f. Q f s"
  shows "wp (check_task tick h i f) Q E s"
proof -
  have "length (last_checkin_tick s) = 32" using kinvD(3) [OF k, of 0] by simp
  then show ?thesis
    using i Q by (auto simp: check_task_def kvc peek_tcb_wp [OF k] split: option.split)
qed

lemma health_check_wp:
  assumes "kinv L s" and "\<And>f. Q f s"
  shows "wp (health_check tick) Q E s"
  unfolding health_check_def wp_kbind
  by (intro check_task_wp [OF assms(1)] assms(2)) simp_all

lemma upd_tcb_checkin:
  "upd_tcb h i f s\<lparr>last_checkin_tick := ts\<rparr> = upd_tcb h i f (s\<lparr>last_checkin_tick := ts\<rparr>)"
  by (simp add: upd_tcb_def upd_sched_def)

lemma restart_slot_wp:
  assumes k: "kinv L s" and h: "h < 2" "i < 32"
    and Q: "\<And>s'. settled L s s' \<Longrightarrow>
      s' = upd_tcb h i (\<lambda>tcb. set_state Ready (tcb\<lparr>saved_sp := frame_top stack\<rparr>))
        (s\<lparr>ram := fst (initialize_stack stack 1024 fn (ram s)),
           last_checkin_tick := (last_checkin_tick s)[i := 0]\<rparr>) \<Longrightarrow> Q () s'"
  shows "wp (restart_slot h i stack fn) Q E s"
proof -
  let ?f = "\<lambda>tcb. set_state Ready (tcb\<lparr>saved_sp := frame_top stack\<rparr>)"
  let ?s0 = "s\<lparr>ram := fst (initialize_stack stack 1024 fn (ram s))\<rparr>"
  let ?s' = "upd_tcb h i ?f (?s0\<lparr>last_checkin_tick := (last_checkin_tick s)[i := 0]\<rparr>)"
  have len: "length (last_checkin_tick s) = 32" using kinvD(3) [OF k, of 0] by simp
  have "kinv L (?s0\<lparr>last_checkin_tick := (last_checkin_tick s)[i := 0]\<rparr>)"
    using k kinv_cong [of "?s0\<lparr>last_checkin_tick := (last_checkin_tick s)[i := 0]\<rparr>" s] by simp
  then have "kinv L ?s'" by (rule kinv_upd_tcb [OF _ h(1)]) (simp add: benign_def)
  then have "Q () ?s'" by (intro Q refl) (simp add: settled_def)
  then show ?thesis
    using len h by (simp add: restart_slot_def wp_kbind [of "init_task_stack _ _"]
        wp_def [of "init_task_stack _ _"] init_task_stack_run kvc upd_tcb_checkin)
qed

lemma restart_task_c_safe:
  assumes "kinv L s"
  shows "wp (restart_task_c L ep) (\<lambda>_. settled L s) E s"
proof -
  have "wp (restart_slot 1 3 (TASK_C_STACK L) (task_c ep)) (\<lambda>_. settled L s) E
      (s\<lparr>test_counter := test_counter s + 1\<rparr>)"
    by (rule restart_slot_wp [of L]) (use assms in \<open>simp_all add: settled_def\<close>)
  then show ?thesis
    using settled_refl [OF assms]
    by (auto simp: restart_task_c_def kvc peek_tcb_wp [OF assms] split: option.split)
qed

lemma restart_hsm_wp:
  assumes k: "kinv L s" and Q: "\<And>s'. settled L s s' \<Longrightarrow>
      (\<forall>t. tcb_at s' 0 4 = Some t \<longrightarrow> task_state t \<noteq> Terminated) \<Longrightarrow> Q () s'"
  shows "wp (restart_hsm L ep) Q E s"
proof -
  have len: "0 < length (schedulers s)" using kinvD(1) [OF k, of 0] by simp
  have "wp (restart_slot 0 4 (HSM_STACK L) (hsm_task ep)) Q E s"
    by (rule restart_slot_wp [OF k]) (use len in \<open>auto intro!: Q simp: tcb_at_upd_tcb\<close>)
  then show ?thesis
    using Q [OF settled_refl [OF k]]
    by (auto simp: restart_hsm_def kvc peek_tcb_wp [OF k] split: option.split)
qed

text \<open>The termination call of the watchdog, made while it holds \<^verbatim>\<open>SCHED_LOCK\<close>.\<close>

lemma ecall_frame:
  assumes "trap_entry_save c m = (m', sp)"
  shows "read_frame m' sp 13 = regs c 17" "read_frame m' sp 6 = regs c 10"
  using trap_entry_save_read [OF assms, of 13] trap_entry_save_read [OF assms, of 6]
  by (simp_all add: saved_regs_def)

lemma sys_terminate_task_safe:
  assumes k: "kinv (stacks e) s" "locks_ok (hart_id e) s" and h: "hart_id e < 2"
  shows "wp (sys_terminate_task e start c prio) (\<lambda>_. settled (stacks e) s) E s"
proof -
  let ?c = "c\<lparr>regs := (regs c)(17 := 8, 10 := prio)\<rparr>"
  obtain m sp where m: "trap_entry_save ?c (ram s) = (m, sp)" by fastforce
  let ?s = "s\<lparr>ram := m\<rparr>"
  have id: "read_frame (ram ?s) sp 13 = 8" using ecall_frame(1) [OF m] by simp
  have "kinv (stacks e) ?s" "locks_ok (hart_id e) ?s" using k by simp_all
  from trap_handler_safe [OF this h, of 8 sp start]
  have "wp (trap_handler e 8 sp start) (\<lambda>_. settled (stacks e) ?s) E ?s"
    by (rule wp_mono) (use id in auto)
  then show ?thesis
    by (simp add: sys_terminate_task_def ecall_def wp_def m)
qed

lemma taken_usable: "h < 2 \<Longrightarrow> usable h (taken h)" "h < 2 \<Longrightarrow> acquired h spinlock_new = taken h"
  by (simp_all add: usable_def taken_def acquired_def spin_lock_free [unfolded taken_def])

section \<open>Properties\<close>

text \<open>C21: a turn of the watchdog on core 0, started with the locks free, always comes back: no
  panic and no spin, also through its own termination call, which takes the lock it already
  holds. It keeps the kernel invariant, releases the lock, and leaves the HSM task in a state
  other than \<open>Terminated\<close>.\<close>

theorem watchdog_round_safe:
  assumes "kinv (stacks e) s" "sched_lock s = spinlock_new" "mutex_lock s = spinlock_new"
    and "hart_id e = 0"
  shows "\<exists>s'. watchdog_round e start c ep s = (s', Ok ()) \<and> kinv (stacks e) s'
     \<and> sched_lock s' = spinlock_new \<and> mutex_lock s' = spinlock_new
     \<and> (\<forall>t. tcb_at s' 0 4 = Some t \<longrightarrow> task_state t \<noteq> Terminated)"
proof -
  let ?ok = "\<lambda>s'. kinv (stacks e) s' \<and> sched_lock s' = taken 0 \<and> mutex_lock s' = spinlock_new"
  let ?Q = "\<lambda>_ s'. ?ok s' \<and> (\<forall>t. tcb_at s' 0 4 = Some t \<longrightarrow> task_state t \<noteq> Terminated)"
  have hsm: "wp (restart_hsm (stacks e) ep) ?Q E s1" if "?ok s1" for E s1
    by (rule restart_hsm_wp [of "stacks e"]) (use that in \<open>auto simp: settled_def\<close>)
  have tail: "wp (kseq (restart_task_c (stacks e) ep) (restart_hsm (stacks e) ep)) ?Q E s1"
    if "?ok s1" for E s1
    unfolding wp_kseq
    by (rule wp_mono [OF restart_task_c_safe]) (use that hsm in \<open>auto simp: settled_def\<close>)
  have killed: "wp (sys_terminate_task e start c p) (\<lambda>_. wp (kseq (restart_task_c (stacks e) ep)
      (restart_hsm (stacks e) ep)) ?Q E) E s1" if "?ok s1" for E s1 p
    by (rule wp_mono [OF sys_terminate_task_safe])
      (use that tail assms(4) taken_usable in \<open>auto simp: settled_def locks_ok_def\<close>)
  have body: "wp (kbind (health_check tick) (\<lambda>failed_task.
       kseq (case failed_task of None \<Rightarrow> kret ()
             | Some name \<Rightarrow> kbind (sys_terminate_task e start c (failed_prio name)) (\<lambda>_. kret ()))
      (kseq (restart_task_c (stacks e) ep) (restart_hsm (stacks e) ep)))) ?Q E s1"
    if ok: "?ok s1" for E s1 tick
    unfolding wp_kbind [of "health_check _"]
  proof (rule health_check_wp [of "stacks e"])
    fix f
    show "wp (kseq (case f of None \<Rightarrow> kret ()
             | Some name \<Rightarrow> kbind (sys_terminate_task e start c (failed_prio name)) (\<lambda>_. kret ()))
      (kseq (restart_task_c (stacks e) ep) (restart_hsm (stacks e) ep))) ?Q E s1"
      unfolding wp_kseq [of "case f of None \<Rightarrow> kret () | Some name \<Rightarrow> _ name"]
      using tail [OF ok] killed [OF ok]
      by (cases f) (simp_all add: wp_kret wp_kbind [of "sys_terminate_task _ _ _ _"])
  qed (use ok in simp)
  have "wp (watchdog_round e start c ep) (\<lambda>_ s'. kinv (stacks e) s'
     \<and> sched_lock s' = spinlock_new \<and> mutex_lock s' = spinlock_new
     \<and> (\<forall>t. tcb_at s' 0 4 = Some t \<longrightarrow> task_state t \<noteq> Terminated)) (\<lambda>_ _. False) s"
    unfolding watchdog_round_def wp_kbind [of "kgets tick_count"] wp_kgets
  proof (rule sched_guard_wp, goal_cases)
    case 3
    show ?case
      by (rule wp_mono [OF body [of "s\<lparr>sched_lock := acquired 0 (sched_lock s)\<rparr>"]])
        (use assms taken_usable in \<open>auto simp: tcb_at_def\<close>)
  qed (use assms in \<open>simp_all add: usable_def spinlock_new_def\<close>)
  then show ?thesis by (auto simp: wp_no_panic)
qed

theorem watchdog_round_safe_witness:
  "\<exists>s'. watchdog_round (demo_env 0) 0 \<lparr>regs = (\<lambda>_. 0), mepc = 0, mstatus = 0\<rparr> demo_entries demo_kernel
     = (s', Ok ()) \<and> kinv demo_layout s' \<and> sched_lock s' = spinlock_new"
  using watchdog_round_safe [of "demo_env 0" demo_kernel 0 "\<lparr>regs = (\<lambda>_. 0), mepc = 0, mstatus = 0\<rparr>"
      demo_entries] demo_kernel_facts
  by auto

end
