(* ===== verification/System.thy ===== *)
theory System
  imports Watchdog
begin

text \<open>
  The running system: the kernel after boot under any sequence of traps on either hart, access
  faults of the handler itself, stores of the tasks to memory, and the steps in which the watchdog
  task touches kernel state itself. A trap is one step: the handler holds \<^verbatim>\<open>SCHED_LOCK\<close> from its
  first access to the schedulers to its last. A trap that would wait for the other hart is not a
  step until the lock is free.

  Scope: the memory that the tasks write, and that the handler writes through the pointers they pass, is apart
  from the kernel's statics. The protection unit does not see to that (\<open>statics_open_to_tasks\<close> in the theory
  \<open>Confinement\<close>), so what is shown of the reachable states is shown for tasks that keep out of the statics. The
  watchdog's calls of \<open>lock\<close> and \<open>unlock\<close> are one step each; a trap in the middle of one is in the theory
  \<open>Spin_Lock\<close>.
\<close>

section \<open>Steps\<close>

definition booted :: "layout \<Rightarrow> kernel \<Rightarrow> bool" where
  "booted L s \<longleftrightarrow> (\<exists>ep now0 now1 m sps. boot L ep now0 now1 (reset_kernel m) = (s, Ok sps))"

text \<open>The handler follows pointers that a task chose. The copy of a message (system calls 6 and 7) is where this
  can fault under \<^verbatim>\<open>SCHED_LOCK\<close>: address and length come from the calls of the two tasks and are not checked. At the copy the
  lock is taken, no table has changed yet, and memory is what the copy and the trap entry of the fault make of it. The fault
  traps into a second handler, whose frame lies on the stack of the first; the first is never resumed, so its
  lock is not released. The depth field counts these locks; a run in which it wraps around is left out. (The frame of the
  interrupted task was written by trap entry before the handler reads it, and the instruction at \<^verbatim>\<open>mepc\<close> was fetched before it
  trapped. A fault before the lock is taken is a \<open>trap\<close> step with the frame of the second handler. A stack pointer
  at which trap entry itself faults makes the hart repeat that fault: no step.)\<close>

definition in_copy :: "nat \<Rightarrow> kernel \<Rightarrow> kernel \<Rightarrow> bool" where
  "in_copy h s t \<longleftrightarrow> (\<exists>l m. spin_lock h (sched_lock s) = (l, Ok ()) \<and> usable h l \<and> t = s\<lparr>sched_lock := l, ram := m\<rparr>)"

inductive kernel_step :: "layout \<Rightarrow> kernel \<Rightarrow> kernel \<Rightarrow> bool" for L where
  trap: "hart_id e < 2 \<Longrightarrow> stacks e = L \<Longrightarrow> trap_handler e mcause sp start s = (s', Ok sp') \<Longrightarrow>
    kernel_step L s s'"
| copy_faults: "hart_id e < 2 \<Longrightarrow> stacks e = L \<Longrightarrow> in_copy (hart_id e) s t \<Longrightarrow> mcause \<in> {5, 7} \<Longrightarrow>
    trap_handler e mcause sp start t = (s', Ok sp') \<Longrightarrow> kernel_step L s s'"
| user_store: "kernel_step L s (s\<lparr>ram := m\<rparr>)"
| watchdog_lock: "spin_lock 0 (sched_lock s) = (l, Ok ()) \<Longrightarrow> usable 0 l \<Longrightarrow>
    kernel_step L s (s\<lparr>sched_lock := l\<rparr>)"
| watchdog_restart_c: "owner (sched_lock s) = 1 \<Longrightarrow> restart_task_c L ep s = (s', Ok ()) \<Longrightarrow>
    kernel_step L s s'"
| watchdog_restart_hsm: "owner (sched_lock s) = 1 \<Longrightarrow> restart_hsm L ep s = (s', Ok ()) \<Longrightarrow>
    kernel_step L s s'"
| watchdog_unlock: "owner (sched_lock s) = 1 \<Longrightarrow> spin_unlock (sched_lock s) = (l, Ok ()) \<Longrightarrow>
    kernel_step L s (s\<lparr>sched_lock := l\<rparr>)"

text \<open>\<^verbatim>\<open>SCHED_LOCK\<close> is free or held by one hart, once or more often.\<close>

definition sys_inv :: "layout \<Rightarrow> kernel \<Rightarrow> bool" where
  "sys_inv L s \<longleftrightarrow> kinv L s \<and> mutex_lock s = spinlock_new \<and> (\<exists>h<2. usable h (sched_lock s))"

section \<open>A hart that finds the lock taken\<close>

lemma sched_guard_blocked:
  "held_by_other h (sched_lock s) \<Longrightarrow> sched_guard h body s = (s, Spin)"
  by (simp add: sched_guard_def with_guard_def kseq_def kbind_eval zoom_def spin_lock_blocked)

definition needs_sched_lock :: "u32 \<Rightarrow> usize \<Rightarrow> kernel \<Rightarrow> bool" where
  "needs_sched_lock mcause sp s \<longleftrightarrow>
     mcause \<in> {push_bit 31 1 OR 7, push_bit 31 1 OR 3}
     \<or> mcause = 8 \<and> read_frame (ram s) sp 13 \<in> {1, 2, 3, 4, 5, 6, 7, 8}
     \<or> mcause \<in> set contained_causes
       \<and> (mcause = 2 \<longrightarrow> \<not> is_cycle_read (read_word (ram s) (read_frame (ram s) sp 28)))"

lemma blocked_calls:
  assumes "held_by_other (hart_id e) (sched_lock s)"
  shows "\<exists>s'. on_timer e sp s = (s', Spin)" "\<exists>s'. on_software e sp s = (s', Spin)"
    "sys_yield e sp s = (s, Spin)" "sys_sleep e sp s = (s, Spin)" "sys_lock e sp s = (s, Spin)"
    "sys_unlock e sp s = (s, Spin)" "sys_checkin e sp s = (s, Spin)" "sys_send e sp s = (s, Spin)"
    "sys_recv e sp s = (s, Spin)" "sys_terminate e sp s = (s, Spin)"
    "\<exists>s'. contain_fault e cause sp s = (s', Spin)"
  using assms
  by (simp_all add: on_timer_def on_software_def sys_yield_def sys_sleep_def sys_lock_def sys_unlock_def
      sys_checkin_def sys_send_def sys_recv_def sys_terminate_def contain_fault_def Let_def
      sched_guard_blocked kdefs frame_read_def log_telemetry_def write_msip_def)

lemma syscall_blocked:
  assumes "held_by_other (hart_id e) (sched_lock s)"
  shows "if read_frame (ram s) sp 13 \<in> {1, 2, 3, 4, 5, 6, 7, 8}
    then \<exists>s'. syscall e sp s = (s', Spin)
    else syscall e sp s
      = (s\<lparr>ram := write_frame (ram s) sp 28 (read_frame (ram s) sp 28 + 4)\<rparr>, Ok sp)"
proof -
  let ?s = "s\<lparr>ram := write_frame (ram s) sp 28 (read_frame (ram s) sp 28 + 4)\<rparr>"
  have "held_by_other (hart_id e) (sched_lock ?s)" using assms by simp
  note blocked_calls [OF this]
  then show ?thesis
    by (auto simp: syscall_def kdefs frame_read_def frame_write_def)
qed

lemma exception_blocked:
  assumes "held_by_other (hart_id e) (sched_lock s)"
  shows "if cause = 2 \<and> is_cycle_read (read_word (ram s) (read_frame (ram s) sp 28))
    then \<exists>m. on_exception e cause sp s = (s\<lparr>ram := m\<rparr>, Ok sp)
    else if cause \<in> set contained_causes then \<exists>s'. on_exception e cause sp s = (s', Spin)
    else on_exception e cause sp s = (s, Panic (UnhandledException cause))"
  using blocked_calls(11) [OF assms, of cause sp]
  by (auto simp: on_exception_def Let_def kdefs frame_read_def frame_write_def emulate_csr_def
      contained_causes_def split: option.split)

lemma trap_blocked:
  assumes "held_by_other (hart_id e) (sched_lock s)"
  shows "if needs_sched_lock mcause sp s then \<exists>s'. trap_handler e mcause sp start s = (s', Spin)
    else (\<exists>m. trap_handler e mcause sp start s
         = (s\<lparr>metric_trap_latency := end_cycle e - start, ram := m\<rparr>, Ok sp))
      \<or> mcause \<notin> set contained_causes \<union> {push_bit 31 1 OR 7, push_bit 31 1 OR 3, 8}
        \<and> (\<exists>s'. trap_handler e mcause sp start s = (s', Panic (UnhandledException mcause)))"
proof -
  let ?s = "s\<lparr>metric_trap_latency := end_cycle e - start\<rparr>"
  have h: "held_by_other (hart_id e) (sched_lock ?s)" using assms by simp
  have run: "trap_handler e mcause sp start s =
    (if mcause = push_bit 31 1 OR 7 then on_timer e sp ?s
     else if mcause = push_bit 31 1 OR 3 then on_software e sp ?s
     else if mcause = 8 then syscall e sp ?s else on_exception e mcause sp ?s)"
    by (simp add: trap_handler_def kdefs)
  consider "mcause = push_bit 31 1 OR 7 \<or> mcause = push_bit 31 1 OR 3" | "mcause = 8"
    | "mcause \<notin> {push_bit 31 1 OR 7, push_bit 31 1 OR 3, 8}" by auto
  then show ?thesis
  proof cases
    case 1
    then show ?thesis using blocked_calls(1,2) [OF h, of sp] run by (auto simp: needs_sched_lock_def)
  next
    case 2
    then show ?thesis using syscall_blocked [OF h, of sp] run
      by (auto simp: needs_sched_lock_def contained_causes_def split: if_splits)
  next
    case 3
    then show ?thesis using exception_blocked [OF h, of mcause sp] run
      by (auto simp: needs_sched_lock_def split: if_splits)
  qed
qed

section \<open>The invariant of the running system\<close>

lemma usable_other:
  assumes "usable h l" "h < 2" "k < 2"
  shows "usable k l \<or> held_by_other k l"
  using assms by (auto simp: usable_def held_by_other_def less_2_cases_iff)

lemma sys_inv_locks:
  assumes "sys_inv L s" "h < 2"
  shows "locks_ok h s \<or> held_by_other h (sched_lock s)"
  using assms usable_other by (auto simp: sys_inv_def locks_ok_def)

lemma spin_unlock_usable:
  assumes "usable h l" "owner l \<noteq> 0" "spin_unlock l = (l', Ok ())"
  shows "usable h l'"
proof -
  have "0 < depth l - 1" if "depth l - 1 \<noteq> 0" using that by (simp add: word_gt_0)
  then show ?thesis using assms by (auto simp: usable_def spin_unlock_def Let_def split: if_splits)
qed

lemma trap_step_inv:
  assumes i: "sys_inv L s" and e: "hart_id e < 2" "stacks e = L"
    and r: "trap_handler e mcause sp start s = (s', Ok sp')"
  shows "sys_inv L s' \<and> sched_lock s' = sched_lock s"
  using sys_inv_locks [OF i e(1)]
proof
  assume "locks_ok (hart_id e) s"
  from trap_handler_safe [OF _ this e(1), of mcause sp start] i e(2) r show ?thesis
    by (auto simp: wp_def sys_inv_def settled_def)
next
  assume "held_by_other (hart_id e) (sched_lock s)"
  from trap_blocked [OF this, of mcause sp start] i r show ?thesis
    by (auto simp: sys_inv_def split: if_splits)
qed

text \<open>The state in which the message copy faults is again one in which the handler can be entered.\<close>

lemma in_copy_inv:
  assumes "sys_inv L s" "h < 2" "in_copy h s t"
  shows "sys_inv L t" "locks_ok h t"
  using assms by (auto simp: in_copy_def sys_inv_def locks_ok_def)

lemma sys_inv_boot:
  assumes "booted L s"
  shows "sys_inv L s"
proof -
  obtain ep now0 now1 m sps where b: "boot L ep now0 now1 (reset_kernel m) = (s, Ok sps)"
    using assms by (auto simp: booted_def)
  have "kinv L s \<and> mutex_lock s = spinlock_new \<and> sched_lock s = spinlock_new"
    by (rule boot_run [of L ep now0 now1 m]) (use b in \<open>auto simp: reset_kernel_def intro: boot_kinv\<close>)
  moreover have "usable 0 spinlock_new" by (simp add: usable_def spinlock_new_def)
  ultimately show ?thesis by (auto simp: sys_inv_def intro: exI [of _ 0])
qed

interpretation sys: inductive_invariant "booted L" "kernel_step L" "sys_inv L" for L
proof
  fix s t assume i: "sys_inv L s" and "kernel_step L s t"
  from this(2) show "sys_inv L t"
  proof (cases rule: kernel_step.cases)
    case (trap e mcause sp start sp')
    then show ?thesis using i trap_step_inv by blast
  next
    case (copy_faults e t' mcause sp start sp')
    then show ?thesis using in_copy_inv(1) [OF i] trap_step_inv by blast
  next
    case (watchdog_lock l)
    then show ?thesis using i by (auto simp: sys_inv_def intro: exI [of _ 0])
  next
    case (watchdog_restart_c ep)
    then show ?thesis
      using i restart_task_c_safe [of L s ep] by (auto simp: wp_def sys_inv_def settled_def)
  next
    case (watchdog_restart_hsm ep)
    then show ?thesis
      using i restart_hsm_wp [of L s "\<lambda>_. settled L s" ep] by (auto simp: wp_def sys_inv_def settled_def)
  next
    case (watchdog_unlock l)
    then show ?thesis using i spin_unlock_usable by (auto simp: sys_inv_def)
  qed (use i in \<open>auto simp: sys_inv_def\<close>)
qed (rule sys_inv_boot)

text \<open>An access fault in a message copy: the second handler terminates the caller and returns, but the hart now
  holds \<^verbatim>\<open>SCHED_LOCK\<close> for good, and every trap of the other hart that needs it spins.\<close>

lemma copy_fault_leaks_lock:
  assumes i: "sys_inv L s" and e: "hart_id e < 2" "stacks e = L" and l: "sched_lock s = spinlock_new"
    and t: "in_copy (hart_id e) s t" and c: "mcause \<in> {5, 7}"
  obtains s' sp' where "trap_handler e mcause sp start t = (s', Ok sp')" "sched_lock s' = taken (hart_id e)"
    "\<And>e' n sp'' start'. hart_id e' < 2 \<Longrightarrow> hart_id e' \<noteq> hart_id e \<Longrightarrow> needs_sched_lock n sp'' s' \<Longrightarrow>
       \<exists>s''. trap_handler e' n sp'' start' s' = (s'', Spin)"
proof -
  have k: "kinv (stacks e) t" using in_copy_inv(1) [OF i e(1) t] e(2) by (simp add: sys_inv_def)
  from trap_handler_safe [OF k in_copy_inv(2) [OF i e(1) t] e(1), of mcause sp start]
  obtain s' sp' where r: "trap_handler e mcause sp start t = (s', Ok sp')"
    using c by (auto simp: wp_def contained_causes_def split: prod.splits res.splits)
  have "sched_lock t = taken (hart_id e)" using t l spin_lock_free [OF e(1)] by (auto simp: in_copy_def)
  then have s': "sched_lock s' = taken (hart_id e)"
    using trap_step_inv [OF in_copy_inv(1) [OF i e(1) t] e r] by simp
  have "\<exists>s''. trap_handler e' n sp'' start' s' = (s'', Spin)"
    if "hart_id e' < 2" "hart_id e' \<noteq> hart_id e" "needs_sched_lock n sp'' s'" for e' n sp'' start'
  proof -
    have "held_by_other (hart_id e') (sched_lock s')"
      using s' that e(1) by (auto simp: held_by_other_def taken_def less_2_cases_iff)
    from trap_blocked [OF this, of n sp'' start'] show ?thesis using that(3) by simp
  qed
  then show thesis using that r s' by blast
qed

lemma demo_reach: "reach (booted demo_layout) (kernel_step demo_layout) demo_kernel"
proof (rule reach_init)
  show "booted demo_layout demo_kernel"
    unfolding booted_def demo_kernel_def
    by (rule boot_run [of demo_layout demo_entries 0 0 "\<lambda>_. 0"]) (metis fst_conv)
qed

end
