(* ===== verification/Syscalls.thy ===== *)
theory Syscalls
  imports System
begin

text \<open>
  Lemmas on single system calls and interrupts that the theories on mutexes, messages and task control share: the state
  in which a call starts, refused calls, the grant of a free mutex, the context switch of a blocking caller, sleeping
  and the wake-up on a timer interrupt.
\<close>

section \<open>Exact results\<close>

lemma wp_exact: "wp m (\<lambda>a s'. a = x \<and> s' = t) (\<lambda>_ _. False) s \<longleftrightarrow> m s = (t, Ok x)"
  by (auto simp: wp_def split: prod.splits res.splits)

lemma sched_guard_run:
  assumes "usable h (sched_lock s)" "h < 2"
    and "body (s\<lparr>sched_lock := acquired h (sched_lock s)\<rparr>) = (s', Ok a)"
    and "sched_lock s' = acquired h (sched_lock s)"
  shows "sched_guard h body s = (s'\<lparr>sched_lock := sched_lock s\<rparr>, Ok a)"
  unfolding wp_exact [symmetric]
  by (rule sched_guard_wp [OF assms(1,2)]) (use assms(3,4) in \<open>simp add: wp_def\<close>)

lemma record_sched_lock: "sched_lock s = l \<Longrightarrow> s\<lparr>sched_lock := l\<rparr> = s"
  by simp

lemma record_lock_id [simp]: "s\<lparr>sched_lock := sched_lock s\<rparr> = s" "s\<lparr>mutex_lock := mutex_lock s\<rparr> = s"
  by simp_all

text \<open>The state in which the handler of a system call starts.\<close>

definition call_state :: "trap_env \<Rightarrow> usize \<Rightarrow> usize \<Rightarrow> kernel \<Rightarrow> kernel" where
  "call_state e sp start s = s\<lparr>metric_trap_latency := end_cycle e - start,
     ram := write_frame (ram s) sp 28 (read_frame (ram s) sp 28 + 4)\<rparr>"

lemma call_state_simps [simp]:
  "schedulers (call_state e sp start s) = schedulers s" "mutexes (call_state e sp start s) = mutexes s"
  "sched_lock (call_state e sp start s) = sched_lock s" "mutex_lock (call_state e sp start s) = mutex_lock s"
  "pmp (call_state e sp start s) = pmp s" "tcb_at (call_state e sp start s) h i = tcb_at s h i"
  "kinv L (call_state e sp start s) = kinv L s" "locks_ok h (call_state e sp start s) = locks_ok h s"
  "k \<noteq> 28 \<Longrightarrow> k < 32 \<Longrightarrow> read_frame (ram (call_state e sp start s)) sp k = read_frame (ram s) sp k"
  "tick_count (call_state e sp start s) = tick_count s" "msip (call_state e sp start s) = msip s"
  by (simp_all add: call_state_def tcb_at_def read_write_frame locks_ok_def)

lemma trap_syscall:
  "trap_handler e 8 sp start s =
     (let id = read_frame (ram s) sp 13; t = call_state e sp start s in
      if id = 1 then sys_yield e sp t else if id = 2 then sys_sleep e sp t
      else if id = 3 then sys_lock e sp t else if id = 4 then sys_unlock e sp t
      else if id = 5 then sys_checkin e sp t else if id = 6 then sys_send e sp t
      else if id = 7 then sys_recv e sp t else if id = 8 then sys_terminate e sp t
      else (t, Ok sp))"
  by (simp add: trap_handler_def syscall_def kdefs frame_read_def frame_write_def call_state_def Let_def)

section \<open>Refusals\<close>

lemma with_mutex_denied:
  assumes k: "kinv L s" and h: "h < 2" and t: "tcb_at s h running = Some tcb"
    and ml: "mutex_lock s = taken h'" and no: "\<not> (cap_idx < 8 \<and> pattern (capabilities tcb ! unat cap_idx) \<noteq> None)"
  shows "with_mutex pattern h running cap_idx sp action s = (s\<lparr>mutex_lock := spinlock_new\<rparr>, Ok (True, False, sp))"
proof -
  have "wp (with_mutex pattern h running cap_idx sp action)
     (\<lambda>a s'. a = (True, False, sp) \<and> s' = s\<lparr>mutex_lock := spinlock_new\<rparr>) (\<lambda>_ _. False) s"
  proof (cases "cap_idx < 8")
    case True
    with no have "pattern (capabilities tcb ! unat cap_idx) = None" by simp
    then show ?thesis using True ml
      by (auto simp: with_mutex_def kvc intro!: running_cap_wp [OF k h t True])
  qed (use ml in \<open>simp add: with_mutex_def kvc\<close>)
  then show ?thesis by (simp add: wp_exact)
qed

lemma with_endpoint_denied:
  assumes k: "kinv L s" and h: "h < 2" and t: "tcb_at s h running = Some tcb"
    and no: "\<not> (cap_idx < 8 \<and> pattern (capabilities tcb ! unat cap_idx) \<noteq> None)"
  shows "with_endpoint pattern h running cap_idx sp action s = (s\<lparr>ram := write_frame (ram s) sp 6 (-1)\<rparr>, Ok sp)"
  unfolding wp_exact [symmetric]
  by (rule with_endpoint_wp [OF k h t]) (use no in auto)

text \<open>The frame of the two mutex calls, and of the calls under \<^verbatim>\<open>SCHED_LOCK\<close> only.\<close>

lemma mutex_call_run:
  assumes k: "kinv L s" and l: "locks_ok h s" and h: "h < 2"
    and body: "\<And>sl. body (current_partition_idx (schedulers s ! h)) (s\<lparr>sched_lock := sl, mutex_lock := taken h\<rparr>)
      = (t\<lparr>sched_lock := sl, mutex_lock := spinlock_new\<rparr>, Ok a)"
    and f: "sched_lock t = sched_lock s" "mutex_lock t = mutex_lock s"
  shows "sched_guard h (kbind (running_idx h) (\<lambda>running. kseq (mutex_acquire h) (body running))) s = (t, Ok a)"
proof -
  let ?sl = "acquired h (sched_lock s)"
  have len: "h < length (schedulers s)" using kinvD(1) [OF k h] h by simp
  have "kbind (running_idx h) (\<lambda>running. kseq (mutex_acquire h) (body running)) (s\<lparr>sched_lock := ?sl\<rparr>)
     = (t\<lparr>sched_lock := ?sl, mutex_lock := spinlock_new\<rparr>, Ok a)"
    using len l h body [of ?sl]
    by (simp add: running_idx_def sched_of_def kdefs mutex_acquire_def zoom_def locks_ok_def spin_lock_free)
  from sched_guard_run [where body = "kbind (running_idx h) (\<lambda>running. kseq (mutex_acquire h) (body running))", OF _ h this] l f
  show ?thesis by (simp add: locks_ok_def)
qed

lemma guarded_call_run:
  assumes k: "kinv L s" and l: "locks_ok h s" and h: "h < 2"
    and body: "\<And>sl. body (current_partition_idx (schedulers s ! h)) (s\<lparr>sched_lock := sl\<rparr>)
      = (t\<lparr>sched_lock := sl\<rparr>, Ok a)"
    and f: "sched_lock t = sched_lock s"
  shows "sched_guard h (kbind (running_idx h) body) s = (t, Ok a)"
proof -
  let ?sl = "acquired h (sched_lock s)"
  have len: "h < length (schedulers s)" using kinvD(1) [OF k h] h by simp
  have "kbind (running_idx h) body (s\<lparr>sched_lock := ?sl\<rparr>) = (t\<lparr>sched_lock := ?sl\<rparr>, Ok a)"
    using len body [of ?sl] by (simp add: running_idx_def sched_of_def kdefs)
  from sched_guard_run [where body = "kbind (running_idx h) body", OF _ h this] l f
  show ?thesis by (simp add: locks_ok_def)
qed

lemma mutex_call_refused:
  assumes k: "kinv (stacks e) s" and l: "locks_ok (hart_id e) s" and h: "hart_id e < 2"
    and t: "tcb_at s (hart_id e) (current_partition_idx (schedulers s ! hart_id e)) = Some tcb"
  shows "\<not> (read_frame (ram s) sp 6 < 8 \<and> lock_cap (capabilities tcb ! unat (read_frame (ram s) sp 6)) \<noteq> None) \<Longrightarrow>
      sys_lock e sp s = (s\<lparr>ram := write_frame (ram s) sp 6 (-1)\<rparr>, Ok sp)"
    and "\<not> (read_frame (ram s) sp 6 < 8 \<and> unlock_cap (capabilities tcb ! unat (read_frame (ram s) sp 6)) \<noteq> None) \<Longrightarrow>
      sys_unlock e sp s = (s\<lparr>ram := write_frame (ram s) sp 6 (-1)\<rparr>, Ok sp)"
proof -
  let ?h = "hart_id e" and ?f = "\<lambda>s. s\<lparr>ram := write_frame (ram s) sp 6 (-1)\<rparr>"
  let ?t = "\<lambda>sl. s\<lparr>sched_lock := sl, mutex_lock := taken ?h\<rparr>"
  note den = with_mutex_denied [of "stacks e" "?t sl" ?h _ tcb ?h for sl]
  show "sys_lock e sp s = (?f s, Ok sp)"
    if "\<not> (read_frame (ram s) sp 6 < 8 \<and> lock_cap (capabilities tcb ! unat (read_frame (ram s) sp 6)) \<noteq> None)"
    unfolding sys_lock_def Let_def kbind_eval [of "frame_read _ _"]
    by (simp add: frame_read_def kgets_def)
      (rule mutex_call_run [OF k l h], use that k h t in \<open>simp_all add: kbind_eval den tcb_at_def
        lock_result_def frame_write_def kdefs\<close>)
  show "sys_unlock e sp s = (?f s, Ok sp)"
    if "\<not> (read_frame (ram s) sp 6 < 8 \<and> unlock_cap (capabilities tcb ! unat (read_frame (ram s) sp 6)) \<noteq> None)"
    unfolding sys_unlock_def Let_def kbind_eval [of "frame_read _ _"]
    by (simp add: frame_read_def kgets_def)
      (rule mutex_call_run [OF k l h], use that k h t in \<open>simp_all add: kbind_eval den tcb_at_def
        unlock_result_def frame_write_def kdefs\<close>)
qed

lemma ipc_call_refused:
  assumes k: "kinv (stacks e) s" and l: "locks_ok (hart_id e) s" and h: "hart_id e < 2"
    and t: "tcb_at s (hart_id e) (current_partition_idx (schedulers s ! hart_id e)) = Some tcb"
  shows "\<not> (read_frame (ram s) sp 6 < 8 \<and> send_cap (capabilities tcb ! unat (read_frame (ram s) sp 6)) \<noteq> None) \<Longrightarrow>
      sys_send e sp s = (s\<lparr>ram := write_frame (ram s) sp 6 (-1)\<rparr>, Ok sp)"
    and "\<not> (read_frame (ram s) sp 6 < 8 \<and> recv_cap (capabilities tcb ! unat (read_frame (ram s) sp 6)) \<noteq> None) \<Longrightarrow>
      sys_recv e sp s = (s\<lparr>ram := write_frame (ram s) sp 6 (-1)\<rparr>, Ok sp)"
proof -
  note den = with_endpoint_denied [of "stacks e" "s\<lparr>sched_lock := sl\<rparr>" "hart_id e" _ tcb for sl]
  show "sys_send e sp s = (s\<lparr>ram := write_frame (ram s) sp 6 (-1)\<rparr>, Ok sp)"
    if "\<not> (read_frame (ram s) sp 6 < 8 \<and> send_cap (capabilities tcb ! unat (read_frame (ram s) sp 6)) \<noteq> None)"
    unfolding sys_send_def Let_def kbind_eval [of "frame_read _ _"]
    by (simp add: frame_read_def kgets_def)
      (rule guarded_call_run [OF k l h], use that k h t in \<open>simp_all add: den tcb_at_def\<close>)
  show "sys_recv e sp s = (s\<lparr>ram := write_frame (ram s) sp 6 (-1)\<rparr>, Ok sp)"
    if "\<not> (read_frame (ram s) sp 6 < 8 \<and> recv_cap (capabilities tcb ! unat (read_frame (ram s) sp 6)) \<noteq> None)"
    unfolding sys_recv_def Let_def kbind_eval [of "frame_read _ _"]
    by (simp add: frame_read_def kgets_def)
      (rule guarded_call_run [OF k l h], use that k h t in \<open>simp_all add: den tcb_at_def\<close>)
qed

text \<open>The capability a system call asks for.\<close>

definition call_pattern :: "usize \<Rightarrow> (Capability \<Rightarrow> u8 option) option" where
  "call_pattern n = (if n = 3 then Some lock_cap else if n = 4 then Some unlock_cap
     else if n = 6 then Some send_cap else if n = 7 then Some recv_cap else None)"

section \<open>A mutex that is granted, and one that is not\<close>

lemma with_mutex_allowed:
  assumes k: "kinv L s" and h: "h < 2" and t: "tcb_at s h running = Some tcb"
    and c: "cap_idx < 8" "pattern (capabilities tcb ! unat cap_idx) = Some idx"
    and m: "slot (mutexes s) (unat idx) = Some m"
  shows "with_mutex pattern h running cap_idx sp action s = action idx m s"
proof -
  have "length (capabilities tcb) = 8" using kinvD(6) [OF k h t] by (simp add: tcb_ok_def)
  moreover have "unat cap_idx < 8" using c(1) by (simp add: word_less_nat_alt)
  moreover have "h < length (schedulers s)" using kinvD(1) [OF k h] h by simp
  moreover have "unat idx < length (mutexes s)" using m by (rule slot_Some_less)
  ultimately show ?thesis
    using c m get_tcb_run [OF t]
    by (simp add: with_mutex_def running_cap_def kdefs peek_mutex_def slot_nth)
qed

lemma tcb_at_fields [simp]:
  "tcb_at (s\<lparr>sched_lock := l\<rparr>) h i = tcb_at s h i" "tcb_at (s\<lparr>mutex_lock := l\<rparr>) h i = tcb_at s h i"
  "tcb_at (s\<lparr>mutexes := ms\<rparr>) h i = tcb_at s h i" "tcb_at (s\<lparr>ram := m\<rparr>) h i = tcb_at s h i"
  "tcb_at (s\<lparr>msip := ip\<rparr>) h i = tcb_at s h i" "tcb_at (s\<lparr>trace := tr\<rparr>) h i = tcb_at s h i"
  "tcb_at (s\<lparr>tick_count := n\<rparr>) h i = tcb_at s h i" "tcb_at (s\<lparr>mtimecmp := tc\<rparr>) h i = tcb_at s h i"
  "tcb_at (s\<lparr>metric_trap_latency := n\<rparr>) h i = tcb_at s h i"
  "tcb_at (s\<lparr>metric_pmp_violations := n\<rparr>) h i = tcb_at s h i"
  "tcb_at (s\<lparr>last_checkin_tick := ts\<rparr>) h i = tcb_at s h i"
  by (simp_all add: tcb_at_def)

lemma lock_free_run:
  assumes k: "kinv (stacks e) s" and l: "locks_ok (hart_id e) s" and h: "hart_id e < 2"
    and r: "r = current_partition_idx (schedulers s ! hart_id e)"
    and t: "tcb_at s (hart_id e) r = Some tcb" "\<not> waits_on_mutex (task_state tcb)"
    and c: "read_frame (ram s) sp 6 < 8"
      "lock_cap (capabilities tcb ! unat (read_frame (ram s) sp 6)) = Some idx"
    and m: "slot (mutexes s) (unat idx) = Some m" "\<not> locked m"
  shows "sys_lock e sp s = (s\<lparr>ram := write_frame (ram s) sp 6 0, mutexes := (mutexes s)[unat idx :=
      Some (m\<lparr>locked := True, owner_task_idx := Some (of_nat r)\<rparr>)]\<rparr>, Ok sp)"
proof -
  let ?h = "hart_id e"
  have len: "?h < length (schedulers s)" using kinvD(1) [OF k h] h by simp
  have w: "with_mutex lock_cap ?h r (read_frame (ram s) sp 6) sp (lock_mutex e r sp)
      (s\<lparr>sched_lock := sl, mutex_lock := taken ?h\<rparr>)
    = lock_mutex e r sp idx m (s\<lparr>sched_lock := sl, mutex_lock := taken ?h\<rparr>)" for sl
    by (rule with_mutex_allowed [of "stacks e" _ _ _ tcb]) (use k h t c m in simp_all)
  show ?thesis
    unfolding sys_lock_def Let_def kbind_eval [of "frame_read _ _"]
    by (simp add: frame_read_def kgets_def)
      (rule mutex_call_run [OF k l h], use w m(2) t len in \<open>simp_all add: r [symmetric] kdefs lock_mutex_def
        put_mutex_def mutex_release_def zoom_def spin_unlock_taken lock_result_def get_tcb_run
        frame_write_def\<close>)
qed

section \<open>Task states across a switch\<close>

definition kstate :: "kernel \<Rightarrow> nat \<Rightarrow> nat \<Rightarrow> TaskState option" where
  "kstate s h i = map_option task_state (tcb_at s h i)"

abbreviation current :: "kernel \<Rightarrow> nat \<Rightarrow> nat" where
  "current s h \<equiv> current_partition_idx (schedulers s ! h)"

lemma kstate_fields [simp]:
  "kstate (s\<lparr>sched_lock := l\<rparr>) h i = kstate s h i" "kstate (s\<lparr>mutex_lock := l\<rparr>) h i = kstate s h i"
  "kstate (s\<lparr>mutexes := ms\<rparr>) h i = kstate s h i" "kstate (s\<lparr>ram := m\<rparr>) h i = kstate s h i"
  "kstate (s\<lparr>msip := ip\<rparr>) h i = kstate s h i" "kstate (s\<lparr>trace := tr\<rparr>) h i = kstate s h i"
  "kstate (s\<lparr>tick_count := n\<rparr>) h i = kstate s h i" "kstate (s\<lparr>mtimecmp := tc\<rparr>) h i = kstate s h i"
  "kstate (s\<lparr>metric_trap_latency := n\<rparr>) h i = kstate s h i"
  "kstate (s\<lparr>metric_pmp_violations := n\<rparr>) h i = kstate s h i"
  "kstate (call_state e sp start s) h i = kstate s h i"
  by (simp_all add: kstate_def)

lemma kstate_state_at: "kstate s h i = state_at (schedulers s ! h) i"
  by (simp add: kstate_def state_at_def tcb_at_def)

lemma kstate_upd_tcb:
  "h < length (schedulers s) \<Longrightarrow> kstate (upd_tcb h i (set_state st) s) h' i' =
     (if h = h' \<and> i = i' then map_option (\<lambda>_. st) (kstate s h i) else kstate s h' i')"
  by (cases "tcb_at s h i") (auto simp: kstate_def tcb_at_upd_tcb)

lemma switch_frame_kstate:
  assumes "switch_frame h s s'"
  shows "kstate s h' i = Some st \<Longrightarrow> st \<noteq> Ready \<Longrightarrow> st \<noteq> Running \<Longrightarrow> kstate s' h' i = Some st"
    and "kstate s h' i \<in> {Some Ready, Some Running} \<Longrightarrow> kstate s' h' i \<in> {Some Ready, Some Running}"
    and "h' \<noteq> h \<Longrightarrow> kstate s' h' i = kstate s h' i"
proof -
  have other: "tcb_at s' h' i = tcb_at s h' i" if "h' \<noteq> h" for h'
    using assms that by (simp add: switch_frame_def tcb_at_def)
  show "h' \<noteq> h \<Longrightarrow> kstate s' h' i = kstate s h' i" using other by (simp add: kstate_def)
  have same: "case tcb_at s h i of None \<Rightarrow> tcb_at s' h i = None
    | Some t \<Rightarrow> (\<exists>t'. tcb_at s' h i = Some t' \<and> rescheduled t t')"
    using assms by (simp add: switch_frame_def)
  show "kstate s h' i = Some st \<Longrightarrow> st \<noteq> Ready \<Longrightarrow> st \<noteq> Running \<Longrightarrow> kstate s' h' i = Some st"
    using other same by (cases "h' = h") (auto simp: kstate_def rescheduled_def split: option.splits)
  show "kstate s h' i \<in> {Some Ready, Some Running} \<Longrightarrow> kstate s' h' i \<in> {Some Ready, Some Running}"
    using other same by (cases "h' = h") (auto simp: kstate_def rescheduled_def split: option.splits)
qed

text \<open>A forced switch with a ready task goes to a ready task.\<close>

lemma switch_task_forced:
  assumes k: "kinv (stacks e) s" and h: "hart_id e < 2" and r: "kstate s (hart_id e) i = Some Ready"
    and run: "switch_task e sp False s = (s', Ok sp')"
  shows "kstate s (hart_id e) (current s' (hart_id e)) = Some Ready"
    "kstate s' (hart_id e) (current s' (hart_id e)) = Some Running"
    "map_option saved_sp (tcb_at s (hart_id e) (current s' (hart_id e))) = Some sp'"
    "map_option saved_sp (tcb_at s' (hart_id e) (current s (hart_id e))) = Some sp"
proof -
  let ?h = "hart_id e" and ?sc = "schedulers s ! hart_id e" and ?c = "current s (hart_id e)"
  have len: "?h < length (schedulers s)" using kinvD(1) [OF k h] h by simp
  have res: "resched False ?sc" by (simp add: resched_def)
  from k h refl obtain j tcb p where j: "tcb_at s ?h j = Some tcb" "task_state tcb = Ready"
    and s': "s' = s\<lparr>schedulers := (schedulers s)[?h := hand_over ?c j sp ?sc], pmp := (pmp s)(?h := p),
        trace := trace s @ [TaskSwap (of_nat ?c) (of_nat j) (swap_cycle e)]\<rparr>" "sp' = saved_sp tcb"
    by (cases rule: switch_task_cases [where b = False and sp = sp])
      (use run r res in \<open>auto simp: kstate_state_at\<close>)
  have cur: "current s' ?h = j" using len s'(1) by simp
  obtain ct where "tcb_at s ?h ?c = Some ct" using kinv_current [OF k h] by blast
  then show "kstate s ?h (current s' ?h) = Some Ready" "kstate s' ?h (current s' ?h) = Some Running"
    "map_option saved_sp (tcb_at s ?h (current s' ?h)) = Some sp'"
    "map_option saved_sp (tcb_at s' ?h ?c) = Some sp"
    unfolding cur using j s' len by (auto simp: kstate_def tcb_at_def slot_hand_over)
qed

text \<open>The hart went from the task that ran in \<open>s\<close> to a ready one, if there was one: that task
  now runs from its saved stack pointer, and the old stack pointer is saved.\<close>

definition gave_way :: "nat \<Rightarrow> usize \<Rightarrow> kernel \<Rightarrow> usize \<Rightarrow> kernel \<Rightarrow> bool" where
  "gave_way h sp s sp' s' \<longleftrightarrow> (\<forall>i. i \<noteq> current s h \<and> kstate s h i = Some Ready \<longrightarrow>
     current s' h \<noteq> current s h \<and> kstate s' h (current s' h) = Some Running
     \<and> map_option saved_sp (tcb_at s h (current s' h)) = Some sp'
     \<and> map_option saved_sp (tcb_at s' h (current s h)) = Some sp)"

text \<open>The running task blocks: it stays blocked, and a ready task takes the hart.\<close>

lemma block_switch_wp:
  assumes k: "kinv (stacks e) s" and h: "hart_id e < 2" and r: "r = current s (hart_id e)"
    and st: "st \<noteq> Ready" "st \<noteq> Running"
    and Q: "\<And>sp' s'. kinv (stacks e) s' \<Longrightarrow> switch_frame (hart_id e) (upd_tcb (hart_id e) r (set_state st) s) s' \<Longrightarrow>
      kstate s' (hart_id e) r = Some st \<Longrightarrow>
      gave_way (hart_id e) sp s sp' s' \<Longrightarrow> Q sp' s'"
  shows "wp (switch_task e sp False) Q E (upd_tcb (hart_id e) r (set_state st) s)"
proof -
  let ?h = "hart_id e" and ?s1 = "upd_tcb (hart_id e) r (set_state st) s"
  have len: "?h < length (schedulers s)" using kinvD(1) [OF k h] h by simp
  have k1: "kinv (stacks e) ?s1" by (rule kinv_upd_tcb [OF k h]) (use st in simp)
  obtain tcb where t: "tcb_at s ?h r = Some tcb" using kinv_current [OF k h] r by blast
  then have st1: "kstate ?s1 ?h r = Some st" using len by (simp add: kstate_def tcb_at_upd_tcb)
  have "wp (switch_task e sp False) (\<lambda>sp' s'. (kinv (stacks e) s' \<and> switch_frame ?h ?s1 s')
      \<and> switch_task e sp False ?s1 = (s', Ok sp')) E ?s1"
    by (rule wp_eq, rule switch_task_wp [OF k1 h]) simp
  then show ?thesis
  proof (rule wp_mono)
    fix sp' s'
    assume *: "(kinv (stacks e) s' \<and> switch_frame ?h ?s1 s') \<and> switch_task e sp False ?s1 = (s', Ok sp')"
    then have stay: "kstate s' ?h r = Some st" using switch_frame_kstate(1) st1 st by blast
    moreover have "current s' ?h \<noteq> r \<and> kstate s' ?h (current s' ?h) = Some Running
         \<and> map_option saved_sp (tcb_at s ?h (current s' ?h)) = Some sp'
         \<and> map_option saved_sp (tcb_at s' ?h r) = Some sp"
      if "i \<noteq> r \<and> kstate s ?h i = Some Ready" for i
    proof -
      have "kstate ?s1 ?h i = Some Ready" using that len by (simp add: kstate_upd_tcb)
      note F = switch_task_forced [OF k1 h this, of sp s' sp']
      have "current s' ?h \<noteq> r" using F(1) * st1 st by auto
      moreover from this have "tcb_at ?s1 ?h (current s' ?h) = tcb_at s ?h (current s' ?h)"
        using len by (simp add: tcb_at_upd_tcb)
      ultimately show ?thesis using F * r by simp
    qed
    ultimately show "Q sp' s'" using * r by (intro Q) (auto simp: gave_way_def)
  qed
qed

lemma gave_way_cong:
  "schedulers t = schedulers s \<Longrightarrow> schedulers t' = schedulers s' \<Longrightarrow>
     gave_way h sp t sp' t' = gave_way h sp s sp' s'"
  by (simp add: gave_way_def kstate_def tcb_at_def)

lemma gave_way_fields [simp]:
  "gave_way h sp (s\<lparr>sched_lock := l\<rparr>) sp' s' = gave_way h sp s sp' s'"
  "gave_way h sp (call_state e sp2 start s) sp' s' = gave_way h sp s sp' s'"
  "gave_way h sp (s\<lparr>mutex_lock := l\<rparr>) sp' s' = gave_way h sp s sp' s'"
  "gave_way h sp (s\<lparr>mutexes := ms\<rparr>) sp' s' = gave_way h sp s sp' s'"
  "gave_way h sp s sp' (s'\<lparr>sched_lock := l\<rparr>) = gave_way h sp s sp' s'"
  "gave_way h sp s sp' (s'\<lparr>ram := m\<rparr>) = gave_way h sp s sp' s'"
  by (rule gave_way_cong; simp)+

section \<open>Sleeping and waking\<close>

lemma sleep_wp:
  assumes k: "kinv (stacks e) s" and l: "locks_ok (hart_id e) s" and h: "hart_id e < 2"
  shows "\<exists>s' sp'. sys_sleep e sp s = (s', Ok sp')
     \<and> kstate s' (hart_id e) (current s (hart_id e)) = Some (Blocked (tick_count s + read_frame (ram s) sp 6))
     \<and> gave_way (hart_id e) sp s sp' s'"
proof -
  let ?h = "hart_id e" and ?r = "current s (hart_id e)" and ?s0 = "s\<lparr>sched_lock := acquired (hart_id e) (sched_lock s)\<rparr>"
  let ?st = "Blocked (tick_count s + read_frame (ram s) sp 6)"
  have len: "?h < length (schedulers s)" using kinvD(1) [OF k h] h by simp
  obtain tcb where t: "tcb_at s ?h ?r = Some tcb" using kinv_current [OF k h] by blast
  have "wp (switch_task e sp False) (\<lambda>sp' s'. sched_lock s' = acquired ?h (sched_lock s)
      \<and> kstate s' ?h ?r = Some ?st \<and> gave_way ?h sp s sp' s') (\<lambda>_ _. False) (upd_tcb ?h ?r (set_state ?st) ?s0)"
    by (rule block_switch_wp) (use k h switch_frame_fields(2) in auto)
  then have "wp (sys_sleep e sp) (\<lambda>sp' s'. kstate s' ?h ?r = Some ?st \<and> gave_way ?h sp s sp' s') (\<lambda>_ _. False) s"
    unfolding sys_sleep_def Let_def wp_kbind [of "frame_read _ _"] access_wp
    by (intro sched_guard_wp) (use l h t len in \<open>simp_all add: kvc locks_ok_def\<close>)
  then show ?thesis by (auto simp: wp_no_panic)
qed

text \<open>The wake-up loop as a function on the task table.\<close>

definition wake :: "u32 \<Rightarrow> TaskControlBlock \<Rightarrow> TaskControlBlock" where
  "wake tick tcb = (case sleeping_until (task_state tcb) of
     None \<Rightarrow> tcb | Some w \<Rightarrow> if w \<le> tick then set_state Ready tcb else tcb)"

lemma wake_one:
  assumes k: "kinv L s" and h: "h < 2" and i: "i < 32"
  shows "wake_task h tick i s = (upd_tcb h i (wake tick) s, Ok ())"
proof -
  have len: "h < length (schedulers s)" using kinvD(1) [OF k h] h by simp
  have peek: "peek_tcb h i s = (s, Ok (tcb_at s h i))"
    using kinv_table_length [OF k h] len i by (simp add: peek_tcb_def sched_of_def kdefs tcb_at_def slot_nth)
  have same: "upd_tcb h i f s = upd_tcb h i g s" if "\<And>t. tcb_at s h i = Some t \<Longrightarrow> f t = g t" for f g
    using that by (cases "tcb_at s h i") (auto simp: upd_tcb_def upd_sched_def upd_slot_def tcb_at_def)
  have id: "upd_tcb h i (\<lambda>t. t) s = s" by (simp add: upd_tcb_def upd_sched_def)
  show ?thesis
  proof (cases "tcb_at s h i")
    case None
    then show ?thesis using same [of "wake tick" "\<lambda>t. t"] id by (simp add: wake_task_def kbind_eval peek kret_def)
  next
    case (Some t)
    then have "upd_tcb h i (wake tick) s = (case sleeping_until (task_state t) of None \<Rightarrow> s
        | Some w \<Rightarrow> if w \<le> tick then upd_tcb h i (set_state Ready) s else s)"
      using same [of "wake tick" "\<lambda>t. t"] same [of "wake tick" "set_state Ready"] id
      by (auto simp: wake_def split: option.split)
    with Some show ?thesis
      by (auto simp: wake_task_def kbind_eval peek kret_def set_task_state_def kmodify_def split: option.split)
  qed
qed

lemma benign_wake [simp]: "benign (wake tick)"
  by (auto simp: benign_def wake_def split: option.split)

lemma wake_loop:
  assumes "kinv L s" "h < 2" "\<forall>i\<in>set is. i < 32"
  shows "kforeach is (wake_task h tick) s = (fold (\<lambda>i. upd_tcb h i (wake tick)) is s, Ok ())"
  using assms by (induction "is" arbitrary: s) (simp_all add: kdefs wake_one kinv_upd_tcb)

lemma wake_sleepers_run:
  "kinv L s \<Longrightarrow> h < 2 \<Longrightarrow>
     wake_sleepers h tick s = (fold (\<lambda>i. upd_tcb h i (wake tick)) [0..<32] s, Ok ())"
  unfolding wake_sleepers_def by (subst wake_loop) (simp_all add: MAX_PARTITIONS_def)

lemma fold_wake:
  assumes "h < length (schedulers s)" "distinct is"
  shows "tcb_at (fold (\<lambda>i. upd_tcb h i (wake tick)) is s) h' i
      = (if h' = h \<and> i \<in> set is then map_option (wake tick) (tcb_at s h i) else tcb_at s h' i)"
    "sched_lock (fold (\<lambda>i. upd_tcb h i (wake tick)) is s) = sched_lock s"
    "tick_count (fold (\<lambda>i. upd_tcb h i (wake tick)) is s) = tick_count s"
  using assms by (induction "is" arbitrary: s) (auto simp: tcb_at_upd_tcb)

lemma kstate_wake:
  "map_option task_state (map_option (wake tick) x) = (case map_option task_state x of
     None \<Rightarrow> None
   | Some st \<Rightarrow> (case sleeping_until st of None \<Rightarrow> Some st | Some w \<Rightarrow> Some (if w \<le> tick then Ready else st)))"
  by (cases x) (auto simp: wake_def split: option.split)

lemma timer_run:
  assumes k: "kinv (stacks e) s" and l: "locks_ok (hart_id e) s" and h: "hart_id e < 2"
  shows "\<exists>s' sp'. on_timer e sp s = (s', Ok sp') \<and> tick_count s' = tick_count s + 1
     \<and> mtimecmp s' = (mtimecmp s)(hart_id e := mtime e + 40000)
     \<and> (\<forall>i st. kstate s (hart_id e) i = Some st \<and> st \<noteq> Ready \<and> st \<noteq> Running \<longrightarrow>
          kstate s' (hart_id e) i \<in> (case sleeping_until st of
              Some w \<Rightarrow> if w \<le> tick_count s + 1 then {Some Ready, Some Running} else {Some st}
            | None \<Rightarrow> {Some st}))
     \<and> (\<forall>i h'. h' \<noteq> hart_id e \<longrightarrow> kstate s' h' i = kstate s h' i)"
proof -
  let ?h = "hart_id e" and ?sl = "acquired (hart_id e) (sched_lock s)" and ?tick = "tick_count s + 1"
  let ?tc = "(mtimecmp s)(hart_id e := mtime e + 40000)"
  let ?s0 = "s\<lparr>tick_count := ?tick, mtimecmp := ?tc, sched_lock := ?sl\<rparr>"
  let ?s1 = "fold (\<lambda>i. upd_tcb ?h i (wake ?tick)) [0..<32] ?s0"
  have k0: "kinv (stacks e) ?s0" using k by simp
  have len: "?h < length (schedulers ?s0)" using kinvD(1) [OF k h] h by simp
  have kfold: "kinv (stacks e) (fold (\<lambda>i. upd_tcb ?h i (wake ?tick)) is t)" if "kinv (stacks e) t" for t "is"
    using that by (induction "is" arbitrary: t) (simp_all add: kinv_upd_tcb h)
  have flds: "sched_lock ?s1 = ?sl" "tick_count ?s1 = ?tick" "mtimecmp ?s1 = ?tc"
  proof -
    have "mtimecmp (fold (\<lambda>i. upd_tcb ?h i (wake ?tick)) is t) = mtimecmp t" for "is" t
      by (induction "is" arbitrary: t) simp_all
    then show "sched_lock ?s1 = ?sl" "tick_count ?s1 = ?tick" "mtimecmp ?s1 = ?tc"
      using fold_wake(2,3) [OF len, of "[0..<32]"] by simp_all
  qed
  have st1: "kstate ?s1 h' i = (if h' = ?h then case kstate s ?h i of None \<Rightarrow> None
      | Some st \<Rightarrow> (case sleeping_until st of None \<Rightarrow> Some st | Some w \<Rightarrow> Some (if w \<le> ?tick then Ready else st))
      else kstate s h' i)" for h' i
  proof -
    have "tcb_at s ?h i = None" if "\<not> i < 32"
      using that tcb_at_less [OF k h, of i] by fastforce
    then show ?thesis
      by (cases "i < 32") (auto simp: kstate_def fold_wake(1) [OF len] kstate_wake simp del: option.map_comp)
  qed
  have "wp (switch_task e sp True) (\<lambda>sp' s'. sched_lock s' = ?sl \<and> tick_count s' = ?tick
      \<and> mtimecmp s' = ?tc \<and> switch_frame ?h ?s1 s') (\<lambda>_ _. False) ?s1"
    by (rule switch_task_wp [OF kfold [OF k0] h])
      (use flds in \<open>simp add: switch_frame_fields\<close>)
  then have "wp (on_timer e sp) (\<lambda>sp' s'. tick_count s' = ?tick \<and> mtimecmp s' = ?tc
      \<and> (\<exists>l. switch_frame ?h ?s1 (s'\<lparr>sched_lock := l\<rparr>))) (\<lambda>_ _. False) s"
    unfolding on_timer_def Let_def wp_kseq wp_kbind wp_kmodify wp_kgets
    by (intro sched_guard_wp; use l h k0 in
        \<open>simp add: locks_ok_def wp_kseq wp_def [of "wake_sleepers _ _"] wake_sleepers_run [of "stacks e"]\<close>)
      (erule wp_mono, auto intro!: exI [of _ ?sl] simp: record_sched_lock)
  then obtain s' sp' l' where r: "on_timer e sp s = (s', Ok sp')" "tick_count s' = ?tick" "mtimecmp s' = ?tc"
    and f: "switch_frame ?h ?s1 (s'\<lparr>sched_lock := l'\<rparr>)" by (auto simp: wp_no_panic)
  have *: "kstate s' ?h i \<in> (case sleeping_until st of
        Some w \<Rightarrow> if w \<le> ?tick then {Some Ready, Some Running} else {Some st} | None \<Rightarrow> {Some st})"
    if "kstate s ?h i = Some st" "st \<noteq> Ready" "st \<noteq> Running" for i st
    using switch_frame_kstate(1,2) [OF f, of ?h i] that st1 [of ?h i]
    by (auto split: option.splits if_splits)
  show ?thesis
    using r * switch_frame_kstate(3) [OF f] st1 by auto
qed

section \<open>Blocking on a mutex and handing it over\<close>

lemma mutex_call_wp:
  assumes k: "kinv L s" and l: "locks_ok h s" and h: "h < 2"
    and body: "\<And>sl. wp (body (current s h)) (\<lambda>a s'. sched_lock s' = sl \<and> Q a (s'\<lparr>sched_lock := sched_lock s\<rparr>)) E
      (s\<lparr>sched_lock := sl, mutex_lock := taken h\<rparr>)"
  shows "wp (sched_guard h (kbind (running_idx h) (\<lambda>r. kseq (mutex_acquire h) (body r)))) Q E s"
proof (rule sched_guard_wp)
  show "usable h (sched_lock s)" using l by (simp add: locks_ok_def)
  have len: "h < length (schedulers s)" using kinvD(1) [OF k h] h by simp
  show "wp (kbind (running_idx h) (\<lambda>r. kseq (mutex_acquire h) (body r)))
     (\<lambda>a s'. sched_lock s' = acquired h (sched_lock s) \<and> Q a (s'\<lparr>sched_lock := sched_lock s\<rparr>)) E
     (s\<lparr>sched_lock := acquired h (sched_lock s)\<rparr>)"
    using body [of "acquired h (sched_lock s)"] l len h by (simp add: kvc locks_ok_def)
qed (rule h)

lemma lock_taken_run:
  assumes k: "kinv (stacks e) s" and l: "locks_ok (hart_id e) s" and h: "hart_id e < 2"
    and r: "r = current s (hart_id e)" and t: "tcb_at s (hart_id e) r = Some tcb"
    and c: "read_frame (ram s) sp 6 < 8"
      "lock_cap (capabilities tcb ! unat (read_frame (ram s) sp 6)) = Some idx"
    and m: "slot (mutexes s) (unat idx) = Some m" "locked m"
  shows "\<exists>s' sp'. sys_lock e sp s = (s', Ok sp') \<and> ram s' = ram s
     \<and> mutexes s' = (mutexes s)[unat idx := Some (m\<lparr>waiters_bitmap := waiters_bitmap m OR push_bit r 1\<rparr>)]
     \<and> kstate s' (hart_id e) r = Some (BlockedOnMutex idx) \<and> gave_way (hart_id e) sp s sp' s'"
proof -
  let ?h = "hart_id e" and ?m = "m\<lparr>waiters_bitmap := waiters_bitmap m OR push_bit r 1\<rparr>"
  let ?ms = "(mutexes s)[unat idx := Some ?m]"
  let ?Q = "\<lambda>sp' s'. ram s' = ram s \<and> mutexes s' = ?ms
     \<and> kstate s' ?h r = Some (BlockedOnMutex idx) \<and> gave_way ?h sp s sp' s'"
  have len: "?h < length (schedulers s)" using kinvD(1) [OF k h] h by simp
  have cap: "capabilities tcb ! unat (read_frame (ram s) sp 6) \<in> set (capabilities tcb)"
    using kinvD(6) [OF k h t] c(1) by (auto simp: tcb_ok_def word_less_nat_alt)
  have wh: "waiter_hart r = ?h" and i8: "unat idx < 8"
    using mutex_cap_ok [OF k h t cap] c(2) by auto
  have "mutex_ok s ?m" by (rule mutex_ok_waits [OF kinvD(7) [OF k h m(1)]]) (use t wh in simp)
  then have km: "kinv (stacks e) (s\<lparr>mutexes := ?ms\<rparr>)" by (rule kinv_mutexes [OF k _ i8])
  have sw: "wp (switch_task e sp False)
      (\<lambda>sp' s'. (sched_lock s' = sl \<and> mutex_lock s' = spinlock_new \<and> ram s' = ram s \<and> mutexes s' = ?ms)
         \<and> kinv (stacks e) s' \<and> kstate s' ?h r = Some (BlockedOnMutex idx) \<and> gave_way ?h sp s sp' s') E
      (upd_tcb ?h r (set_state (BlockedOnMutex idx)) (s\<lparr>mutexes := ?ms, sched_lock := sl, mutex_lock := spinlock_new\<rparr>))"
    for sl E
    by (rule block_switch_wp) (use km h r switch_frame_fields(1,2,3,6) in auto)
  have fin: "wp (lock_result ?h r sp (False, True, sp')) (\<lambda>a s'. sched_lock s' = sl \<and> ?Q a s') E s'"
    if A: "sched_lock s' = sl" and B: "?Q sp' s'" and K: "kinv (stacks e) s'" for sl sp' s' E
  proof -
    obtain t' where "tcb_at s' ?h r = Some t'" "task_state t' = BlockedOnMutex idx"
      using B by (auto simp: kstate_def)
    then show ?thesis using A B kinvD(1) [OF K h] h by (simp add: lock_result_def kvc)
  qed
  have body: "wp (kbind (with_mutex lock_cap ?h r (read_frame (ram s) sp 6) sp (lock_mutex e r sp)) (lock_result ?h r sp))
      (\<lambda>a s'. sched_lock s' = sl \<and> ?Q a s') (\<lambda>_ _. False) (s\<lparr>sched_lock := sl, mutex_lock := taken ?h\<rparr>)" for sl
  proof -
    have w: "with_mutex lock_cap ?h r (read_frame (ram s) sp 6) sp (lock_mutex e r sp) (s\<lparr>sched_lock := sl, mutex_lock := taken ?h\<rparr>)
      = lock_mutex e r sp idx m (s\<lparr>sched_lock := sl, mutex_lock := taken ?h\<rparr>)"
      by (rule with_mutex_allowed [of "stacks e" _ _ _ tcb]) (use k h t c m in simp_all)
    have eq: "upd_tcb ?h r f (s\<lparr>sched_lock := sl, mutex_lock := taken ?h\<rparr>)\<lparr>mutexes := ms, mutex_lock := spinlock_new\<rparr>
      = upd_tcb ?h r f (s\<lparr>mutexes := ms, sched_lock := sl, mutex_lock := spinlock_new\<rparr>)" for f ms
      by (simp add: upd_tcb_def upd_sched_def)
    have "wp (lock_mutex e r sp idx m) (\<lambda>a. wp (lock_result ?h r sp a)
        (\<lambda>a s'. sched_lock s' = sl \<and> ?Q a s') (\<lambda>_ _. False)) (\<lambda>_ _. False) (s\<lparr>sched_lock := sl, mutex_lock := taken ?h\<rparr>)"
      unfolding lock_mutex_def Let_def using m(2) t len
      by (simp add: kvc eq del: push_bit_of_1) (rule wp_mono [OF sw], use fin in auto)
    then show ?thesis unfolding wp_kbind by (simp add: wp_def w)
  qed
  have "wp (sys_lock e sp) ?Q (\<lambda>_ _. False) s"
    unfolding sys_lock_def Let_def wp_kbind [of "frame_read _ _"] access_wp
    by (rule mutex_call_wp [OF k l h]) (use body in \<open>simp add: r [symmetric]\<close>)
  then show ?thesis by (auto simp: wp_no_panic)
qed

end
