(* ===== verification/Demo.thy ===== *)
theory Demo
  imports Syscalls
begin

text \<open>
  Concrete kernel states: the booted kernel with a chosen task running on each core, a chosen
  state of mutex 0, and the words of a system call in the running task's frame. The concrete
  instances of the properties of the trap handler are taken at these states.
\<close>

definition boot_tcb :: "nat \<Rightarrow> nat \<Rightarrow> TaskControlBlock option" where
  "boot_tcb h i = slot (task_table (boot_schedulers demo_layout ! h)) i"

definition boot_name :: "nat \<Rightarrow> nat \<Rightarrow> string" where
  "boot_name h i = (case boot_tcb h i of None \<Rightarrow> [] | Some tcb \<Rightarrow> task_name tcb)"

definition demo_at :: "nat \<Rightarrow> nat \<Rightarrow> KernelMutex \<Rightarrow> mem \<Rightarrow> kernel" where
  "demo_at i j m0 m = demo_kernel\<lparr>
     schedulers := [start_on i (boot_schedulers demo_layout ! 0), start_on j (boot_schedulers demo_layout ! 1)],
     mutexes := MUTEXES[0 := Some m0],
     pmp := (\<lambda>h. fst (reprogram_pmp_stack demo_layout (boot_name h (if h = 0 then i else j)) (pmp demo_kernel h))),
     ram := m\<rparr>"

definition free_mutex :: KernelMutex where
  "free_mutex = \<lparr>locked = False, owner_task_idx = None, waiters_bitmap = 0\<rparr>"

definition held_mutex :: "u8 \<Rightarrow> u32 \<Rightarrow> KernelMutex" where
  "held_mutex k bm = \<lparr>locked = True, owner_task_idx = Some k, waiters_bitmap = bm\<rparr>"

text \<open>A frame with a system call number in \<^verbatim>\<open>a7\<close> and three arguments.\<close>

definition demo_sp :: usize where
  "demo_sp = 0x3FC80100"

definition call_ram :: "u32 \<Rightarrow> u32 \<Rightarrow> u32 \<Rightarrow> u32 \<Rightarrow> mem" where
  "call_ram n a0 a1 a2 =
     write_frame (write_frame (write_frame (write_frame (\<lambda>_. 0) demo_sp 13 n) demo_sp 6 a0) demo_sp 7 a1) demo_sp 8 a2"

lemma call_ram_read [simp]:
  "read_frame (call_ram n a0 a1 a2) demo_sp 13 = n" "read_frame (call_ram n a0 a1 a2) demo_sp 6 = a0"
  "read_frame (call_ram n a0 a1 a2) demo_sp 7 = a1" "read_frame (call_ram n a0 a1 a2) demo_sp 8 = a2"
  by (simp_all add: call_ram_def read_write_frame)

lemma demo_at_fields [simp]:
  "mutexes (demo_at i j m0 m) = MUTEXES[0 := Some m0]" "ram (demo_at i j m0 m) = m"
  "sched_lock (demo_at i j m0 m) = spinlock_new" "mutex_lock (demo_at i j m0 m) = spinlock_new"
  "tick_count (demo_at i j m0 m) = 0" "length (schedulers (demo_at i j m0 m)) = 2"
  "current_partition_idx (schedulers (demo_at i j m0 m) ! 0) = i"
  "current_partition_idx (schedulers (demo_at i j m0 m) ! Suc 0) = j"
  "locks_ok h (demo_at i j m0 m)"
  by (simp_all add: demo_at_def demo_kernel_facts start_on_def locks_ok_def usable_def spinlock_new_def)

lemma demo_mutex [simp]: "slot (MUTEXES[0 := x]) 0 = x" "MUTEXES[0 := x, 0 := y] = MUTEXES[0 := y]"
  by (simp_all add: MUTEXES_def slot_def)

lemma held_mutex_simps [simp]:
  "locked (held_mutex k bm)" "owner_task_idx (held_mutex k bm) = Some k" "waiters_bitmap (held_mutex k bm) = bm"
  "held_mutex k bm\<lparr>waiters_bitmap := bm'\<rparr> = held_mutex k bm'"
  "held_mutex k bm\<lparr>owner_task_idx := Some k'\<rparr> = held_mutex k' bm"
  "\<not> locked free_mutex" "owner_task_idx free_mutex = None"
  "free_mutex\<lparr>locked := True, owner_task_idx := Some k\<rparr> = held_mutex k 0"
  by (simp_all add: held_mutex_def free_mutex_def)

lemma demo_tcb_at:
  "tcb_at (demo_at i j m0 m) 0 k = map_option (if k = i then set_state Running else id) (boot_tcb 0 k)"
  "tcb_at (demo_at i j m0 m) (Suc 0) k = map_option (if k = j then set_state Running else id) (boot_tcb 1 k)"
  by (auto simp: tcb_at_def demo_at_def start_on_def slot_upd_slot boot_tcb_def option.map_id0)

lemma boot_tcb_simps [simp]:
  "boot_tcb 0 0 = Some (new_tcb (frame_top (TASK_WD_STACK demo_layout)) 0 ''Watchdog'' no_caps)"
  "boot_tcb 0 (Suc 0) = Some (new_tcb (frame_top (TASK_A_STACK demo_layout)) 1 ''Task A'' task_a_caps)"
  "boot_tcb 0 4 = Some (new_tcb (frame_top (HSM_STACK demo_layout)) 4 ''HSM Task'' hsm_caps)"
  "boot_tcb (Suc 0) 2 = Some (new_tcb (frame_top (TASK_B_STACK demo_layout)) 2 ''Task B'' task_b_caps)"
  "boot_tcb (Suc 0) 3 = Some (new_tcb (frame_top (TASK_C_STACK demo_layout)) 3 ''Task C'' task_c_caps)"
  "boot_tcb 0 31 = Some (new_tcb (frame_top (IDLE_STACK_0 demo_layout)) 31 ''Idle 0'' no_caps)"
  "boot_tcb (Suc 0) 31 = Some (new_tcb (frame_top (IDLE_STACK_1 demo_layout)) 31 ''Idle 1'' no_caps)"
  by (simp_all add: boot_tcb_def boot_slots)

lemma boot_tcb_ready: "h < 2 \<Longrightarrow> boot_tcb h k = Some t \<Longrightarrow> task_state t = Ready"
  by (auto simp: less_2_cases_iff boot_tcb_def boot_slots split: if_splits)

lemma demo_tcb_runnable:
  "h < 2 \<Longrightarrow> tcb_at (demo_at i j m0 m) h k = Some t \<Longrightarrow> task_state t = Ready \<or> task_state t = Running"
  using boot_tcb_ready by (fastforce simp: less_2_cases_iff demo_tcb_at split: if_splits)

lemma demo_pmp:
  assumes "h < 2"
  shows "pmp_configured demo_layout name (fst (reprogram_pmp_stack demo_layout name (pmp demo_kernel h)))"
proof -
  obtain old where "pmp_configured demo_layout old (pmp demo_kernel h)"
    using kinvD(5) [OF demo_kernel_facts(1) assms] by (auto simp: pmp_current_def)
  from reprogram_configured [OF this, of name] show ?thesis by auto
qed

lemma demo_kinv:
  assumes ij: "boot_tcb 0 i \<noteq> None" "boot_tcb 1 j \<noteq> None" and m0: "mutex_ok demo_kernel m0"
  shows "kinv demo_layout (demo_at i j m0 m)"
proof (rule kinvI)
  let ?s = "demo_at i j m0 m"
  let ?c = "\<lambda>h. if h = 0 then i else j"
  have sched: "schedulers ?s ! h = start_on (?c h) (boot_schedulers demo_layout ! h)" if "h < 2" for h
    using that by (auto simp: demo_at_def less_2_cases_iff)
  have slots: "slot (task_table (boot_schedulers demo_layout ! h)) (?c h) \<noteq> None" if "h < 2" for h
    using that ij by (auto simp: boot_tcb_def less_2_cases_iff)
  show "sched_wf (schedulers ?s ! h)" if "h < 2" for h
    using slots [OF that] start_on_wf boot_scheduler_ok(1,2) [OF that] by (fastforce simp: sched [OF that])
  show "tcb_ok h k tcb" if "h < 2" "tcb_at ?s h k = Some tcb" for h k tcb
    using that(2) boot_scheduler_ok(3) [OF that(1), of demo_layout k]
    by (auto simp: tcb_at_def sched [OF that(1)] start_on_def slot_upd_slot split: if_splits)
  show "pmp_current demo_layout ?s h" if "h < 2" for h
    using slots [OF that] demo_pmp [OF that]
    by (auto simp: pmp_current_def tcb_at_def sched [OF that] start_on_def)
      (auto simp: demo_at_def boot_name_def boot_tcb_def)
  have "(tcb_at ?s h k = None) = (tcb_at demo_kernel h k = None)" if "h < 2" for h k
    using that by (auto simp: tcb_at_def sched demo_kernel_facts start_on_def slot_upd_slot less_2_cases_iff split: if_splits)
  then have same: "mutex_ok ?s m = mutex_ok demo_kernel m" for m
    by (simp add: mutex_ok_def)
  show "mutex_ok ?s m" if "slot (mutexes ?s) k = Some m" for k m
    using that m0 by (auto simp: same MUTEXES_def slot_def nth_Cons split: if_splits nat.splits)
qed (simp_all add: demo_at_def demo_kernel_facts MUTEXES_def kinvD(3) [OF demo_kernel_facts(1), of 0])

lemma demo_registered:
  "tcb_at demo_kernel 0 (Suc 0) \<noteq> None" "tcb_at demo_kernel (Suc 0) 3 \<noteq> None"
  by (simp_all add: tcb_at_def demo_kernel_facts start_on_def slot_upd_slot boot_slots)

lemma mutex_ok_demo [simp]:
  "mutex_ok demo_kernel free_mutex"
  "mutex_ok demo_kernel (held_mutex 3 2)" "mutex_ok demo_kernel (held_mutex 3 0)"
  "mutex_ok demo_kernel (held_mutex 1 8)" "mutex_ok demo_kernel (held_mutex 1 2)"
proof -
  have "bit (2 :: u32) w \<longleftrightarrow> w = 1" "bit (8 :: u32) w \<longleftrightarrow> w = 3" for w
    using bit_exp_iff [of 1 w, where 'a = u32] bit_exp_iff [of 3 w, where 'a = u32]
      bit_imp_le_length [of "2 :: u32" w] bit_imp_le_length [of "8 :: u32" w] by auto
  then show "mutex_ok demo_kernel free_mutex" "mutex_ok demo_kernel (held_mutex 3 2)"
    "mutex_ok demo_kernel (held_mutex 3 0)" "mutex_ok demo_kernel (held_mutex 1 8)" "mutex_ok demo_kernel (held_mutex 1 2)"
    using demo_registered by (auto simp: mutex_ok_def free_mutex_def held_mutex_def waiter_hart_def)
qed

lemma demo_checkin [simp]: "length (last_checkin_tick (demo_at i j m0 m)) = 32"
  using kinvD(3) [OF demo_kernel_facts(1), of 0] by (simp add: demo_at_def)

end
