(* ===== verification/Mutex_Calls.thy ===== *)
theory Mutex_Calls
  imports Demo
begin

text \<open>
  System calls 3 and 4 as the tasks see them, and the system calls that a capability refuses: the
  state after the trap, on every branch.
\<close>

section \<open>The hart goes to a ready task\<close>

text \<open>A task that is not on the ready list gives up the hart.\<close>

lemma yield_switch_wp:
  assumes k: "kinv (stacks e) s" and h: "hart_id e < 2"
    and run: "kstate s (hart_id e) (current s (hart_id e)) \<noteq> Some Ready"
    and Q: "\<And>sp' s'. kinv (stacks e) s' \<Longrightarrow> switch_frame (hart_id e) s s' \<Longrightarrow>
      gave_way (hart_id e) sp s sp' s' \<Longrightarrow> Q sp' s'"
  shows "wp (switch_task e sp False) Q E s"
proof -
  let ?h = "hart_id e"
  have "wp (switch_task e sp False) (\<lambda>sp' s'. (kinv (stacks e) s' \<and> switch_frame ?h s s')
      \<and> switch_task e sp False s = (s', Ok sp')) E s"
    by (rule wp_eq, rule switch_task_wp [OF k h]) simp
  then show ?thesis
  proof (rule wp_mono)
    fix sp' s'
    assume *: "(kinv (stacks e) s' \<and> switch_frame ?h s s') \<and> switch_task e sp False s = (s', Ok sp')"
    have "gave_way ?h sp s sp' s'"
      unfolding gave_way_def using switch_task_forced [OF k h, of _ sp s' sp'] * run by fastforce
    then show "Q sp' s'" using * by (intro Q) auto
  qed
qed

section \<open>Unlocking\<close>

text \<open>The mutex after an unlock: handed to the lowest waiter, or free.\<close>

definition passed_on :: "KernelMutex \<Rightarrow> KernelMutex" where
  "passed_on m = (case first_waiter (waiters_bitmap m) of
     None \<Rightarrow> m\<lparr>locked := False, owner_task_idx := None\<rparr>
   | Some w \<Rightarrow> m\<lparr>owner_task_idx := Some (of_nat w), waiters_bitmap := waiters_bitmap m AND NOT (push_bit w 1)\<rparr>)"

text \<open>The kernel after the hand-over and before the switch: the waiter is ready, finds 0 in
  \<^verbatim>\<open>a0\<close>, and its core is notified.\<close>

definition handed_over :: "nat \<Rightarrow> u8 \<Rightarrow> KernelMutex \<Rightarrow> kernel \<Rightarrow> kernel" where
  "handed_over h idx m s =
     (let s1 = s\<lparr>mutexes := (mutexes s)[unat idx := Some (passed_on m)]\<rparr> in
      case first_waiter (waiters_bitmap m) of
        None \<Rightarrow> s1
      | Some w \<Rightarrow>
          (let sp_w = (case tcb_at s (waiter_hart w) w of None \<Rightarrow> 0 | Some t \<Rightarrow> saved_sp t);
               s2 = (upd_tcb (waiter_hart w) w (set_state Ready) s1)\<lparr>ram := write_frame (ram s) sp_w 6 0\<rparr> in
           if waiter_hart w \<noteq> h then s2\<lparr>msip := (msip s)(waiter_hart w := 1)\<rparr> else s2))"

lemma handed_over_lock [simp]:
  "handed_over h idx m (s\<lparr>mutex_lock := l\<rparr>) = handed_over h idx m s\<lparr>mutex_lock := l\<rparr>"
  "handed_over h idx m (s\<lparr>sched_lock := l\<rparr>) = handed_over h idx m s\<lparr>sched_lock := l\<rparr>"
  "sched_lock (handed_over h idx m s) = sched_lock s" "mutex_lock (handed_over h idx m s) = mutex_lock s"
  "mutexes (handed_over h idx m s) = (mutexes s)[unat idx := Some (passed_on m)]"
  by (simp_all add: handed_over_def Let_def upd_tcb_def upd_sched_def split: option.split)

lemma handed_over_current [simp]: "current (handed_over h idx m s) h' = current s h'"
  by (simp add: handed_over_def Let_def split: option.split)

lemma switch_frame_sched_lock:
  assumes "switch_frame h (s\<lparr>sched_lock := l\<rparr>) s'"
  shows "switch_frame h s (s'\<lparr>sched_lock := sched_lock s\<rparr>)"
proof -
  from assms obtain ss p tr where "s' = s\<lparr>sched_lock := l\<rparr>\<lparr>schedulers := ss, pmp := p, trace := trace s @ tr\<rparr>"
    by (auto simp: switch_frame_def)
  then have "s'\<lparr>sched_lock := sched_lock s\<rparr> = s\<lparr>schedulers := ss, pmp := p, trace := trace s @ tr\<rparr>" by simp
  then have "\<exists>ss p tr. s'\<lparr>sched_lock := sched_lock s\<rparr> = s\<lparr>schedulers := ss, pmp := p, trace := trace s @ tr\<rparr>" by blast
  moreover note assms [unfolded switch_frame_def, THEN conjunct2]
  ultimately show ?thesis unfolding switch_frame_def by (simp cong: option.case_cong)
qed

lemma hand_mutex_run:
  assumes k: "kinv L s" and ml: "mutex_lock s = taken h" and h: "h = hart_id e"
    and m: "slot (mutexes s) (unat idx) = Some m"
  shows "hand_mutex e idx m (first_waiter (waiters_bitmap m)) s
     = (handed_over h idx m s\<lparr>mutex_lock := spinlock_new\<rparr>, Ok ())"
proof (cases "first_waiter (waiters_bitmap m)")
  case None
  then show ?thesis using ml
    by (simp add: hand_mutex_def handed_over_def passed_on_def kdefs put_mutex_def mutex_release_def zoom_def
        spin_unlock_taken)
next
  case (Some w)
  have "mutex_ok s m" using kinvD(7) [OF k, of 0] m by simp
  then obtain tcb where t: "tcb_at s (waiter_hart w) w = Some tcb" using mutex_ok_waiter Some by blast
  have len: "waiter_hart w < length (schedulers s)" using kinvD(1) [OF k, of 0] by simp
  have "get_tcb (waiter_hart w) w (s\<lparr>mutexes := ms\<rparr>) = (s\<lparr>mutexes := ms\<rparr>, Ok tcb)" for ms
    by (rule get_tcb_run) (use t len in simp_all)
  then show ?thesis using Some ml t h
    by (simp add: hand_mutex_def handed_over_def passed_on_def Let_def kdefs put_mutex_def mutex_release_def zoom_def
        spin_unlock_taken set_task_state_def frame_write_def write_msip_def upd_tcb_def upd_sched_def)
qed

lemma unlock_run:
  assumes k: "kinv (stacks e) s" and l: "locks_ok (hart_id e) s" and h: "hart_id e < 2"
    and r: "r = current s (hart_id e)" and t: "tcb_at s (hart_id e) r = Some tcb" "task_state tcb = Running"
    and c: "read_frame (ram s) sp 6 < 8"
      "unlock_cap (capabilities tcb ! unat (read_frame (ram s) sp 6)) = Some idx"
    and m: "slot (mutexes s) (unat idx) = Some m" "owner_task_idx m = Some (of_nat r)"
      "\<not> bit (waiters_bitmap m) r"
  shows "\<exists>s1 sp'. sys_unlock e sp s = (s1\<lparr>ram := write_frame (ram s1) sp 6 0\<rparr>, Ok sp')
     \<and> switch_frame (hart_id e) (handed_over (hart_id e) idx m s) s1
     \<and> gave_way (hart_id e) sp (handed_over (hart_id e) idx m s) sp' s1"
proof -
  let ?h = "hart_id e" and ?t = "handed_over (hart_id e) idx m s"
  let ?Q = "\<lambda>sp' s1. switch_frame ?h ?t s1 \<and> gave_way ?h sp ?t sp' s1"
  have i8: "unat idx < 8" using slot_Some_less [OF m(1)] kinvD(2) [OF k h] by simp
  have ok: "mutex_ok s m" by (rule kinvD(7) [OF k h m(1)])
  have kt: "kinv (stacks e) ?t"
  proof -
    let ?s1 = "s\<lparr>mutex_lock := taken ?h\<rparr>"
    have "wp (hand_mutex e idx m (first_waiter (waiters_bitmap m))) (\<lambda>_. guarded e (sched_lock s) spinlock_new) (\<lambda>_ _. False) ?s1"
      by (rule hand_mutex_safe) (use k i8 m(2) ok mutex_ok_cong [of ?s1 s m] in \<open>simp_all add: guarded_def\<close>)
    then show ?thesis
      using hand_mutex_run [of "stacks e" ?s1 ?h e idx m] k m(1) by (simp add: wp_def guarded_def)
  qed
  have other: "w \<noteq> r" if "first_waiter (waiters_bitmap m) = Some w" for w
    using that m(3) by (auto simp: first_waiter_Some)
  have len: "?h < length (schedulers s)" "waiter_hart w < length (schedulers s)" for w
    using kinvD(1) [OF k h] h by simp_all
  have run: "kstate ?t ?h (current ?t ?h) \<noteq> Some Ready"
    using t r other len
    by (auto simp: handed_over_def Let_def kstate_upd_tcb kstate_def [of s] split: option.split)
  have sw: "wp (switch_task e sp False) (\<lambda>sp' s'. sched_lock s' = sl \<and> ?Q sp' (s'\<lparr>sched_lock := sched_lock s\<rparr>)) E
      (?t\<lparr>sched_lock := sl\<rparr>)" for sl E
    by (rule yield_switch_wp)
      (use kt h run in \<open>auto dest: switch_frame_fields(2) switch_frame_sched_lock simp: gave_way_fields\<close>)
  have w: "with_mutex unlock_cap ?h r (read_frame (ram s) sp 6) sp (unlock_mutex e r sp)
      (s\<lparr>sched_lock := sl, mutex_lock := taken ?h\<rparr>)
    = unlock_mutex e r sp idx m (s\<lparr>sched_lock := sl, mutex_lock := taken ?h\<rparr>)" for sl
    by (rule with_mutex_allowed [of "stacks e" _ _ _ tcb]) (use k h t c m in simp_all)
  have u: "wp (unlock_mutex e r sp idx m) (\<lambda>a. wp (unlock_result sp a)
      (\<lambda>sp' s'. sched_lock s' = sl \<and> (\<exists>s1. s'\<lparr>sched_lock := sched_lock s\<rparr> = s1\<lparr>ram := write_frame (ram s1) sp 6 0\<rparr> \<and> ?Q sp' s1)) E) E
      (s\<lparr>sched_lock := sl, mutex_lock := taken ?h\<rparr>)" for sl E
  proof -
    let ?s0 = "s\<lparr>sched_lock := sl, mutex_lock := taken ?h\<rparr>"
    have hw: "highest_waiter (waiters_bitmap m) ?s0 = (?s0, Ok (first_waiter (waiters_bitmap m)))"
      by (rule mutex_highest_waiter_run [of "stacks e"]) (use k ok mutex_ok_cong [of ?s0 s m] in simp_all)
    have hm: "hand_mutex e idx m (first_waiter (waiters_bitmap m)) ?s0 = (?t\<lparr>sched_lock := sl\<rparr>, Ok ())"
      using hand_mutex_run [of "stacks e" ?s0 ?h e idx m] k m(1) l by (simp add: locks_ok_def)
    show ?thesis
      unfolding unlock_mutex_def wp_kseq wp_kbind wp_kassert
      by (simp add: m(2) wp_def [of "highest_waiter _"] hw wp_def [of "hand_mutex _ _ _ _"] hm) (rule wp_mono [OF sw], auto simp: unlock_result_def kvc intro!: exI [of _ "_\<lparr>sched_lock := sched_lock s\<rparr>"])
  qed
  have "wp (sys_unlock e sp) (\<lambda>sp' s'. \<exists>s1. s' = s1\<lparr>ram := write_frame (ram s1) sp 6 0\<rparr> \<and> ?Q sp' s1) (\<lambda>_ _. False) s"
    unfolding sys_unlock_def Let_def wp_kbind [of "frame_read _ _"] access_wp
    by (rule mutex_call_wp [OF k l h]) (use u in \<open>simp add: r [symmetric] wp_kbind wp_def [of "with_mutex _ _ _ _ _ _"] w wp_def [of "unlock_mutex _ _ _ _ _"]\<close>)
  then show ?thesis by (auto simp: wp_no_panic)
qed

lemma foreign_unlock_run:
  assumes k: "kinv (stacks e) s" and l: "locks_ok (hart_id e) s" and h: "hart_id e < 2"
    and f: "foreign_unlock e sp s"
  shows "sys_unlock e sp s = (s\<lparr>sched_lock := acquired (hart_id e) (sched_lock s), mutex_lock := taken (hart_id e)\<rparr>,
    Panic AssertFailed)"
proof -
  let ?h = "hart_id e" and ?r = "current s (hart_id e)" and ?sl = "acquired (hart_id e) (sched_lock s)"
  let ?s1 = "s\<lparr>sched_lock := ?sl, mutex_lock := taken ?h\<rparr>"
  from f obtain tcb idx m where t: "tcb_at s ?h ?r = Some tcb" and c: "read_frame (ram s) sp 6 < 8"
      "unlock_cap (capabilities tcb ! unat (read_frame (ram s) sp 6)) = Some idx"
    and m: "slot (mutexes s) (unat idx) = Some m" "owner_task_idx m \<noteq> Some (of_nat ?r)"
    by (auto simp: foreign_unlock_def Let_def split: option.splits)
  have len: "?h < length (schedulers s)" using kinvD(1) [OF k h] h by simp
  have "with_mutex unlock_cap ?h ?r (read_frame (ram s) sp 6) sp (unlock_mutex e ?r sp) ?s1
    = unlock_mutex e ?r sp idx m ?s1"
    by (rule with_mutex_allowed [of "stacks e" _ _ _ tcb]) (use k h t c m in simp_all)
  also have "\<dots> = (?s1, Panic AssertFailed)" using m(2) by (simp add: unlock_mutex_def kdefs)
  finally show ?thesis
    using spin_lock_acquired(1) [of ?h "sched_lock s"] spin_lock_free [OF h] l h len
    by (simp add: sys_unlock_def Let_def kdefs frame_read_def sched_guard_def with_guard_def zoom_def locks_ok_def
        running_idx_def sched_of_def mutex_acquire_def)
qed

section \<open>Zero words\<close>

lemma write_zero: "write_word m a 0 x = (if in_range x a 4 then 0 else m x)"
proof (cases "in_range x a 4")
  case True
  then have "unat (x - a) < 4" by (simp add: in_range_def word_less_nat_alt)
  then have "x - a = of_nat 0 \<or> x - a = of_nat 1 \<or> x - a = of_nat 2 \<or> x - a = of_nat 3"
    by (auto simp: word_unat_eq_iff)
  then have "x = a \<or> x = a + 1 \<or> x = a + 2 \<or> x = a + 3"
    by (auto simp: diff_eq_eq add.commute)
  with True show ?thesis by (auto simp: write_word_def)
qed (simp add: write_word_other)

lemma shifted_byte_zero: "k \<le> 24 \<Longrightarrow> push_bit k (ucast b :: u32) = 0 \<longleftrightarrow> b = 0" for b :: u8
proof
  assume k: "k \<le> 24" and z: "push_bit k (ucast b :: u32) = 0"
  show "b = 0"
  proof (rule bit_word_eqI)
    fix n assume n: "n < LENGTH(8)"
    have "\<not> bit (push_bit k (ucast b :: u32)) (k + n)" using z by simp
    then show "bit b n = bit (0 :: u8) n" using k n by (simp add: bit_simps)
  qed
qed simp

lemma zero_stays_zero:
  "read_frame m a i = 0 \<Longrightarrow> read_frame (write_frame m b j 0) a i = 0"
proof -
  have word0: "read_word m a = 0 \<longleftrightarrow> m a = 0 \<and> m (a + 1) = 0 \<and> m (a + 2) = 0 \<and> m (a + 3) = 0" for m a
    using shifted_byte_zero [of 0 "m a"] by (auto simp: read_word_def or_eq_0_iff shifted_byte_zero)
  show "read_frame m a i = 0 \<Longrightarrow> read_frame (write_frame m b j 0) a i = 0"
    by (simp add: read_frame_def write_frame_def word0 write_zero)
qed

section \<open>A task in a system call\<close>

text \<open>The running task of the hart has trapped with call number \<open>n\<close>; its frame is at \<open>sp\<close>.\<close>

definition in_call :: "u32 \<Rightarrow> trap_env \<Rightarrow> usize \<Rightarrow> TaskControlBlock \<Rightarrow> kernel \<Rightarrow> bool" where
  "in_call n e sp tcb s \<longleftrightarrow> kinv (stacks e) s \<and> locks_ok (hart_id e) s \<and> hart_id e < 2
     \<and> read_frame (ram s) sp 13 = n
     \<and> tcb_at s (hart_id e) (current s (hart_id e)) = Some tcb \<and> task_state tcb = Running"

text \<open>What the capability slot named in \<^verbatim>\<open>a0\<close> allows.\<close>

definition granted :: "(Capability \<Rightarrow> u8 option) \<Rightarrow> TaskControlBlock \<Rightarrow> usize \<Rightarrow> kernel \<Rightarrow> u8 option" where
  "granted pattern tcb sp s = (let cap_idx = read_frame (ram s) sp 6 in
     if cap_idx < 8 then pattern (capabilities tcb ! unat cap_idx) else None)"

lemma in_callD:
  assumes "in_call n e sp tcb s"
  shows "hart_id e < 2" "read_frame (ram s) sp 13 = n" "task_state tcb = Running"
  using assms by (simp_all add: in_call_def)

lemma in_call_state:
  assumes "in_call n e sp tcb s"
  shows "kinv (stacks e) (call_state e sp start s)" "locks_ok (hart_id e) (call_state e sp start s)"
    "tcb_at (call_state e sp start s) (hart_id e) (current s (hart_id e)) = Some tcb"
  using assms by (simp_all add: in_call_def)

lemma granted_Some:
  "granted pattern tcb sp s = Some x \<longleftrightarrow>
     read_frame (ram s) sp 6 < 8 \<and> pattern (capabilities tcb ! unat (read_frame (ram s) sp 6)) = Some x"
  by (simp add: granted_def Let_def)

lemma granted_None:
  "granted pattern tcb sp s = None \<longleftrightarrow>
     \<not> (read_frame (ram s) sp 6 < 8 \<and> pattern (capabilities tcb ! unat (read_frame (ram s) sp 6)) \<noteq> None)"
  by (simp add: granted_def Let_def)

section \<open>Properties\<close>

text \<open>C6: a system call that needs a capability (lock, unlock, send, receive) and whose slot number is
  not below 8, or whose slot does not hold a capability of the wanted kind, is refused: the task gets
  -1 in \<^verbatim>\<open>a0\<close> and goes on after the \<^verbatim>\<open>ecall\<close>; apart from the latency metric nothing else in the
  kernel changes.\<close>

theorem capability_enforcement:
  assumes "in_call n e sp tcb s" "call_pattern n = Some pattern" "granted pattern tcb sp s = None"
  shows "trap_handler e 8 sp start s =
    (s\<lparr>metric_trap_latency := end_cycle e - start,
       ram := write_frame (write_frame (ram s) sp 28 (read_frame (ram s) sp 28 + 4)) sp 6 (-1)\<rparr>, Ok sp)"
proof -
  let ?t = "call_state e sp start s"
  note D = in_callD [OF assms(1)] and S = in_call_state [OF assms(1), of start]
  have t: "tcb_at ?t (hart_id e) (current ?t (hart_id e)) = Some tcb" using S(3) by simp
  note refused = mutex_call_refused [OF S(1,2) D(1) t, of sp] ipc_call_refused [OF S(1,2) D(1) t, of sp]
  from assms(2) consider "n = 3" "pattern = lock_cap" | "n = 4" "pattern = unlock_cap"
    | "n = 6" "pattern = send_cap" | "n = 7" "pattern = recv_cap"
    unfolding call_pattern_def by (metis option.distinct(1) option.inject)
  then have "trap_handler e 8 sp start s = (?t\<lparr>ram := write_frame (ram ?t) sp 6 (-1)\<rparr>, Ok sp)"
    using assms(3) D(2) refused by cases (simp_all add: trap_syscall granted_None)
  then show ?thesis by (simp add: call_state_def)
qed

theorem capability_enforcement_witness:
  "read_frame (ram (fst (trap_handler (demo_env 1) 8 demo_sp 0 (demo_at 0 2 free_mutex (call_ram 3 0 0 0))))) demo_sp 6 = -1"
proof -
  let ?s = "demo_at 0 2 free_mutex (call_ram 3 0 0 0)"
  let ?b = "set_state Running (new_tcb (frame_top (TASK_B_STACK demo_layout)) 2 ''Task B'' task_b_caps)"
  have "in_call 3 (demo_env 1) demo_sp ?b ?s"
    by (simp add: in_call_def demo_kinv demo_tcb_at)
  from capability_enforcement [OF this, of lock_cap 0] show ?thesis
    by (simp add: call_pattern_def granted_def task_b_caps_def)
qed

text \<open>Locking a free mutex through a lock capability grants it at once: the caller becomes its owner,
  reads 0 in \<^verbatim>\<open>a0\<close> and keeps the hart; nothing else changes.\<close>

lemma lock_grants_free_mutex:
  assumes "in_call 3 e sp tcb s" "granted lock_cap tcb sp s = Some idx"
    and "slot (mutexes s) (unat idx) = Some m" "\<not> locked m"
  shows "trap_handler e 8 sp start s =
    ((call_state e sp start s)\<lparr>ram := write_frame (ram (call_state e sp start s)) sp 6 0,
       mutexes := (mutexes s)[unat idx := Some (m\<lparr>locked := True,
         owner_task_idx := Some (of_nat (current s (hart_id e)))\<rparr>)]\<rparr>, Ok sp)"
proof -
  note D = in_callD [OF assms(1)] and S = in_call_state [OF assms(1), of start]
  show ?thesis
    using lock_free_run [OF S(1,2) D(1) _ S(3), of sp idx m] assms(2-4) D(2,3)
    by (simp add: trap_syscall granted_Some)
qed

text \<open>C9: locking a mutex that is taken blocks the caller on it and enters it in the waiter bitmap;
  the hart goes to a ready task if there is one, with the caller's stack pointer saved.\<close>

theorem lock_blocks_on_taken_mutex:
  assumes "in_call 3 e sp tcb s" "granted lock_cap tcb sp s = Some idx"
    and "slot (mutexes s) (unat idx) = Some m" "locked m"
  shows "\<exists>s' sp'. trap_handler e 8 sp start s = (s', Ok sp')
     \<and> mutexes s' = (mutexes s)[unat idx := Some (m\<lparr>waiters_bitmap :=
          waiters_bitmap m OR push_bit (current s (hart_id e)) 1\<rparr>)]
     \<and> kstate s' (hart_id e) (current s (hart_id e)) = Some (BlockedOnMutex idx)
     \<and> gave_way (hart_id e) sp s sp' s'"
proof -
  note D = in_callD [OF assms(1)] and S = in_call_state [OF assms(1), of start]
  show ?thesis
    using lock_taken_run [OF S(1,2) D(1) _ S(3), of sp idx m] assms(2-4) D(2)
    by (auto simp: trap_syscall granted_Some)
qed

theorem lock_blocks_on_taken_mutex_witness:
  "\<exists>s' sp'. trap_handler (demo_env 0) 8 demo_sp 0 (demo_at 1 3 (held_mutex 3 0) (call_ram 3 0 0 0)) = (s', Ok sp')
     \<and> slot (mutexes s') 0 = Some (held_mutex 3 2) \<and> kstate s' 0 1 = Some (BlockedOnMutex 0) \<and> current s' 0 \<noteq> 1"
proof -
  let ?s = "demo_at 1 3 (held_mutex 3 0) (call_ram 3 0 0 0)"
  let ?a = "set_state Running (new_tcb (frame_top (TASK_A_STACK demo_layout)) 1 ''Task A'' task_a_caps)"
  have "in_call 3 (demo_env 0) demo_sp ?a ?s" by (simp add: in_call_def demo_kinv demo_tcb_at)
  from lock_blocks_on_taken_mutex [OF this, of 0 "held_mutex 3 0" 0]
  obtain s' sp' where r: "trap_handler (demo_env 0) 8 demo_sp 0 ?s = (s', Ok sp')"
    "mutexes s' = MUTEXES[0 := Some (held_mutex 3 2)]" "kstate s' 0 1 = Some (BlockedOnMutex 0)"
    "gave_way 0 demo_sp ?s sp' s'"
    by (auto simp: granted_def task_a_caps_def)
  have "kstate ?s 0 0 = Some Ready" by (simp add: kstate_def demo_tcb_at)
  then have "current s' 0 \<noteq> 1" using r(4) by (auto simp: gave_way_def)
  with r show ?thesis by simp
qed

lemma handed_over_kstate:
  assumes "waiter_hart w < length (schedulers s)" "first_waiter (waiters_bitmap m) = Some w"
    "kstate s (waiter_hart w) w \<noteq> None"
  shows "kstate (handed_over h idx m s) (waiter_hart w) w = Some Ready"
  using assms by (auto simp: handed_over_def Let_def kstate_upd_tcb)

lemma handed_over_other:
  assumes "length (schedulers s) = 2" "\<not> (first_waiter (waiters_bitmap m) = Some i \<and> waiter_hart i = h')"
  shows "tcb_at (handed_over h idx m s) h' i = tcb_at s h' i"
  using assms by (auto simp: handed_over_def Let_def tcb_at_upd_tcb split: option.split)

lemma handed_over_wake:
  assumes "first_waiter (waiters_bitmap m) = Some w" "tcb_at s (waiter_hart w) w = Some t"
  shows "ram (handed_over h idx m s) = write_frame (ram s) (saved_sp t) 6 0"
    "msip (handed_over h idx m s) = (if waiter_hart w \<noteq> h then (msip s)(waiter_hart w := 1) else msip s)"
  using assms by (simp_all add: handed_over_def Let_def)

lemma unlock_effect:
  assumes c: "in_call 4 e sp tcb s" "granted unlock_cap tcb sp s = Some idx"
    and m: "slot (mutexes s) (unat idx) = Some m" "owner_task_idx m = Some (of_nat (current s (hart_id e)))"
      "\<not> bit (waiters_bitmap m) (current s (hart_id e))"
  obtains s' sp' where "trap_handler e 8 sp start s = (s', Ok sp')" "read_frame (ram s') sp 6 = 0"
    "mutexes s' = (mutexes s)[unat idx := Some (passed_on m)]"
    "\<And>w t. first_waiter (waiters_bitmap m) = Some w \<Longrightarrow> tcb_at s (waiter_hart w) w = Some t \<Longrightarrow>
       kstate s' (waiter_hart w) w \<in> {Some Ready, Some Running} \<and> read_frame (ram s') (saved_sp t) 6 = 0
       \<and> (waiter_hart w \<noteq> hart_id e \<longrightarrow> msip s' (waiter_hart w) = 1)"
    "\<And>i. i \<noteq> current s (hart_id e) \<Longrightarrow> kstate s (hart_id e) i = Some Ready \<Longrightarrow>
       current s' (hart_id e) \<noteq> current s (hart_id e)"
proof -
  note D = in_callD [OF c(1)] and S = in_call_state [OF c(1), of start]
  let ?h = "hart_id e" and ?c = "call_state e sp start s" and ?t = "handed_over (hart_id e) idx m (call_state e sp start s)"
  have "\<exists>s1 sp'. sys_unlock e sp ?c = (s1\<lparr>ram := write_frame (ram s1) sp 6 0\<rparr>, Ok sp')
     \<and> switch_frame ?h ?t s1 \<and> gave_way ?h sp ?t sp' s1"
    by (rule unlock_run [OF S(1,2) D(1) _ S(3) D(3)]) (use c(2) m in \<open>simp_all add: granted_Some\<close>)
  then obtain s1 sp' where u: "sys_unlock e sp ?c = (s1\<lparr>ram := write_frame (ram s1) sp 6 0\<rparr>, Ok sp')"
    and sf: "switch_frame ?h ?t s1" and gw: "gave_way ?h sp ?t sp' s1" by blast
  have len: "length (schedulers s) = 2" using kinvD(1) [OF S(1) D(1)] by simp
  show thesis
  proof (rule that)
    show "trap_handler e 8 sp start s = (s1\<lparr>ram := write_frame (ram s1) sp 6 0\<rparr>, Ok sp')"
      using u D(2) by (simp add: trap_syscall)
    show "mutexes (s1\<lparr>ram := write_frame (ram s1) sp 6 0\<rparr>) = (mutexes s)[unat idx := Some (passed_on m)]"
      using switch_frame_fields(1) [OF sf] by simp
    show "kstate (s1\<lparr>ram := write_frame (ram s1) sp 6 0\<rparr>) (waiter_hart w) w \<in> {Some Ready, Some Running}
        \<and> read_frame (ram (s1\<lparr>ram := write_frame (ram s1) sp 6 0\<rparr>)) (saved_sp t) 6 = 0
        \<and> (waiter_hart w \<noteq> ?h \<longrightarrow> msip (s1\<lparr>ram := write_frame (ram s1) sp 6 0\<rparr>) (waiter_hart w) = 1)"
      if w: "first_waiter (waiters_bitmap m) = Some w" "tcb_at s (waiter_hart w) w = Some t" for w t
    proof -
      have "kstate ?t (waiter_hart w) w = Some Ready"
        by (rule handed_over_kstate) (use w len in \<open>simp_all add: kstate_def\<close>)
      moreover have "ram ?t = write_frame (ram ?c) (saved_sp t) 6 0"
        "msip ?t = (if waiter_hart w \<noteq> ?h then (msip s)(waiter_hart w := 1) else msip s)"
        using handed_over_wake [OF w(1), of ?c t ?h idx] w(2) by simp_all
      ultimately show ?thesis
        using switch_frame_kstate(2) [OF sf, of "waiter_hart w" w] switch_frame_fields(6,7) [OF sf]
        by (auto simp: zero_stays_zero)
    qed
    show "current (s1\<lparr>ram := write_frame (ram s1) sp 6 0\<rparr>) ?h \<noteq> current s ?h"
      if i: "i \<noteq> current s ?h" "kstate s ?h i = Some Ready" for i
    proof -
      have "kstate ?t ?h i = Some Ready"
        using handed_over_kstate [of i ?c m ?h idx] handed_over_other [of ?c m i ?h ?h idx] i(2) len D(1)
        by (cases "first_waiter (waiters_bitmap m) = Some i \<and> waiter_hart i = ?h") (auto simp: kstate_def)
      then show ?thesis using gw i(1) by (auto simp: gave_way_def)
    qed
  qed simp
qed

text \<open>C8: unlocking an owned mutex. The waiter with the lowest slot number, which is the highest base
  priority, becomes the owner and is taken out of the bitmap; it is runnable again and finds 0 in its
  \<^verbatim>\<open>a0\<close>, and its core is notified when it is the other one; with no waiter the mutex becomes free.
  The caller gets 0 and gives the hart to a ready task if there is one.\<close>

theorem unlock_hands_over:
  assumes "in_call 4 e sp tcb s" "granted unlock_cap tcb sp s = Some idx"
    and "slot (mutexes s) (unat idx) = Some m" "owner_task_idx m = Some (of_nat (current s (hart_id e)))"
    and "\<not> bit (waiters_bitmap m) (current s (hart_id e))"
  shows "\<exists>s' sp'. trap_handler e 8 sp start s = (s', Ok sp') \<and> read_frame (ram s') sp 6 = 0
     \<and> (case first_waiter (waiters_bitmap m) of
          None \<Rightarrow> waiters_bitmap m = 0
            \<and> slot (mutexes s') (unat idx) = Some (m\<lparr>locked := False, owner_task_idx := None\<rparr>)
        | Some w \<Rightarrow> bit (waiters_bitmap m) w \<and> (\<forall>v<w. \<not> bit (waiters_bitmap m) v)
            \<and> slot (mutexes s') (unat idx) = Some (m\<lparr>owner_task_idx := Some (of_nat w),
                waiters_bitmap := waiters_bitmap m AND NOT (push_bit w 1)\<rparr>)
            \<and> kstate s' (waiter_hart w) w \<in> {Some Ready, Some Running}
            \<and> (\<exists>t. tcb_at s (waiter_hart w) w = Some t \<and> read_frame (ram s') (saved_sp t) 6 = 0)
            \<and> (waiter_hart w = hart_id e \<or> msip s' (waiter_hart w) = 1))
     \<and> (\<forall>i. i \<noteq> current s (hart_id e) \<and> kstate s (hart_id e) i = Some Ready \<longrightarrow>
          current s' (hart_id e) \<noteq> current s (hart_id e))"
proof (rule unlock_effect [OF assms, of start])
  fix s' sp'
  assume *: "trap_handler e 8 sp start s = (s', Ok sp')" "read_frame (ram s') sp 6 = 0"
    "mutexes s' = (mutexes s)[unat idx := Some (passed_on m)]"
    "\<And>w t. first_waiter (waiters_bitmap m) = Some w \<Longrightarrow> tcb_at s (waiter_hart w) w = Some t \<Longrightarrow>
       kstate s' (waiter_hart w) w \<in> {Some Ready, Some Running} \<and> read_frame (ram s') (saved_sp t) 6 = 0
       \<and> (waiter_hart w \<noteq> hart_id e \<longrightarrow> msip s' (waiter_hart w) = 1)"
    "\<And>i. i \<noteq> current s (hart_id e) \<Longrightarrow> kstate s (hart_id e) i = Some Ready \<Longrightarrow>
       current s' (hart_id e) \<noteq> current s (hart_id e)"
  have m: "slot (mutexes s') (unat idx) = Some (passed_on m)"
    using *(3) slot_Some_less [OF assms(3)] by (simp add: slot_list_update)
  have ok: "mutex_ok s m"
    using in_call_state(1) [OF assms(1), of start] kinvD(7) [of "stacks e" s 0 "unat idx" m] assms(3) by simp
  show ?thesis
  proof (intro exI [of _ s'] exI [of _ sp'] conjI allI impI)
    show "case first_waiter (waiters_bitmap m) of
          None \<Rightarrow> waiters_bitmap m = 0
            \<and> slot (mutexes s') (unat idx) = Some (m\<lparr>locked := False, owner_task_idx := None\<rparr>)
        | Some w \<Rightarrow> bit (waiters_bitmap m) w \<and> (\<forall>v<w. \<not> bit (waiters_bitmap m) v)
            \<and> slot (mutexes s') (unat idx) = Some (m\<lparr>owner_task_idx := Some (of_nat w),
                waiters_bitmap := waiters_bitmap m AND NOT (push_bit w 1)\<rparr>)
            \<and> kstate s' (waiter_hart w) w \<in> {Some Ready, Some Running}
            \<and> (\<exists>t. tcb_at s (waiter_hart w) w = Some t \<and> read_frame (ram s') (saved_sp t) 6 = 0)
            \<and> (waiter_hart w = hart_id e \<or> msip s' (waiter_hart w) = 1)"
    proof (cases "first_waiter (waiters_bitmap m)")
      case None
      then show ?thesis using m first_waiter_None [of "waiters_bitmap m"] by (simp add: passed_on_def)
    next
      case (Some w)
      obtain t where t: "tcb_at s (waiter_hart w) w = Some t" using mutex_ok_waiter [OF ok Some] .
      show ?thesis
        using m Some *(4) [OF Some t] t first_waiter_Some [of "waiters_bitmap m" w]
        by (auto simp: passed_on_def)
    qed
  qed (use * in auto)
qed

theorem unlock_hands_over_witness:
  "\<exists>s' sp'. trap_handler (demo_env 1) 8 demo_sp 0 (upd_tcb 0 1 (set_state (BlockedOnMutex 0))
       (demo_at 0 3 (held_mutex 3 2) (call_ram 4 0 0 0))) = (s', Ok sp')
     \<and> slot (mutexes s') 0 = Some (held_mutex 1 0) \<and> kstate s' 0 1 \<in> {Some Ready, Some Running} \<and> msip s' 0 = 1"
proof -
  let ?s = "upd_tcb 0 1 (set_state (BlockedOnMutex 0)) (demo_at 0 3 (held_mutex 3 2) (call_ram 4 0 0 0))"
  let ?c = "set_state Running (new_tcb (frame_top (TASK_C_STACK demo_layout)) 3 ''Task C'' task_c_caps)"
  have "kinv demo_layout ?s" by (rule kinv_upd_tcb) (simp_all add: demo_kinv)
  then have "in_call 4 (demo_env 1) demo_sp ?c ?s"
    by (simp add: in_call_def demo_tcb_at tcb_at_upd_tcb locks_ok_def usable_def spinlock_new_def)
  note unlock_hands_over [OF this, of 0 "held_mutex 3 2" 0]
  moreover have "first_waiter 2 = Some 1" "\<not> bit (2 :: u32) 3"
    by (simp_all add: first_waiter_Some bit_numeral_rec)
  moreover have "(2 :: u32) AND NOT (push_bit 1 1) = 0" by simp
  ultimately show ?thesis
    by (auto simp: granted_def task_c_caps_def waiter_hart_def simp del: push_bit_of_1)
qed

text \<open>C32: system call 4 on a mutex that the caller does not own, through a capability that allows
  unlocking it, panics in the ownership assertion while the hart holds \<^verbatim>\<open>SCHED_LOCK\<close> and
  \<^verbatim>\<open>MUTEX_LOCK\<close>. Nothing releases them any more: every later trap of the other hart that needs
  the scheduler spins forever.\<close>

theorem foreign_unlock_halts_both_harts:
  assumes "in_call 4 e sp tcb s" "foreign_unlock e sp s" "sched_lock s = spinlock_new"
  shows "\<exists>s'. trap_handler e 8 sp start s = (s', Panic AssertFailed)
     \<and> sched_lock s' = taken (hart_id e) \<and> mutex_lock s' = taken (hart_id e)
     \<and> (\<forall>e' mcause sp' start'. hart_id e' < 2 \<and> hart_id e' \<noteq> hart_id e \<and> needs_sched_lock mcause sp' s' \<longrightarrow>
          (\<exists>s''. trap_handler e' mcause sp' start' s' = (s'', Spin)))"
proof -
  note D = in_callD [OF assms(1)] and S = in_call_state [OF assms(1), of start]
  let ?c = "call_state e sp start s" and ?h = "hart_id e"
  let ?s' = "?c\<lparr>sched_lock := taken ?h, mutex_lock := taken ?h\<rparr>"
  have "foreign_unlock e sp ?c" using assms(2) foreign_unlock_cong [of ?c s sp e] by simp
  from foreign_unlock_run [OF S(1,2) D(1) this] have run: "trap_handler e 8 sp start s = (?s', Panic AssertFailed)"
    using D(1,2) assms(3) spin_lock_free [OF D(1)] by (simp add: trap_syscall acquired_def)
  moreover have "\<exists>s''. trap_handler e' mcause sp' start' ?s' = (s'', Spin)"
    if "hart_id e' < 2" "hart_id e' \<noteq> ?h" "needs_sched_lock mcause sp' ?s'" for e' mcause sp' start'
  proof -
    have "held_by_other (hart_id e') (sched_lock ?s')"
      using that(1,2) D(1) by (auto simp: held_by_other_def taken_def less_2_cases_iff)
    from trap_blocked [OF this, of mcause sp' start'] that(3) show ?thesis by simp
  qed
  ultimately show ?thesis by (intro exI [of _ ?s']) auto
qed

theorem foreign_unlock_halts_both_harts_witness:
  "\<exists>s' s''. trap_handler (demo_env 0) 8 demo_sp 0 (demo_at 1 2 free_mutex (call_ram 4 0 0 0)) = (s', Panic AssertFailed)
     \<and> trap_handler (demo_env 1) (push_bit 31 1 OR 7) 0 0 s' = (s'', Spin)"
proof -
  let ?s = "demo_at 1 2 free_mutex (call_ram 4 0 0 0)"
  let ?a = "set_state Running (new_tcb (frame_top (TASK_A_STACK demo_layout)) 1 ''Task A'' task_a_caps)"
  have "in_call 4 (demo_env 0) demo_sp ?a ?s" by (simp add: in_call_def demo_kinv demo_tcb_at)
  moreover have "foreign_unlock (demo_env 0) demo_sp ?s"
    by (simp add: foreign_unlock_def demo_tcb_at task_a_caps_def)
  ultimately obtain s' where s': "trap_handler (demo_env 0) 8 demo_sp 0 ?s = (s', Panic AssertFailed)"
    "\<forall>e' mcause sp' start'. hart_id e' < 2 \<and> hart_id e' \<noteq> hart_id (demo_env 0) \<and> needs_sched_lock mcause sp' s' \<longrightarrow>
          (\<exists>s''. trap_handler e' mcause sp' start' s' = (s'', Spin))"
    using foreign_unlock_halts_both_harts [of "demo_env 0" demo_sp ?a ?s 0] by auto
  from s'(2) [rule_format, of "demo_env 1" "push_bit 31 1 OR 7" 0 0] s'(1) show ?thesis
    by (simp add: needs_sched_lock_def)
qed

end
