(* ===== verification/Ipc_Calls.thy ===== *)
theory Ipc_Calls
  imports Mutex_Calls
begin

text \<open>
  System calls 6 and 7 as the two parties see them: the transfer when the partner waits, and the
  wait when it does not.
\<close>

section \<open>The rendezvous\<close>

text \<open>The kernel after a transfer of \<open>n\<close> bytes from \<open>src\<close> to \<open>dst\<close>: the partner in slot \<open>i\<close> of core
  \<open>ph\<close> is ready, both \<^verbatim>\<open>a0\<close> words are set, the event is logged and the partner's core notified.\<close>

definition transferred :: "nat \<Rightarrow> nat \<Rightarrow> nat \<Rightarrow> u8 \<Rightarrow> usize \<Rightarrow> usize \<Rightarrow> usize \<Rightarrow> usize \<times> usize \<Rightarrow> usize \<times> usize
    \<Rightarrow> kernel \<Rightarrow> kernel" where
  "transferred h ph i ep src dst n = (\<lambda>(partner_sp, partner_a0) (sp, a0) s.
     (let s1 = (upd_tcb ph i (set_state Ready) s)\<lparr>
            ram := write_frame (write_frame (copy_bytes (ram s) src dst n) partner_sp 6 partner_a0) sp 6 a0,
            trace := trace s @ [IpcTransfer ep (ucast n)]\<rparr> in
      if ph \<noteq> h then s1\<lparr>msip := (msip s)(ph := 1)\<rparr> else s1))"

text \<open>The first task, core 0 before core 1 and low slots first, that waits on the endpoint.\<close>

definition partner :: "(TaskState \<Rightarrow> (u8 \<times> usize \<times> usize) option) \<Rightarrow> u8 \<Rightarrow> kernel \<Rightarrow> (nat \<times> nat) option" where
  "partner wait ep s = find (\<lambda>(h, i). waits_for wait ep (tcb_at s h i)) (List.product [0..<2] [0..<32])"

lemma partner_cong: "schedulers s' = schedulers s \<Longrightarrow> partner wait ep s' = partner wait ep s"
  by (simp add: partner_def tcb_at_def)

lemma partner_fields [simp]:
  "partner wait ep (s\<lparr>sched_lock := l\<rparr>) = partner wait ep s"
  "partner wait ep (call_state e sp start s) = partner wait ep s"
  by (rule partner_cong; simp)+

lemma partner_run: "find_partner wait ep s = (s, Ok (partner wait ep s))"
  by (simp add: find_partner_run partner_def MAX_PARTITIONS_def)

lemma partner_waits:
  assumes "partner wait ep s = Some (ph, i)"
  obtains t a n where "ph < 2" "i < 32" "tcb_at s ph i = Some t" "wait (task_state t) = Some (ep, a, n)"
  by (rule partner_found [of wait ep s 32 ph i]) (use assms that in \<open>auto simp: partner_def\<close>)

lemma partner_unique:
  assumes "waits_for wait ep (tcb_at s ph i)" "ph < 2" "i < 32"
    and "\<And>h k. h < 2 \<Longrightarrow> waits_for wait ep (tcb_at s h k) \<Longrightarrow> (h, k) = (ph, i)"
  shows "partner wait ep s = Some (ph, i)"
proof (cases "partner wait ep s")
  case None
  then have "\<not> waits_for wait ep (tcb_at s ph i)"
    using assms(2,3) by (force simp: partner_def find_None_iff)
  with assms(1) show ?thesis by simp
next
  case (Some p)
  then have "waits_for wait ep (tcb_at s (fst p) (snd p))" "fst p < 2"
    unfolding partner_def by (auto elim!: find_SomeE)
  from assms(4) [OF this(2,1)] Some show ?thesis by simp
qed

lemma transferred_lock [simp]:
  "transferred h ph i ep src dst n p q (s\<lparr>sched_lock := l\<rparr>) = transferred h ph i ep src dst n p q s\<lparr>sched_lock := l\<rparr>"
  "sched_lock (transferred h ph i ep src dst n p q s) = sched_lock s"
  by (auto simp: transferred_def Let_def upd_tcb_def upd_sched_def split: prod.split)

lemma with_endpoint_allowed:
  assumes k: "kinv L s" and h: "h < 2" and t: "tcb_at s h running = Some tcb"
    and c: "cap_idx < 8" "pattern (capabilities tcb ! unat cap_idx) = Some ep"
  shows "with_endpoint pattern h running cap_idx sp action s = action ep s"
proof -
  have "length (capabilities tcb) = 8" using kinvD(6) [OF k h t] by (simp add: tcb_ok_def)
  moreover have "unat cap_idx < 8" using c(1) by (simp add: word_less_nat_alt)
  moreover have "h < length (schedulers s)" using kinvD(1) [OF k h] h by simp
  ultimately show ?thesis
    using c get_tcb_run [OF t] by (simp add: with_endpoint_def running_cap_def kdefs)
qed

lemma rendezvous_run:
  assumes t: "tcb_at s ph i = Some t" and len: "ph < length (schedulers s)"
  shows "recv_wait (task_state t) = Some (ep, buf, max_len) \<Longrightarrow>
      deliver_to_receiver e sp ep addr n (ph, i) s
    = (transferred (hart_id e) ph i ep addr buf (min n max_len) (saved_sp t, min n max_len) (sp, 0) s, Ok ())"
    and "send_wait (task_state t) = Some (ep, msg, msg_len) \<Longrightarrow>
      collect_from_sender e sp ep addr n (ph, i) s
    = (transferred (hart_id e) ph i ep msg addr (min msg_len n) (saved_sp t, 0) (sp, min msg_len n) s, Ok ())"
  using get_tcb_run [OF t len]
  by (simp_all add: deliver_to_receiver_def collect_from_sender_def transferred_def Let_def kdefs copy_message_def
      set_task_state_def frame_write_def log_telemetry_def notify_core_def write_msip_def upd_tcb_def upd_sched_def)

lemma ipc_call_run:
  assumes k: "kinv (stacks e) s" and l: "locks_ok (hart_id e) s" and h: "hart_id e < 2"
    and t: "tcb_at s (hart_id e) (current s (hart_id e)) = Some tcb"
    and c: "cap_idx < 8" "pattern (capabilities tcb ! unat cap_idx) = Some ep"
    and p: "partner wait ep s = Some p"
    and meet: "\<And>sl. meet ep p (s\<lparr>sched_lock := sl\<rparr>) = (s'\<lparr>sched_lock := sl\<rparr>, Ok ())"
    and s': "sched_lock s' = sched_lock s"
  shows "sched_guard (hart_id e) (kbind (running_idx (hart_id e)) (\<lambda>running.
      with_endpoint pattern (hart_id e) running cap_idx sp (\<lambda>ep.
        kbind (find_partner wait ep) (\<lambda>found. case found of
            Some p \<Rightarrow> kseq (meet ep p) (kret sp)
          | None \<Rightarrow> block_and_switch e running (st ep) sp)))) s = (s', Ok sp)"
proof (rule guarded_call_run [OF k l h])
  fix sl
  have "with_endpoint pattern (hart_id e) (current s (hart_id e)) cap_idx sp action (s\<lparr>sched_lock := sl\<rparr>)
      = action ep (s\<lparr>sched_lock := sl\<rparr>)" for action
    by (rule with_endpoint_allowed [of "stacks e" _ _ _ tcb]) (use k h t c in simp_all)
  then show "with_endpoint pattern (hart_id e) (current s (hart_id e)) cap_idx sp (\<lambda>ep.
        kbind (find_partner wait ep) (\<lambda>found. case found of
            Some p \<Rightarrow> kseq (meet ep p) (kret sp)
          | None \<Rightarrow> block_and_switch e (current s (hart_id e)) (st ep) sp)) (s\<lparr>sched_lock := sl\<rparr>)
    = (s'\<lparr>sched_lock := sl\<rparr>, Ok sp)"
    using p meet by (simp add: kdefs partner_run)
qed (rule s')

lemma send_run:
  assumes k: "kinv (stacks e) s" and l: "locks_ok (hart_id e) s" and h: "hart_id e < 2"
    and t: "tcb_at s (hart_id e) (current s (hart_id e)) = Some tcb"
    and c: "granted send_cap tcb sp s = Some ep"
    and p: "partner recv_wait ep s = Some (ph, i)" "tcb_at s ph i = Some rt"
      "recv_wait (task_state rt) = Some (ep, buf, max_len)"
  shows "sys_send e sp s = (let n = min (read_frame (ram s) sp 8) max_len in
    (transferred (hart_id e) ph i ep (read_frame (ram s) sp 7) buf n (saved_sp rt, n) (sp, 0) s, Ok sp))"
proof -
  have "ph < length (schedulers s)" using partner_waits [OF p(1)] kinvD(1) [OF k h] by metis
  then have "deliver_to_receiver e sp ep (read_frame (ram s) sp 7) len (ph, i) (s\<lparr>sched_lock := sl\<rparr>)
      = (transferred (hart_id e) ph i ep (read_frame (ram s) sp 7) buf (min len max_len)
           (saved_sp rt, min len max_len) (sp, 0) s\<lparr>sched_lock := sl\<rparr>, Ok ())" for sl len
    using rendezvous_run(1) [of "s\<lparr>sched_lock := sl\<rparr>" ph i rt ep buf max_len] p by simp
  then show ?thesis
    unfolding sys_send_def Let_def kbind_eval [of "frame_read _ _"]
    by (simp add: frame_read_def kgets_def)
      (rule ipc_call_run [OF k l h t, where p = "(ph, i)"],
        use c p in \<open>simp_all add: granted_Some\<close>)
qed

lemma recv_run:
  assumes k: "kinv (stacks e) s" and l: "locks_ok (hart_id e) s" and h: "hart_id e < 2"
    and t: "tcb_at s (hart_id e) (current s (hart_id e)) = Some tcb"
    and c: "granted recv_cap tcb sp s = Some ep"
    and p: "partner send_wait ep s = Some (ph, i)" "tcb_at s ph i = Some st"
      "send_wait (task_state st) = Some (ep, msg, msg_len)"
  shows "sys_recv e sp s = (let n = min msg_len (read_frame (ram s) sp 8) in
    (transferred (hart_id e) ph i ep msg (read_frame (ram s) sp 7) n (saved_sp st, 0) (sp, n) s, Ok sp))"
proof -
  have "ph < length (schedulers s)" using partner_waits [OF p(1)] kinvD(1) [OF k h] by metis
  then have "collect_from_sender e sp ep (read_frame (ram s) sp 7) len (ph, i) (s\<lparr>sched_lock := sl\<rparr>)
      = (transferred (hart_id e) ph i ep msg (read_frame (ram s) sp 7) (min msg_len len)
           (saved_sp st, 0) (sp, min msg_len len) s\<lparr>sched_lock := sl\<rparr>, Ok ())" for sl len
    using rendezvous_run(2) [of "s\<lparr>sched_lock := sl\<rparr>" ph i st ep msg msg_len] p by simp
  then show ?thesis
    unfolding sys_recv_def Let_def kbind_eval [of "frame_read _ _"]
    by (simp add: frame_read_def kgets_def)
      (rule ipc_call_run [OF k l h t, where p = "(ph, i)"],
        use c p in \<open>simp_all add: granted_Some\<close>)
qed

section \<open>The bytes\<close>

text \<open>The \<open>m\<close> bytes at \<open>a\<close> and the \<open>n\<close> bytes at \<open>b\<close> have no address in common.\<close>

definition separate :: "usize \<Rightarrow> usize \<Rightarrow> usize \<Rightarrow> usize \<Rightarrow> bool" where
  "separate a m b n \<longleftrightarrow> (\<forall>x. \<not> (in_range x a m \<and> in_range x b n))"

lemma in_range_nat:
  assumes "unat a + unat n \<le> 2 ^ 32"
  shows "in_range x a n \<longleftrightarrow> unat a \<le> unat x \<and> unat x < unat a + unat n"
  using assms unat_u32_less [of x] by (auto simp: in_range_def word_less_nat_alt unat_sub_if')

lemma separateI:
  assumes "unat b + unat n \<le> 2 ^ 32" "unat a + unat m \<le> unat b"
  shows "separate a m b n" "separate b n a m"
  using assms in_range_nat [of a m] in_range_nat [of b n] by (auto simp: separate_def)

lemma bytes_at_cong:
  assumes "\<And>x. in_range x a n \<Longrightarrow> m' x = m x"
  shows "bytes_at m' a (unat n) = bytes_at m a (unat n)"
proof -
  have "in_range (a + of_nat i) a n" if "i < unat n" for i
    using that unat_u32_less [of n] by (simp add: in_range_def word_less_nat_alt unat_of_nat)
  then show ?thesis using assms by (simp add: bytes_at_def)
qed

lemma write_frame_bytes:
  "separate a n sp 128 \<Longrightarrow> i < 32 \<Longrightarrow> bytes_at (write_frame m sp i v) a (unat n) = bytes_at m a (unat n)"
  by (rule bytes_at_cong) (auto simp: separate_def write_frame_outside)

lemma write_frame_frame:
  "separate sp 128 sp' 128 \<Longrightarrow> i < 32 \<Longrightarrow> j < 32 \<Longrightarrow>
     read_frame (write_frame m sp' i v) sp j = read_frame m sp j"
  by (rule read_frame_cong) (auto simp: separate_def write_frame_outside)

lemma separate_sym: "separate a m b n \<longleftrightarrow> separate b n a m"
  by (auto simp: separate_def)

lemma transferred_ram:
  "ram (transferred h ph i ep src dst n (psp, pa0) (sp, a0) s)
     = write_frame (write_frame (copy_bytes (ram s) src dst n) psp 6 pa0) sp 6 a0"
  by (simp add: transferred_def Let_def)

lemma transferred_effect:
  assumes "separate dst n sp 128" "separate dst n psp 128" "separate sp 128 psp 128"
    and len: "ph < length (schedulers s)" and t: "tcb_at s ph i = Some t"
    and s'_def: "s' = transferred h ph i ep src dst n (psp, pa0) (sp, a0) s"
  shows "bytes_at (ram s') dst (unat n) = bytes_at (ram s) src (unat n)"
    "read_frame (ram s') psp 6 = pa0" "read_frame (ram s') sp 6 = a0"
    "kstate s' ph i = Some Ready" "(h', k) \<noteq> (ph, i) \<Longrightarrow> kstate s' h' k = kstate s h' k"
    "trace s' = trace s @ [IpcTransfer ep (ucast n)]" "ph = h \<or> msip s' ph = 1"
    "mutexes s' = mutexes s"
proof -
  show "bytes_at (ram s') dst (unat n) = bytes_at (ram s) src (unat n)"
    unfolding s'_def transferred_ram using assms(1,2) by (simp add: write_frame_bytes copy_bytes_delivers)
  show "read_frame (ram s') psp 6 = pa0" "read_frame (ram s') sp 6 = a0"
    unfolding s'_def transferred_ram
    using assms(3) by (simp_all add: write_frame_frame separate_sym [of psp])
  show "kstate s' ph i = Some Ready" "(h', k) \<noteq> (ph, i) \<Longrightarrow> kstate s' h' k = kstate s h' k"
    "trace s' = trace s @ [IpcTransfer ep (ucast n)]" "ph = h \<or> msip s' ph = 1" "mutexes s' = mutexes s"
    using len t by (auto simp: s'_def transferred_def Let_def kstate_upd_tcb) (simp_all add: kstate_def)
qed

lemma call_state_bytes:
  "separate a n sp 128 \<Longrightarrow> bytes_at (ram (call_state e sp start s)) a (unat n) = bytes_at (ram s) a (unat n)"
  by (simp add: call_state_def write_frame_bytes)

lemma call_state_trace [simp]: "trace (call_state e sp start s) = trace s"
  by (simp add: call_state_def)

section \<open>Waiting for the partner\<close>

lemma wp_same: "m s = m' s \<Longrightarrow> wp m' Q E s \<Longrightarrow> wp m Q E s"
  by (simp add: wp_def)

lemma ipc_block_run:
  assumes k: "kinv (stacks e) s" and l: "locks_ok (hart_id e) s" and h: "hart_id e < 2"
    and t: "tcb_at s (hart_id e) (current s (hart_id e)) = Some tcb"
    and c: "cap_idx < 8" "pattern (capabilities tcb ! unat cap_idx) = Some ep"
    and p: "partner wait ep s = None" and st: "st ep \<noteq> Ready" "st ep \<noteq> Running"
  shows "\<exists>s' sp'. sched_guard (hart_id e) (kbind (running_idx (hart_id e)) (\<lambda>running.
      with_endpoint pattern (hart_id e) running cap_idx sp (\<lambda>ep.
        kbind (find_partner wait ep) (\<lambda>found. case found of
            Some p \<Rightarrow> kseq (meet ep p) (kret sp)
          | None \<Rightarrow> block_and_switch e running (st ep) sp)))) s = (s', Ok sp')
     \<and> kinv (stacks e) s' \<and> switch_frame (hart_id e) (upd_tcb (hart_id e) (current s (hart_id e)) (set_state (st ep)) s) s'
     \<and> gave_way (hart_id e) sp s sp' s'"
proof -
  let ?h = "hart_id e" and ?r = "current s (hart_id e)" and ?sl = "acquired (hart_id e) (sched_lock s)"
  let ?s0 = "s\<lparr>sched_lock := ?sl\<rparr>"
  let ?body = "\<lambda>running. with_endpoint pattern ?h running cap_idx sp (\<lambda>ep.
        kbind (find_partner wait ep) (\<lambda>found. case found of
            Some p \<Rightarrow> kseq (meet ep p) (kret sp)
          | None \<Rightarrow> block_and_switch e running (st ep) sp))"
  have len: "?h < length (schedulers s)" using kinvD(1) [OF k h] h by simp
  have "with_endpoint pattern ?h ?r cap_idx sp action ?s0 = action ep ?s0" for action
    by (rule with_endpoint_allowed [of "stacks e" _ _ _ tcb]) (use k h t c in simp_all)
  then have body: "?body ?r ?s0 = block_and_switch e ?r (st ep) sp ?s0"
    using p by (simp add: kdefs partner_run)
  let ?t = "upd_tcb ?h ?r (set_state (st ep)) s"
  let ?Q = "\<lambda>sp' s'. sched_lock s' = ?sl \<and> kinv (stacks e) (s'\<lparr>sched_lock := sched_lock s\<rparr>)
      \<and> switch_frame ?h ?t (s'\<lparr>sched_lock := sched_lock s\<rparr>) \<and> gave_way ?h sp s sp' s'"
  have "wp (switch_task e sp False) ?Q (\<lambda>_ _. False) (upd_tcb ?h ?r (set_state (st ep)) ?s0)"
  proof (rule block_switch_wp)
    fix sp' s'
    assume "kinv (stacks e) s'" "gave_way ?h sp ?s0 sp' s'"
      and sf: "switch_frame ?h (upd_tcb ?h ?r (set_state (st ep)) ?s0) s'"
    moreover have "upd_tcb ?h ?r (set_state (st ep)) ?s0 = ?t\<lparr>sched_lock := ?sl\<rparr>" by (simp add: upd_tcb_def upd_sched_def)
    ultimately show "?Q sp' s'"
      using switch_frame_fields(2) [OF sf] switch_frame_sched_lock [where h = ?h and s = ?t and l = ?sl and s' = s'] by simp
  qed (use k h st in simp_all)
  then have "wp (block_and_switch e ?r (st ep) sp) ?Q (\<lambda>_ _. False) ?s0"
    using t len by (simp add: block_and_switch_def kvc)
  then have "wp (?body ?r) ?Q (\<lambda>_ _. False) ?s0" using body by (rule wp_same [rotated])
  then have "wp (sched_guard ?h (kbind (running_idx ?h) ?body)) (\<lambda>sp' s'.
      kinv (stacks e) s' \<and> switch_frame ?h ?t s' \<and> gave_way ?h sp s sp' s') (\<lambda>_ _. False) s"
    by (intro sched_guard_wp) (use l h len in \<open>simp_all add: kvc locks_ok_def conj_ac gave_way_fields\<close>)
  then show ?thesis by (auto simp: wp_no_panic)
qed

lemma kbind_frame_read: "kbind (frame_read sp i) f s = f (read_frame (ram s) sp i) s"
  by (simp add: kbind_eval frame_read_def kgets_def)

text \<open>Without a partner both calls block the caller, with the endpoint, address and length of its
  request recorded in its state; no memory changes but the return address, and the hart goes to a ready
  task if there is one.\<close>

lemma ipc_blocks_without_partner:
  assumes "in_call n e sp tcb s"
    and "n = 6 \<and> granted send_cap tcb sp s = Some ep \<and> partner recv_wait ep s = None
           \<and> st = BlockedOnIpcSend ep (read_frame (ram s) sp 7) (read_frame (ram s) sp 8)
       \<or> n = 7 \<and> granted recv_cap tcb sp s = Some ep \<and> partner send_wait ep s = None
           \<and> st = BlockedOnIpcRecv ep (read_frame (ram s) sp 7) (read_frame (ram s) sp 8)"
  shows "\<exists>s' sp'. trap_handler e 8 sp start s = (s', Ok sp')
     \<and> kinv (stacks e) s'
     \<and> switch_frame (hart_id e) (upd_tcb (hart_id e) (current s (hart_id e)) (set_state st) (call_state e sp start s)) s'
     \<and> gave_way (hart_id e) sp s sp' s'"
proof -
  note D = in_callD [OF assms(1)] and S = in_call_state [OF assms(1), of start]
  let ?c = "call_state e sp start s"
  have t: "tcb_at ?c (hart_id e) (current ?c (hart_id e)) = Some tcb" using S(3) by simp
  note block = ipc_block_run [OF S(1,2) D(1) t, where sp = sp]
  have "\<exists>s' sp'. (if n = 6 then sys_send else sys_recv) e sp ?c = (s', Ok sp')
     \<and> kinv (stacks e) s' \<and> switch_frame (hart_id e) (upd_tcb (hart_id e) (current s (hart_id e)) (set_state st) ?c) s'
     \<and> gave_way (hart_id e) sp s sp' s'"
    using assms(2)
  proof
    assume *: "n = 6 \<and> granted send_cap tcb sp s = Some ep \<and> partner recv_wait ep s = None
           \<and> st = BlockedOnIpcSend ep (read_frame (ram s) sp 7) (read_frame (ram s) sp 8)"
    then show ?thesis
      using block [of "read_frame (ram s) sp 6" send_cap ep recv_wait
          "\<lambda>ep. BlockedOnIpcSend ep (read_frame (ram s) sp 7) (read_frame (ram s) sp 8)"
          "\<lambda>ep. deliver_to_receiver e sp ep (read_frame (ram s) sp 7) (read_frame (ram s) sp 8)"]
      by (simp add: sys_send_def kbind_frame_read granted_Some Let_def)
  next
    assume *: "n = 7 \<and> granted recv_cap tcb sp s = Some ep \<and> partner send_wait ep s = None
           \<and> st = BlockedOnIpcRecv ep (read_frame (ram s) sp 7) (read_frame (ram s) sp 8)"
    then show ?thesis
      using block [of "read_frame (ram s) sp 6" recv_cap ep send_wait
          "\<lambda>ep. BlockedOnIpcRecv ep (read_frame (ram s) sp 7) (read_frame (ram s) sp 8)"
          "\<lambda>ep. collect_from_sender e sp ep (read_frame (ram s) sp 7) (read_frame (ram s) sp 8)"]
      by (simp add: sys_recv_def kbind_frame_read granted_Some Let_def)
  qed
  then show ?thesis using assms(2) D(2) by (auto simp: trap_syscall call_state_def)
qed

text \<open>Where nobody else waits, the task that blocked is the one that the next partner finds.\<close>

lemma blocked_is_partner:
  assumes f: "switch_frame h (upd_tcb h i (set_state st) s) s'" and h: "h < 2" "i < 32" "length (schedulers s) = 2"
    and t: "tcb_at s h i = Some tcb" and st: "wait st = Some (ep, a, n)" "wait Ready = None" "wait Running = None"
    and runnable: "\<And>h' k t. h' < 2 \<Longrightarrow> tcb_at s h' k = Some t \<Longrightarrow> task_state t = Ready \<or> task_state t = Running"
  shows "partner wait ep s' = Some (h, i)"
proof (rule partner_unique)
  let ?t = "upd_tcb h i (set_state st) s"
  have ks: "kstate ?t h' k = (if h = h' \<and> i = k then Some st else kstate s h' k)" for h' k
    using t h kstate_upd_tcb [of h s i st h' k] by (auto simp: kstate_def [of s])
  have "st \<noteq> Ready" "st \<noteq> Running" using st by auto
  then have "kstate s' h i = Some st" using switch_frame_kstate(1) [OF f, of h i st] ks by simp
  then show "waits_for wait ep (tcb_at s' h i)" using st by (auto simp: kstate_def waits_for_def)
  show "(h', k) = (h, i)" if "h' < 2" "waits_for wait ep (tcb_at s' h' k)" for h' k
  proof (rule ccontr)
    assume ne: "(h', k) \<noteq> (h, i)"
    from that(2) obtain t' where t': "tcb_at s' h' k = Some t'" by (auto simp: waits_for_def split: option.splits)
    have "tcb_at ?t h' k = None \<longleftrightarrow> tcb_at s' h' k = None"
      using switch_frame_tcb [OF f] f by (cases "h' = h") (auto simp: switch_frame_def tcb_at_def)
    with t' obtain t0 where "tcb_at ?t h' k = Some t0" by auto
    then have "kstate s h' k = Some (task_state t0)" using ks [of h' k] ne by (auto simp: kstate_def [of ?t])
    then have "kstate ?t h' k \<in> {Some Ready, Some Running}" using ks [of h' k] ne runnable [OF that(1)] by (auto simp: kstate_def)
    then have "task_state t' \<in> {Ready, Running}" using switch_frame_kstate(2) [OF f] t' by (fastforce simp: kstate_def)
    then show False using that(2) t' st by (auto simp: waits_for_def)
  qed
qed (rule h)+

section \<open>Properties\<close>

text \<open>A send that meets a waiting receiver. The shorter of the two lengths is transferred: the
  receiver's buffer holds the sender's bytes, the receiver is ready and reads that length in \<^verbatim>\<open>a0\<close>, the
  sender reads 0 and goes on; no other task changes its state, the transfer is logged and the receiver's
  core is notified when it is the other one. The buffer must not overlap the two stack frames, nor the
  message the sender's.\<close>

lemma ipc_send_delivers:
  assumes "in_call 6 e sp tcb s" "granted send_cap tcb sp s = Some ep"
    and "partner recv_wait ep s = Some (ph, i)" "tcb_at s ph i = Some rt"
    and "task_state rt = BlockedOnIpcRecv ep buf max_len"
    and "src = read_frame (ram s) sp 7" "n = min (read_frame (ram s) sp 8) max_len"
    and "separate src n sp 128" "separate buf n sp 128" "separate buf n (saved_sp rt) 128"
    and "separate sp 128 (saved_sp rt) 128"
  shows "\<exists>s'. trap_handler e 8 sp start s = (s', Ok sp)
     \<and> bytes_at (ram s') buf (unat n) = bytes_at (ram s) src (unat n)
     \<and> read_frame (ram s') (saved_sp rt) 6 = n \<and> read_frame (ram s') sp 6 = 0
     \<and> kstate s' ph i = Some Ready \<and> (\<forall>h k. (h, k) = (ph, i) \<or> kstate s' h k = kstate s h k)
     \<and> trace s' = trace s @ [IpcTransfer ep (ucast n)] \<and> (ph = hart_id e \<or> msip s' ph = 1)"
proof -
  note D = in_callD [OF assms(1)] and S = in_call_state [OF assms(1), of start]
  let ?c = "call_state e sp start s"
  let ?s' = "transferred (hart_id e) ph i ep src buf n (saved_sp rt, n) (sp, 0) ?c"
  have len: "ph < length (schedulers ?c)" using partner_waits [OF assms(3)] kinvD(1) [OF S(1) D(1)] by metis
  have "trap_handler e 8 sp start s = (?s', Ok sp)"
    using send_run [OF S(1,2) D(1), of tcb sp ep ph i rt buf max_len] S(3) assms(2-7) D(2)
    by (simp add: trap_syscall granted_def Let_def)
  moreover have "tcb_at ?c ph i = Some rt" using assms(4) by simp
  note E = transferred_effect [OF assms(9,10,11) len this, of ?s' "hart_id e" ep src n 0]
  ultimately show ?thesis
    using E call_state_bytes [OF assms(8), of e start s] by (intro exI [of _ ?s']) auto
qed

text \<open>A receive that meets a waiting sender: the same transfer, seen from the receiver, which reads
  the number of bytes in \<^verbatim>\<open>a0\<close>; the sender is ready and reads 0.\<close>

lemma ipc_recv_collects:
  assumes "in_call 7 e sp tcb s" "granted recv_cap tcb sp s = Some ep"
    and "partner send_wait ep s = Some (ph, i)" "tcb_at s ph i = Some st"
    and "task_state st = BlockedOnIpcSend ep msg msg_len"
    and "dst = read_frame (ram s) sp 7" "n = min msg_len (read_frame (ram s) sp 8)"
    and "separate msg n sp 128" "separate dst n sp 128" "separate dst n (saved_sp st) 128"
    and "separate sp 128 (saved_sp st) 128"
  shows "\<exists>s'. trap_handler e 8 sp start s = (s', Ok sp)
     \<and> bytes_at (ram s') dst (unat n) = bytes_at (ram s) msg (unat n)
     \<and> read_frame (ram s') sp 6 = n \<and> read_frame (ram s') (saved_sp st) 6 = 0
     \<and> kstate s' ph i = Some Ready \<and> (\<forall>h k. (h, k) = (ph, i) \<or> kstate s' h k = kstate s h k)
     \<and> trace s' = trace s @ [IpcTransfer ep (ucast n)] \<and> (ph = hart_id e \<or> msip s' ph = 1)"
proof -
  note D = in_callD [OF assms(1)] and S = in_call_state [OF assms(1), of start]
  let ?c = "call_state e sp start s"
  let ?s' = "transferred (hart_id e) ph i ep msg dst n (saved_sp st, 0) (sp, n) ?c"
  have len: "ph < length (schedulers ?c)" using partner_waits [OF assms(3)] kinvD(1) [OF S(1) D(1)] by metis
  have "trap_handler e 8 sp start s = (?s', Ok sp)"
    using recv_run [OF S(1,2) D(1), of tcb sp ep ph i st msg msg_len] S(3) assms(2-7) D(2)
    by (simp add: trap_syscall granted_def Let_def)
  moreover have "tcb_at ?c ph i = Some st" using assms(4) by simp
  note E = transferred_effect [OF assms(9,10,11) len this, of ?s' "hart_id e" ep msg 0 n]
  ultimately show ?thesis
    using E call_state_bytes [OF assms(8), of e start s] by (intro exI [of _ ?s']) auto
qed

end
