(* ===== verification/Task_Control.thy ===== *)
theory Task_Control
  imports Ipc_Calls
begin

text \<open>
  Traps that change whether a task can run: the timer and sleeping, termination by system call 8,
  the containment of faults with the recovery of the mutexes of the terminated task, the emulation
  of the cycle counter, and the context that a preempted task gets back.
\<close>

section \<open>What the recovery does\<close>

text \<open>The recovery seen from one mutex.\<close>

definition recover_of :: "nat \<Rightarrow> KernelMutex \<Rightarrow> KernelMutex" where
  "recover_of task m =
     (if owner_task_idx m = Some (of_nat task) then
        (case first_waiter (waiters_bitmap m) of
           None \<Rightarrow> m\<lparr>locked := False, owner_task_idx := None\<rparr>
         | Some w \<Rightarrow> m\<lparr>locked := True, owner_task_idx := Some (of_nat w),
             waiters_bitmap := waiters_bitmap m AND NOT (push_bit w 1)\<rparr>)
      else m)"

text \<open>The task in slot \<open>i\<close> of hart \<open>h\<close> is the one that gets a mutex of the terminated task.\<close>

definition heir :: "nat \<Rightarrow> kernel \<Rightarrow> nat \<Rightarrow> nat \<Rightarrow> nat \<Rightarrow> bool" where
  "heir task s k h i \<longleftrightarrow> (\<exists>m. slot (mutexes s) k = Some m \<and> owner_task_idx m = Some (of_nat task)
     \<and> first_waiter (waiters_bitmap m) = Some i \<and> waiter_hart i = h)"

lemma slot_recovered:
  "slot (mutexes (recovered task k s)) j = (if j = k then map_option (recover_of task) (slot (mutexes s) k)
     else slot (mutexes s) j)"
  by (auto simp: recovered_def recover_of_def slot_list_update split: option.split dest: slot_Some_less)

lemma kstate_recovered:
  assumes "length (schedulers s) = 2"
  shows "kstate (recovered task k s) h i = (if heir task s k h i then map_option (\<lambda>_. Ready) (kstate s h i)
     else kstate s h i)"
  using assms by (auto simp: recovered_def heir_def kstate_upd_tcb split: option.split)

lemma heir_recovered: "j \<noteq> k \<Longrightarrow> heir task (recovered task k s) j h i = heir task s j h i"
  by (simp add: heir_def slot_recovered)

lemma slot_fold_recovered:
  "distinct ks \<Longrightarrow> slot (mutexes (fold (recovered task) ks s)) j =
      (if j \<in> set ks then map_option (recover_of task) (slot (mutexes s) j) else slot (mutexes s) j)"
  by (induction ks arbitrary: s) (auto simp: slot_recovered)

lemma kstate_fold_recovered:
  assumes "length (schedulers s) = 2" "distinct ks"
  shows "kstate (fold (recovered task) ks s) h i =
      (if \<exists>k\<in>set ks. heir task s k h i then map_option (\<lambda>_. Ready) (kstate s h i) else kstate s h i)"
  using assms
proof (induction ks arbitrary: s)
  case (Cons k ks)
  have "heir task (recovered task k s) k' h i = heir task s k' h i" if "k' \<in> set ks" for k'
    using that Cons.prems(2) by (intro heir_recovered) auto
  then have "kstate (fold (recovered task) ks (recovered task k s)) h i =
      (if \<exists>k'\<in>set ks. heir task s k' h i then map_option (\<lambda>_. Ready) (kstate (recovered task k s) h i)
       else kstate (recovered task k s) h i)"
    using Cons.IH [of "recovered task k s"] Cons.prems by auto
  then show ?case using Cons.prems by (cases "kstate s h i") (auto simp: kstate_recovered)
qed simp

lemma recovered_all_effect:
  assumes k: "kinv L s"
  shows "slot (mutexes (recovered_all task s)) j = map_option (recover_of task) (slot (mutexes s) j)"
    "kstate (recovered_all task s) h i =
      (if \<exists>k. heir task s k h i then map_option (\<lambda>_. Ready) (kstate s h i) else kstate s h i)"
proof -
  have len: "length (schedulers s) = 2" "length (mutexes s) = 8" using kinvD(1,2) [OF k, of 0] by simp_all
  have small: "k < 8" if "heir task s k h i" for k
    using that slot_Some_less len(2) by (fastforce simp: heir_def)
  have none: "slot (mutexes s) j = None" if "\<not> j < 8" using that len(2) by (simp add: slot_def)
  then show "slot (mutexes (recovered_all task s)) j = map_option (recover_of task) (slot (mutexes s) j)"
    using slot_fold_recovered [of "[0..<8]" task s j] by (auto simp: recovered_all_def)
  show "kstate (recovered_all task s) h i =
      (if \<exists>k. heir task s k h i then map_option (\<lambda>_. Ready) (kstate s h i) else kstate s h i)"
    using kstate_fold_recovered [OF len(1), of "[0..<8]" task h i] small
    by (auto simp: recovered_all_def)
qed

text \<open>A task in no waiter bitmap of its own mutexes owns nothing afterwards.\<close>

lemma recover_of_owner:
  assumes "task < 32" "\<not> bit (waiters_bitmap m) task"
  shows "owner_task_idx (recover_of task m) \<noteq> Some (of_nat task)"
proof -
  have "(of_nat w :: u8) \<noteq> of_nat task" if "first_waiter (waiters_bitmap m) = Some w" for w
  proof -
    have "bit (waiters_bitmap m) w" using that by (simp add: first_waiter_Some)
    then have "w < 32" "w \<noteq> task" using assms(2) bit_imp_le_length [of "waiters_bitmap m" w] by auto
    then show ?thesis using assms(1) by (simp add: word_unat_eq_iff unat_of_nat)
  qed
  then show ?thesis by (auto simp: recover_of_def split: option.split)
qed

section \<open>A task that is terminated\<close>

definition killed :: "nat \<Rightarrow> nat \<Rightarrow> kernel \<Rightarrow> kernel" where
  "killed h i s = recovered_all i (upd_tcb h i (set_state Terminated) s)"

text \<open>The task waits on no mutex.\<close>

definition waits_nowhere :: "nat \<Rightarrow> kernel \<Rightarrow> bool" where
  "waits_nowhere i s \<longleftrightarrow> (\<forall>k m. slot (mutexes s) k = Some m \<longrightarrow> \<not> bit (waiters_bitmap m) i)"

lemma recovered_sched_lock:
  "recovered task k (s\<lparr>sched_lock := l\<rparr>) = recovered task k s\<lparr>sched_lock := l\<rparr>"
  by (simp add: recovered_def upd_tcb_def upd_sched_def split: option.split)

lemma fold_recovered_sched_lock:
  "fold (recovered task) ks (s\<lparr>sched_lock := l\<rparr>) = fold (recovered task) ks s\<lparr>sched_lock := l\<rparr>"
  by (induction ks arbitrary: s) (simp_all add: recovered_sched_lock)

lemma killed_sched_lock: "killed h i (s\<lparr>sched_lock := l\<rparr>) = killed h i s\<lparr>sched_lock := l\<rparr>"
proof -
  have "upd_tcb h i f (s\<lparr>sched_lock := l\<rparr>) = upd_tcb h i f s\<lparr>sched_lock := l\<rparr>" for f
    by (simp add: upd_tcb_def upd_sched_def)
  then show ?thesis by (simp add: killed_def recovered_all_def fold_recovered_sched_lock)
qed

lemma killed_fields [simp]:
  "sched_lock (killed h i s) = sched_lock s" "mutex_lock (killed h i s) = mutex_lock s"
  "ram (killed h i s) = ram s" "trace (killed h i s) = trace s" "msip (killed h i s) = msip s"
  "current (killed h i s) h' = current s h'" "length (schedulers (killed h i s)) = length (schedulers s)"
  by (simp_all add: killed_def)

text \<open>A task that waits on a mutex it owns can be its own heir.\<close>

lemma killed_states:
  assumes k: "kinv L s" and h: "h < 2" and t: "tcb_at s h i = Some t"
  shows "kstate (killed h i s) h i = Some (if \<exists>k. heir i s k h i then Ready else Terminated)"
    "slot (mutexes (killed h i s)) j = map_option (recover_of i) (slot (mutexes s) j)"
    "(h', j) \<noteq> (h, i) \<Longrightarrow> kstate (killed h i s) h' j =
      (if \<exists>k. heir i s k h' j then map_option (\<lambda>_. Ready) (kstate s h' j) else kstate s h' j)"
proof -
  let ?s1 = "upd_tcb h i (set_state Terminated) s"
  have len: "h < length (schedulers s)" using kinvD(1) [OF k h] h by simp
  have k1: "kinv L ?s1" by (rule kinv_upd_tcb [OF k h]) simp
  note R = recovered_all_effect [OF k1, folded killed_def]
  have heir: "heir i ?s1 k h' j = heir i s k h' j" for k h' j by (simp add: heir_def)
  show "kstate (killed h i s) h i = Some (if \<exists>k. heir i s k h i then Ready else Terminated)"
    using R(2) [of i h i] t len by (simp add: killed_def heir kstate_upd_tcb kstate_def [of s])
  show "slot (mutexes (killed h i s)) j = map_option (recover_of i) (slot (mutexes s) j)"
    using R(1) [of i j] by (simp add: killed_def)
  show "(h', j) \<noteq> (h, i) \<Longrightarrow> kstate (killed h i s) h' j =
      (if \<exists>k. heir i s k h' j then map_option (\<lambda>_. Ready) (kstate s h' j) else kstate s h' j)"
    using R(2) [of i h' j] len by (auto simp: killed_def heir kstate_upd_tcb)
qed

lemma killed_effect:
  assumes k: "kinv L s" and h: "h < 2" and t: "tcb_at s h i = Some t" and w: "waits_nowhere i s"
  shows "kstate (killed h i s) h i = Some Terminated"
    "slot (mutexes (killed h i s)) j = map_option (recover_of i) (slot (mutexes s) j)"
proof -
  have "\<not> heir i s k h i" for k using w by (auto simp: heir_def waits_nowhere_def first_waiter_Some)
  then show "kstate (killed h i s) h i = Some Terminated" using killed_states(1) [OF k h t] by simp
qed (rule killed_states [OF k h t])

lemma kill_run:
  assumes k: "kinv (stacks e) s" and l: "mutex_lock s = spinlock_new" and h: "hart_id e < 2" "h' < 2"
  shows "kseq (set_task_state h' i Terminated) (recover_mutexes e i) s = (killed h' i s, Ok ())"
    "kinv (stacks e) (killed h' i s)"
proof -
  have k1: "kinv (stacks e) (upd_tcb h' i (set_state Terminated) s)" by (rule kinv_upd_tcb [OF k h(2)]) simp
  from recover_mutexes_run [OF k1 _ h(1), of i] l
  show "kseq (set_task_state h' i Terminated) (recover_mutexes e i) s = (killed h' i s, Ok ())"
    "kinv (stacks e) (killed h' i s)"
    by (simp_all add: killed_def kdefs set_task_state_def)
qed

section \<open>A forced switch\<close>

lemma switch_others:
  assumes k: "kinv (stacks e) s" and h: "hart_id e < 2" and run: "switch_task e sp b s = (s', Ok sp')"
    and i: "i \<noteq> current s (hart_id e)"
  shows "kstate s' (hart_id e) i = (if i = current s' (hart_id e) then Some Running else kstate s (hart_id e) i)"
proof -
  let ?h = "hart_id e"
  have len: "?h < length (schedulers s)" using kinvD(1) [OF k h] h by simp
  from k h refl show ?thesis
  proof (cases rule: switch_task_cases [where b = b and sp = sp])
    case (stay r)
    then show ?thesis using run len i by (auto simp: kstate_def tcb_at_def upd_sched_def)
  next
    case (switch j tcb p)
    then show ?thesis using run len i by (auto simp: kstate_def tcb_at_def slot_hand_over option.map_comp comp_def)
  qed
qed

lemma forced_switch_wp:
  assumes k: "kinv (stacks e) s" and h: "hart_id e < 2"
    and Q: "\<And>sp' s'. kinv (stacks e) s' \<Longrightarrow> switch_frame (hart_id e) s s' \<Longrightarrow>
      (kstate s (hart_id e) (current s (hart_id e)) \<noteq> Some Ready \<Longrightarrow> gave_way (hart_id e) sp s sp' s') \<Longrightarrow>
      (\<And>i. i \<noteq> current s (hart_id e) \<Longrightarrow> kstate s' (hart_id e) i =
         (if i = current s' (hart_id e) then Some Running else kstate s (hart_id e) i)) \<Longrightarrow> Q sp' s'"
  shows "wp (switch_task e sp False) Q E s"
proof -
  have "wp (switch_task e sp False) (\<lambda>sp' s'. (kinv (stacks e) s' \<and> switch_frame (hart_id e) s s')
      \<and> switch_task e sp False s = (s', Ok sp')) E s"
    by (rule wp_eq, rule switch_task_wp [OF k h]) simp
  then show ?thesis
  proof (rule wp_mono)
    fix sp' s' assume r: "(kinv (stacks e) s' \<and> switch_frame (hart_id e) s s') \<and> switch_task e sp False s = (s', Ok sp')"
    have "gave_way (hart_id e) sp s sp' s'" if "kstate s (hart_id e) (current s (hart_id e)) \<noteq> Some Ready"
      by (rule wp_Ok [OF yield_switch_wp [OF k h that, of sp "\<lambda>sp' s'. gave_way (hart_id e) sp s sp' s'"]]) (use r in simp_all)
    with r switch_others [OF k h, of sp False s' sp'] show "Q sp' s'" by (intro Q) simp_all
  qed simp
qed

section \<open>Faults\<close>

definition faulted :: "u32 \<Rightarrow> usize \<Rightarrow> kernel \<Rightarrow> kernel" where
  "faulted cause sp s = s\<lparr>trace := trace s @ [FaultInterception cause (read_frame (ram s) sp 28)],
     metric_pmp_violations := (if cause \<noteq> 2 then metric_pmp_violations s + 1 else metric_pmp_violations s)\<rparr>"

lemma faulted_fields [simp]:
  "schedulers (faulted c sp s) = schedulers s" "mutexes (faulted c sp s) = mutexes s" "ram (faulted c sp s) = ram s"
  "sched_lock (faulted c sp s) = sched_lock s" "mutex_lock (faulted c sp s) = mutex_lock s"
  "kinv L (faulted c sp s) = kinv L s" "tcb_at (faulted c sp s) h i = tcb_at s h i"
  "kstate (faulted c sp s) h i = kstate s h i" "waits_nowhere i (faulted c sp s) = waits_nowhere i s"
  "heir t (faulted c sp s) k h i = heir t s k h i"
  by (simp_all add: faulted_def waits_nowhere_def heir_def kinv_cong [where s' = "s\<lparr>trace := tr, metric_pmp_violations := n\<rparr>" and s = s for tr n])

lemma kseq_steps:
  "kseq (log_telemetry ev) m s = m (s\<lparr>trace := trace s @ [ev]\<rparr>)" "kseq (kmodify f) m s = m (f s)"
  "kseq (kret ()) m s = m s" "kseq (frame_write sp i v) m s = m (s\<lparr>ram := write_frame (ram s) sp i v\<rparr>)"
  "kseq (write_msip h v) m s = m (s\<lparr>msip := (msip s)(h := v)\<rparr>)"
  by (simp_all add: kseq_def kbind_eval log_telemetry_def kmodify_def kret_def frame_write_def write_msip_def)

lemma kbind_kgets: "kbind (kgets g) f s = f (g s) s"
  by (simp add: kbind_eval kgets_def)

lemma kret_run: "kret a s = (s, Ok a)"
  by (simp add: kret_def)

text \<open>The hart left the task that was current in \<open>s\<close>, unless that one is ready itself; no other task of the hart
  changed but the new current one.\<close>

definition moved_on :: "nat \<Rightarrow> usize \<Rightarrow> kernel \<Rightarrow> usize \<Rightarrow> kernel \<Rightarrow> bool" where
  "moved_on h sp s sp' s' \<longleftrightarrow> (kstate s h (current s h) \<noteq> Some Ready \<longrightarrow> gave_way h sp s sp' s')
     \<and> (\<forall>i. i \<noteq> current s h \<longrightarrow> kstate s' h i = (if i = current s' h then Some Running else kstate s h i))"

lemma moved_on_fields [simp]:
  "moved_on h sp s sp' (s'\<lparr>sched_lock := l\<rparr>) = moved_on h sp s sp' s'"
  by (simp add: moved_on_def)

lemma contain_fault_run:
  assumes k: "kinv (stacks e) s" and l: "locks_ok (hart_id e) s" and h: "hart_id e < 2"
  shows "\<exists>s' sp'. contain_fault e cause sp s = (s', Ok sp')
     \<and> switch_frame (hart_id e) (killed (hart_id e) (current s (hart_id e)) (faulted cause sp s)) s'
     \<and> moved_on (hart_id e) sp (killed (hart_id e) (current s (hart_id e)) (faulted cause sp s)) sp' s'"
proof -
  let ?h = "hart_id e" and ?r = "current s (hart_id e)" and ?f = "faulted cause sp s"
  let ?sl = "acquired (hart_id e) (sched_lock s)" and ?D = "killed (hart_id e) (current s (hart_id e)) (faulted cause sp s)"
  obtain t where t: "tcb_at s ?h ?r = Some t" using kinv_current [OF k h] by blast
  have len: "?h < length (schedulers s)" using kinvD(1) [OF k h] h by simp
  have l': "mutex_lock s = spinlock_new" "usable ?h (sched_lock s)" using l by (simp_all add: locks_ok_def)
  note K = kill_run [of e "?f\<lparr>sched_lock := ?sl\<rparr>", OF _ _ h h, of ?r]
  have k0: "kinv (stacks e) (?D\<lparr>sched_lock := ?sl\<rparr>)" using K(2) k l' by (simp add: killed_sched_lock)
  have sw: "wp (switch_task e sp False) (\<lambda>sp' s'. sched_lock s' = ?sl \<and> switch_frame ?h ?D (s'\<lparr>sched_lock := sched_lock s\<rparr>)
      \<and> moved_on ?h sp ?D sp' s') (\<lambda>_ _. False) (?D\<lparr>sched_lock := ?sl\<rparr>)"
    by (rule forced_switch_wp [OF k0 h])
      (auto simp: moved_on_def dest: switch_frame_fields(2) switch_frame_sched_lock)
  have body: "wp (kbind (running_idx ?h) (\<lambda>running. kbind (peek_tcb ?h running) (\<lambda>entry.
        kseq (case entry of None \<Rightarrow> kret ()
              | Some _ \<Rightarrow> kseq (set_task_state ?h running Terminated) (recover_mutexes e running))
             (switch_task e sp False))))
      (\<lambda>sp' s'. sched_lock s' = ?sl \<and> switch_frame ?h ?D (s'\<lparr>sched_lock := sched_lock s\<rparr>) \<and> moved_on ?h sp ?D sp' s')
      (\<lambda>_ _. False) (?f\<lparr>sched_lock := ?sl\<rparr>)"
    using sw K(1) k l' len t h tcb_at_less [OF k h t]
    by (simp add: wp_kbind running_idx_wp peek_tcb_wp [of "stacks e"] wp_kseq [of "case_option _ _ _"]
        wp_def [of "kseq _ (recover_mutexes _ _)"] killed_sched_lock)
  have run: "contain_fault e cause sp s = sched_guard ?h (kbind (running_idx ?h) (\<lambda>running.
        kbind (peek_tcb ?h running) (\<lambda>entry.
        kseq (case entry of None \<Rightarrow> kret ()
              | Some _ \<Rightarrow> kseq (set_task_state ?h running Terminated) (recover_mutexes e running))
             (switch_task e sp False)))) ?f" (is "_ = sched_guard ?h ?body ?f")
    by (cases "cause = 2") (simp_all add: contain_fault_def Let_def kbind_frame_read kseq_steps faulted_def)
  have "wp (sched_guard ?h ?body) (\<lambda>sp' s'. switch_frame ?h ?D s' \<and> moved_on ?h sp ?D sp' s') (\<lambda>_ _. False) ?f"
    by (rule sched_guard_wp) (use l' h body in simp_all)
  then show ?thesis by (auto simp: wp_no_panic run)
qed

section \<open>Termination by system call\<close>

text \<open>The core on which system call 8 finds its target.\<close>

definition target_hart :: "usize \<Rightarrow> kernel \<Rightarrow> nat option" where
  "target_hart target s =
     (if target < 32 then
        if tcb_at s 0 (unat target) \<noteq> None then Some 0
        else if tcb_at s 1 (unat target) \<noteq> None then Some 1 else None
      else None)"

lemma terminate_target_run:
  assumes k: "kinv L s"
  shows "terminate_target target s = (case target_hart target s of
      None \<Rightarrow> (s, Ok None)
    | Some h \<Rightarrow> (upd_tcb h (unat target) (set_state Terminated) s, Ok (Some h)))"
proof (cases "target < 32")
  case True
  then have "unat target < 32" by (simp add: word_less_nat_alt)
  then have "peek_tcb h (unat target) s = (s, Ok (tcb_at s h (unat target)))" if "h < 2" for h
    using kinv_table_length [OF k that] kinvD(1) [OF k that] that
    by (simp add: peek_tcb_def sched_of_def kdefs tcb_at_def slot_nth)
  then show ?thesis
    using True by (simp add: terminate_target_def target_hart_def kdefs set_task_state_def split: option.split)
qed (simp add: terminate_target_def target_hart_def kdefs)

lemma target_hart_Some:
  assumes "target_hart target s = Some fh"
  obtains t where "fh < 2" "unat target < 32" "tcb_at s fh (unat target) = Some t"
  using assms by (auto simp: target_hart_def word_less_nat_alt split: if_splits)

definition after_terminate :: "trap_env \<Rightarrow> usize \<Rightarrow> nat \<Rightarrow> nat \<Rightarrow> kernel \<Rightarrow> kernel" where
  "after_terminate e sp fh i s = (killed fh i s)\<lparr>ram := write_frame (ram s) sp 6 0,
     msip := (if fh \<noteq> hart_id e then (msip s)(fh := 1) else msip s)\<rparr>"

lemma kinv_after_terminate [simp]: "kinv L (after_terminate e sp fh i s) = kinv L (killed fh i s)"
  by (rule kinv_cong) (simp_all add: after_terminate_def)

lemma kstate_after_terminate [simp]:
  "kstate (after_terminate e sp fh i s) h j = kstate (killed fh i s) h j"
  "mutexes (after_terminate e sp fh i s) = mutexes (killed fh i s)"
  "current (after_terminate e sp fh i s) h = current s h"
  by (simp_all add: after_terminate_def kstate_def tcb_at_def)

lemma after_terminate_sched_lock:
  "after_terminate e sp fh i (s\<lparr>sched_lock := l\<rparr>) = after_terminate e sp fh i s\<lparr>sched_lock := l\<rparr>"
  by (simp add: after_terminate_def killed_sched_lock)

lemma switch_frame_refl: "switch_frame h s s"
  unfolding switch_frame_def
  by (intro conjI exI [of _ "schedulers s"] exI [of _ "pmp s"] exI [of _ "[]"]) (auto split: option.split)

lemma record_msip: "msip s = v \<Longrightarrow> s\<lparr>msip := v\<rparr> = s"
  by simp

lemma terminate_run:
  assumes k: "kinv (stacks e) s" and l: "locks_ok (hart_id e) s" and h: "hart_id e < 2"
    and i: "i = unat (read_frame (ram s) sp 6)" and f: "target_hart (read_frame (ram s) sp 6) s = Some fh"
  shows "\<exists>s' sp'. sys_terminate e sp s = (s', Ok sp')
     \<and> switch_frame (hart_id e) (after_terminate e sp fh i s) s'
     \<and> (if fh = hart_id e \<and> i = current s (hart_id e) then moved_on (hart_id e) sp (after_terminate e sp fh i s) sp' s'
        else s' = after_terminate e sp fh i s \<and> sp' = sp)"
proof -
  let ?h = "hart_id e" and ?sl = "acquired (hart_id e) (sched_lock s)" and ?D = "after_terminate e sp fh i s"
  let ?s0 = "s\<lparr>sched_lock := ?sl\<rparr>"
  have l': "mutex_lock s = spinlock_new" "usable ?h (sched_lock s)" using l by (simp_all add: locks_ok_def)
  obtain t where t: "fh < 2" "tcb_at s fh i = Some t" using target_hart_Some [OF f] i by metis
  have len: "?h < length (schedulers s)" using kinvD(1) [OF k h] h by simp
  have "target_hart x ?s0 = target_hart x s" for x by (simp add: target_hart_def)
  then have tgt: "terminate_target (read_frame (ram s) sp 6) ?s0
      = (upd_tcb fh i (set_state Terminated) ?s0, Ok (Some fh))"
    using terminate_target_run [of "stacks e" ?s0 "read_frame (ram s) sp 6"] k f i by simp
  have k1: "kinv (stacks e) (upd_tcb fh i (set_state Terminated) ?s0)" by (rule kinv_upd_tcb) (use k t(1) in simp_all)
  have rec: "recover_mutexes e i (upd_tcb fh i (set_state Terminated) ?s0) = (killed fh i ?s0, Ok ())"
    "kinv (stacks e) (killed fh i ?s0)"
    using recover_mutexes_run [OF k1 _ h, of i] l' by (simp_all add: killed_def)
  have D: "?D\<lparr>sched_lock := ?sl\<rparr> = (if fh \<noteq> ?h
      then (killed fh i ?s0)\<lparr>ram := write_frame (ram s) sp 6 0, msip := (msip s)(fh := 1)\<rparr>
      else (killed fh i ?s0)\<lparr>ram := write_frame (ram s) sp 6 0\<rparr>)"
    using record_msip [of "(killed fh i ?s0)\<lparr>ram := write_frame (ram s) sp 6 0\<rparr>" "msip s"]
    by (simp add: after_terminate_def killed_sched_lock)
  have sw: "wp (switch_task e sp False) (\<lambda>sp' s'. sched_lock s' = ?sl \<and> switch_frame ?h ?D (s'\<lparr>sched_lock := sched_lock s\<rparr>)
      \<and> moved_on ?h sp ?D sp' s') (\<lambda>_ _. False) (?D\<lparr>sched_lock := ?sl\<rparr>)" if "fh = ?h" "i = current s ?h"
  proof (rule forced_switch_wp)
    show "kinv (stacks e) (?D\<lparr>sched_lock := ?sl\<rparr>)" using rec(2) by (simp add: killed_sched_lock)
  qed (use h in \<open>auto dest: switch_frame_fields(2) switch_frame_sched_lock simp: after_terminate_def moved_on_def\<close>)
  let ?rest = "\<lambda>found. case found of
            None \<Rightarrow> kseq (frame_write sp 6 (-1)) (kret sp)
          | Some found_hart \<Rightarrow>
              kseq (recover_mutexes e i) (kseq (frame_write sp 6 0)
                   (if found_hart \<noteq> ?h then kseq (write_msip found_hart 1) (kret sp)
                    else kbind (running_idx ?h) (\<lambda>active_idx.
                        if i = active_idx then switch_task e sp False else kret sp)))"
  have body: "kbind (terminate_target (read_frame (ram s) sp 6)) ?rest ?s0 =
      (if fh = ?h \<and> i = current s ?h then switch_task e sp False (?D\<lparr>sched_lock := ?sl\<rparr>)
       else (?D\<lparr>sched_lock := ?sl\<rparr>, Ok sp))"
    using len D tgt rec(1)
    by (cases "fh = ?h"; cases "i = current s ?h")
      (simp_all add: kdefs frame_write_def write_msip_def running_idx_def sched_of_def)
  have run: "sys_terminate e sp s = sched_guard ?h (kbind (terminate_target (read_frame (ram s) sp 6)) ?rest) s"
    unfolding sys_terminate_def Let_def kbind_frame_read i ..
  have Dl: "sched_lock ?D = sched_lock s" by (simp add: after_terminate_def)
  have W: "wp (kbind (terminate_target (read_frame (ram s) sp 6)) ?rest)
      (\<lambda>sp' s'. sched_lock s' = ?sl \<and> switch_frame ?h ?D (s'\<lparr>sched_lock := sched_lock s\<rparr>)
        \<and> (if fh = ?h \<and> i = current s ?h then moved_on ?h sp ?D sp' s'
           else s'\<lparr>sched_lock := sched_lock s\<rparr> = ?D \<and> sp' = sp)) (\<lambda>_ _. False) ?s0"
    using sw record_sched_lock [OF Dl] switch_frame_refl [of ?h ?D]
    by (cases "fh = ?h \<and> i = current s ?h") (auto simp: wp_def body)
  have "wp (sched_guard ?h (kbind (terminate_target (read_frame (ram s) sp 6)) ?rest))
      (\<lambda>sp' s'. switch_frame ?h ?D s' \<and> (if fh = ?h \<and> i = current s ?h then moved_on ?h sp ?D sp' s'
           else s' = ?D \<and> sp' = sp)) (\<lambda>_ _. False) s"
    by (rule sched_guard_wp [OF l'(2) h], rule wp_mono [OF W]) (auto split: if_splits)
  then show ?thesis unfolding run by (simp add: wp_no_panic)
qed

lemma terminate_unknown:
  assumes k: "kinv (stacks e) s" and l: "locks_ok (hart_id e) s" and h: "hart_id e < 2"
    and f: "target_hart (read_frame (ram s) sp 6) s = None"
  shows "sys_terminate e sp s = (s\<lparr>ram := write_frame (ram s) sp 6 (-1)\<rparr>, Ok sp)"
proof -
  let ?sl = "acquired (hart_id e) (sched_lock s)"
  have "target_hart x (s\<lparr>sched_lock := ?sl\<rparr>) = target_hart x s" for x by (simp add: target_hart_def)
  then have "terminate_target (read_frame (ram s) sp 6) (s\<lparr>sched_lock := ?sl\<rparr>) = (s\<lparr>sched_lock := ?sl\<rparr>, Ok None)"
    using terminate_target_run [of "stacks e" "s\<lparr>sched_lock := ?sl\<rparr>" "read_frame (ram s) sp 6"] k f by simp
  then show ?thesis
    unfolding sys_terminate_def Let_def kbind_frame_read
    by (subst sched_guard_run [OF _ h, where s' = "s\<lparr>ram := write_frame (ram s) sp 6 (-1), sched_lock := ?sl\<rparr>" and a = sp])
      (use l in \<open>simp_all add: locks_ok_def kbind_eval kseq_steps kret_def\<close>)
qed

section \<open>Cycle-counter reads\<close>

lemma csr_frame_idx_reg:
  assumes "csr_frame_idx rd = Some i"
  shows "i < 28" "saved_regs ! i = unat rd"
proof -
  from assms consider "rd = 1" "i = 0" | "5 \<le> unat rd" "unat rd \<le> 31" "i = unat rd - 4"
    by (auto simp: csr_frame_idx_def word_le_nat_alt split: if_splits)
  then show "i < 28" "saved_regs ! i = unat rd"
    by (cases; auto simp: saved_regs_upt nth_Cons split: nat.split)+
qed

lemma csr_frame_idx_None: "rd < 32 \<Longrightarrow> csr_frame_idx rd = None \<longleftrightarrow> unat rd \<in> {0, 2, 3, 4}"
  by (auto simp: csr_frame_idx_def word_le_nat_alt word_less_nat_alt word_unat_eq_iff)

lemma load_context_write:
  assumes i: "i < 28" and x: "x = saved_regs ! i"
  shows "load_context r (write_frame m sp i v) sp
    = (load_context r m sp)\<lparr>regs := (regs (load_context r m sp))(x := v)\<rparr>"
proof (rule cpu_context.equality)
  have x2: "x \<noteq> 2" using i x saved_regs_facts nth_mem by metis
  show "regs (load_context r (write_frame m sp i v) sp)
      = regs ((load_context r m sp)\<lparr>regs := (regs (load_context r m sp))(x := v)\<rparr>)"
  proof
    fix y
    show "regs (load_context r (write_frame m sp i v) sp) y
      = regs ((load_context r m sp)\<lparr>regs := (regs (load_context r m sp))(x := v)\<rparr>) y"
    proof (cases "y \<in> set saved_regs")
      case True
      then obtain j where j: "j < 28" "y = saved_regs ! j" by (rule saved_regs_cases)
      moreover have "y = x \<longleftrightarrow> i = j"
        using i j x saved_regs_facts(1,2) by (auto simp: nth_eq_iff_index_eq)
      ultimately show ?thesis using i by (auto simp: load_context_reg read_write_frame)
    next
      case False
      then have "y \<noteq> x" using i x saved_regs_facts(2) nth_mem by metis
      then show ?thesis using False by (cases "y = 2") (simp_all add: load_context_other, simp add: load_context_def)
    qed
  qed
qed (use i in \<open>simp_all add: load_context_def read_write_frame\<close>)

lemma load_context_pc:
  "load_context r (write_frame m sp 28 v) sp = (load_context r m sp)\<lparr>mepc := v\<rparr>"
proof (rule cpu_context.equality)
  show "regs (load_context r (write_frame m sp 28 v) sp) = regs ((load_context r m sp)\<lparr>mepc := v\<rparr>)"
  proof
    fix y
    show "regs (load_context r (write_frame m sp 28 v) sp) y = regs ((load_context r m sp)\<lparr>mepc := v\<rparr>) y"
    proof (cases "y \<in> set saved_regs")
      case True
      then obtain j where "j < 28" "y = saved_regs ! j" by (rule saved_regs_cases)
      then show ?thesis by (simp add: load_context_reg read_write_frame)
    qed (cases "y = 2"; simp add: load_context_other; simp add: load_context_def)
  qed
qed (simp_all add: load_context_def read_write_frame)

section \<open>Preemption\<close>

text \<open>Either the hart stays with its task, or the task's stack pointer is saved in its control block and
  the hart continues from the one saved for the new task.\<close>

definition saves :: "nat \<Rightarrow> usize \<Rightarrow> kernel \<Rightarrow> usize \<Rightarrow> kernel \<Rightarrow> bool" where
  "saves h sp s sp' s' \<longleftrightarrow> current s' h = current s h \<and> sp' = sp
     \<or> current s' h \<noteq> current s h \<and> map_option saved_sp (tcb_at s' h (current s h)) = Some sp
       \<and> map_option saved_sp (tcb_at s h (current s' h)) = Some sp'"

lemma switch_saves:
  assumes k: "kinv (stacks e) s" and h: "hart_id e < 2"
    and r: "kstate s (hart_id e) (current s (hart_id e)) \<noteq> Some Ready"
    and run: "switch_task e sp b s = (s', Ok sp')"
  shows "saves (hart_id e) sp s sp' s'"
proof -
  let ?h = "hart_id e" and ?c = "current s (hart_id e)"
  have len: "?h < length (schedulers s)" using kinvD(1) [OF k h] h by simp
  obtain ct where c: "tcb_at s ?h ?c = Some ct" using kinv_current [OF k h] by blast
  from k h refl show ?thesis
  proof (cases rule: switch_task_cases [where b = b and sp = sp])
    case (stay r)
    then show ?thesis using run len by (auto simp: saves_def upd_sched_def)
  next
    case (switch j tcb p)
    have "j \<noteq> ?c" using switch(3,4) r by (auto simp: kstate_def)
    then show ?thesis
      using run switch(3,6) len c by (auto simp: saves_def tcb_at_def slot_hand_over)
  qed
qed

lemma saved_sp_wake [simp]: "saved_sp (wake tick t) = saved_sp t"
  by (simp add: wake_def split: option.split)

lemma timer_saves:
  assumes k: "kinv (stacks e) s" and l: "locks_ok (hart_id e) s" and h: "hart_id e < 2"
    and r: "kstate s (hart_id e) (current s (hart_id e)) = Some Running"
  shows "\<exists>s' sp'. on_timer e sp s = (s', Ok sp') \<and> ram s' = ram s \<and> saves (hart_id e) sp s sp' s'"
proof -
  let ?h = "hart_id e" and ?tick = "tick_count s + 1" and ?sl = "acquired (hart_id e) (sched_lock s)"
  let ?s0 = "s\<lparr>tick_count := ?tick, mtimecmp := (mtimecmp s)(?h := mtime e + 40000), sched_lock := ?sl\<rparr>"
  let ?s1 = "fold (\<lambda>i. upd_tcb ?h i (wake ?tick)) [0..<32] ?s0"
  have k0: "kinv (stacks e) ?s0" using k by simp
  have len: "?h < length (schedulers ?s0)" using kinvD(1) [OF k h] h by simp
  have wake_fields: "kinv (stacks e) (fold (\<lambda>i. upd_tcb ?h i (wake ?tick)) is t) \<and>
      ram (fold (\<lambda>i. upd_tcb ?h i (wake ?tick)) is t) = ram t \<and>
      current (fold (\<lambda>i. upd_tcb ?h i (wake ?tick)) is t) ?h = current t ?h" if "kinv (stacks e) t" for t "is"
    using that by (induction "is" arbitrary: t) (simp_all add: kinv_upd_tcb h)
  have at: "tcb_at ?s1 ?h i = (if i < 32 then map_option (wake ?tick) (tcb_at s ?h i) else tcb_at s ?h i)" for i
    by (simp add: fold_wake(1) [OF len])
  have run1: "kstate ?s1 ?h (current ?s1 ?h) = Some Running"
    using r wake_fields [OF k0, of "[0..<32]"] by (auto simp: kstate_def at wake_def)
  have "wp (switch_task e sp True) (\<lambda>sp' s'. sched_lock s' = ?sl \<and> ram s' = ram s \<and> saves ?h sp ?s1 sp' s') (\<lambda>_ _. False) ?s1"
  proof -
    have "wp (switch_task e sp True) (\<lambda>sp' s'. (kinv (stacks e) s' \<and> switch_frame ?h ?s1 s')
        \<and> switch_task e sp True ?s1 = (s', Ok sp')) (\<lambda>_ _. False) ?s1"
      by (rule wp_eq, rule switch_task_wp) (use wake_fields [OF k0] h in simp_all)
    then show ?thesis
      by (rule wp_mono) (use switch_saves [of e ?s1] wake_fields [OF k0] h run1 switch_frame_fields(2,6)
        fold_wake(2) [OF len, of "[0..<32]"] in auto)
  qed
  then have "wp (on_timer e sp) (\<lambda>sp' s'. ram s' = ram s \<and> saves ?h sp ?s1 sp' s') (\<lambda>_ _. False) s"
    unfolding on_timer_def Let_def wp_kseq wp_kbind wp_kmodify wp_kgets
    by (intro sched_guard_wp; use l h k0 in
        \<open>simp add: locks_ok_def wp_kseq wp_def [of "wake_sleepers _ _"] wake_sleepers_run [of "stacks e"]\<close>)
      (erule wp_mono, auto simp: saves_def)
  moreover have "saves ?h sp ?s1 sp' s' = saves ?h sp s sp' s'" for sp' s'
    using wake_fields [OF k0, of "[0..<32]"] by (auto simp: saves_def at option.map_comp comp_def)
  ultimately show ?thesis by (auto simp: wp_no_panic)
qed

section \<open>Properties\<close>

text \<open>C7: a contained fault of the running task (access, misalignment or illegal instruction) terminates
  that task and no other. It is \<^verbatim>\<open>Terminated\<close>; each mutex it owned has gone to its lowest waiter or is
  free. Every other task of either hart keeps its state, but for those that inherit a mutex, which become ready, and the
  one the hart goes to, which runs. The fault is in the trace, and a ready task takes the hart. One case is
  different: a task that is itself the lowest waiter of a mutex it owns (it locked the mutex twice, or was terminated
  while it waited and has been restarted) inherits the mutex from itself and is ready again.\<close>

theorem fault_containment:
  assumes "kinv (stacks e) s" "locks_ok (hart_id e) s" "hart_id e < 2" "r = current s (hart_id e)"
    and "cause \<in> set contained_causes"
    and "cause = 2 \<longrightarrow> \<not> is_cycle_read (read_word (ram s) (read_frame (ram s) sp 28))"
  shows "\<exists>s' sp'. trap_handler e cause sp start s = (s', Ok sp')
     \<and> kstate s' (hart_id e) r \<in> (if \<exists>k. heir r s k (hart_id e) r then {Some Ready, Some Running} else {Some Terminated})
     \<and> (\<forall>k. slot (mutexes s') k = map_option (recover_of r) (slot (mutexes s) k))
     \<and> (\<forall>k m'. slot (mutexes s') k = Some m' \<and> owner_task_idx m' = Some (of_nat r) \<longrightarrow>
          (\<exists>m. slot (mutexes s) k = Some m \<and> bit (waiters_bitmap m) r))
     \<and> (\<forall>h i. (h, i) \<noteq> (hart_id e, r) \<longrightarrow> kstate s' h i =
          (if h = hart_id e \<and> i = current s' h then Some Running
           else if \<exists>k. heir r s k h i then map_option (\<lambda>_. Ready) (kstate s h i) else kstate s h i))
     \<and> FaultInterception cause (read_frame (ram s) sp 28) \<in> set (trace s')
     \<and> (\<forall>i. i \<noteq> r \<and> kstate s (hart_id e) i = Some Ready \<and> \<not> (\<exists>k. heir r s k (hart_id e) r) \<longrightarrow>
          current s' (hart_id e) \<noteq> r \<and> kstate s' (hart_id e) (current s' (hart_id e)) = Some Running)"
proof -
  let ?h = "hart_id e" and ?s0 = "s\<lparr>metric_trap_latency := end_cycle e - start\<rparr>"
  let ?f = "faulted cause sp ?s0" and ?D = "killed (hart_id e) r (faulted cause sp (s\<lparr>metric_trap_latency := end_cycle e - start\<rparr>))"
  have k0: "kinv (stacks e) ?s0" "locks_ok ?h ?s0" using assms(1,2) by simp_all
  obtain t where t: "tcb_at ?f ?h r = Some t" using kinv_current [OF assms(1,3)] assms(4) by auto
  have hs: "heir i ?f k h j = heir i s k h j" for i k h j by (simp add: heir_def)
  have run: "trap_handler e cause sp start s = contain_fault e cause sp ?s0"
    using assms(5,6)
    by (auto simp: trap_handler_def kseq_steps on_exception_def Let_def contained_causes_def kbind_frame_read
        kbind_kgets)
  obtain s' sp' where s': "contain_fault e cause sp ?s0 = (s', Ok sp')" "switch_frame ?h ?D s'" "moved_on ?h sp ?D sp' s'"
    using contain_fault_run [OF k0 assms(3), of cause sp] assms(4) by auto
  have kf: "kinv (stacks e) ?f" using k0 by simp
  note K = killed_states [OF kf assms(3) t, unfolded hs]
  have cur: "current ?D ?h = r" using assms(4) by simp
  have slots: "slot (mutexes s') k = map_option (recover_of r) (slot (mutexes s) k)" for k
    using K(2) [of k] switch_frame_fields(1) [OF s'(2)] by simp
  have r32: "r < 32" using tcb_at_less [OF kf assms(3) t] .
  have others: "kstate s' h i = (if h = ?h \<and> i = current s' h then Some Running
      else if \<exists>k. heir r s k h i then map_option (\<lambda>_. Ready) (kstate s h i) else kstate s h i)" if "(h, i) \<noteq> (?h, r)" for h i
  proof (cases "h = ?h")
    case True
    then show ?thesis using s'(3) that K(3) [OF that] cur by (auto simp: moved_on_def)
  next
    case False
    then show ?thesis using K(3) [OF that] switch_frame_kstate(3) [OF s'(2) False, of i] by simp
  qed
  have self: "kstate s' ?h r \<in> (if \<exists>k. heir r s k ?h r then {Some Ready, Some Running} else {Some Terminated})"
    using K(1) switch_frame_kstate(1) [OF s'(2), of ?h r Terminated] switch_frame_kstate(2) [OF s'(2), of ?h r] by auto
  have leaves: "current s' ?h \<noteq> r \<and> kstate s' ?h (current s' ?h) = Some Running"
    if "i \<noteq> r" "kstate s ?h i = Some Ready" "\<not> (\<exists>k. heir r s k ?h r)" for i
  proof -
    have "kstate ?D ?h i = Some Ready" "kstate ?D ?h r = Some Terminated" using K(3) [of ?h i] K(1) that by simp_all
    then show ?thesis using s'(3) that(1) cur by (auto simp: moved_on_def gave_way_def)
  qed
  have "FaultInterception cause (read_frame (ram s) sp 28) \<in> set (trace s')"
    using switch_frame_fields(11) [OF s'(2)] by (auto simp: faulted_def)
  moreover have "\<exists>m. slot (mutexes s) k = Some m \<and> bit (waiters_bitmap m) r"
    if "slot (mutexes s') k = Some m'" "owner_task_idx m' = Some (of_nat r)" for k m'
    using that slots [of k] recover_of_owner [OF r32] by (cases "slot (mutexes s) k") auto
  ultimately show ?thesis using s'(1) run slots self others leaves
    by (intro exI [of _ s'] exI [of _ sp'] conjI allI impI; (elim conjE)?) (assumption | simp)+
qed

theorem fault_containment_witness:
  "\<exists>s' sp'. trap_handler (demo_env 1) 5 demo_sp 0 (upd_tcb 0 1 (set_state (BlockedOnMutex 0))
       (demo_at 0 3 (held_mutex 3 2) (call_ram 0 0 0 0))) = (s', Ok sp')
     \<and> kstate s' 1 3 = Some Terminated \<and> slot (mutexes s') 0 = Some (held_mutex 1 0)
     \<and> current s' 1 \<noteq> 3"
proof -
  let ?s = "upd_tcb 0 1 (set_state (BlockedOnMutex 0)) (demo_at 0 3 (held_mutex 3 2) (call_ram 0 0 0 0))"
  have k: "kinv demo_layout ?s" by (rule kinv_upd_tcb) (simp_all add: demo_kinv)
  have "\<not> bit (2 :: u32) 3" by (simp add: bit_numeral_rec)
  then have w: "waits_nowhere 3 ?s"
    by (auto simp: waits_nowhere_def MUTEXES_def slot_def nth_Cons held_mutex_def split: if_splits nat.splits)
  have r: "recover_of 3 (held_mutex 3 2) = held_mutex 1 0"
    using first_waiter_Some [of 2 1] by (simp add: recover_of_def held_mutex_def bit_numeral_rec)
  have b: "kstate ?s 1 2 = Some Ready" by (simp add: kstate_def tcb_at_upd_tcb demo_tcb_at)
  have l: "locks_ok 1 ?s" "current ?s 1 = 3" by (simp_all add: locks_ok_def usable_def spinlock_new_def)
  have c: "(5 :: u32) \<in> set contained_causes" "(5 :: u32) = 2 \<longrightarrow> P" "(1 :: nat) < 2" for P
    by (simp_all add: contained_causes_def)
  note F = fault_containment [of "demo_env 1" ?s 3 5 demo_sp 0, unfolded demo_env_simps,
      OF k l(1) c(3) l(2) [symmetric] c(1) c(2)]
  have h: "\<not> (\<exists>k. heir 3 ?s k 1 3)" using w by (auto simp: heir_def waits_nowhere_def first_waiter_Some)
  obtain s' sp' where f: "trap_handler (demo_env 1) 5 demo_sp 0 ?s = (s', Ok sp')" "kstate s' 1 3 = Some Terminated"
    "slot (mutexes s') 0 = map_option (recover_of 3) (slot (mutexes ?s) 0)"
    "\<forall>i. i \<noteq> 3 \<and> kstate ?s 1 i = Some Ready \<longrightarrow>
       current s' 1 \<noteq> 3 \<and> kstate s' 1 (current s' 1) = Some Running"
    using F h by auto
  with r f(4) [rule_format, of 2] b show ?thesis by auto
qed

text \<open>C33: system call 8 asks for no capability: any task can name any registered task. The target, looked up on core 0
  first, is \<^verbatim>\<open>Terminated\<close>, its mutexes are recovered, its core is notified when it is the other one, and
  the caller reads 0; a caller that terminates itself gives up the hart. Every other task keeps its state, but for those
  that inherit a mutex, which become ready, and the one a self-terminated caller's hart goes to. But a target that is itself the lowest
  waiter of a mutex it owns, for example because it locked the mutex twice, survives: the recovery passes the mutex
  to it and makes it ready. An unknown priority changes nothing but \<^verbatim>\<open>a0\<close>, which becomes -1. Waiter bitmaps
  of mutexes that the target does not own stay as they are.\<close>

theorem terminate_any_task:
  assumes "in_call 8 e sp tcb s" "i = unat (read_frame (ram s) sp 6)"
  shows "case target_hart (read_frame (ram s) sp 6) s of
      None \<Rightarrow> trap_handler e 8 sp start s = ((call_state e sp start s)\<lparr>ram :=
                write_frame (ram (call_state e sp start s)) sp 6 (-1)\<rparr>, Ok sp)
    | Some fh \<Rightarrow> \<exists>s' sp'. trap_handler e 8 sp start s = (s', Ok sp')
          \<and> kstate s' fh i \<in> (if \<exists>k. heir i s k fh i then {Some Ready, Some Running} else {Some Terminated})
          \<and> (\<forall>k. slot (mutexes s') k = map_option (recover_of i) (slot (mutexes s) k))
          \<and> (\<forall>h j. (h, j) \<noteq> (fh, i) \<longrightarrow> kstate s' h j =
               (if h = hart_id e \<and> (fh, i) = (h, current s h) \<and> j = current s' h then Some Running
                else if \<exists>k. heir i s k h j then map_option (\<lambda>_. Ready) (kstate s h j) else kstate s h j))
          \<and> read_frame (ram s') sp 6 = 0 \<and> (fh = hart_id e \<or> msip s' fh = 1)
          \<and> (fh \<noteq> hart_id e \<or> i \<noteq> current s (hart_id e) \<longrightarrow>
               sp' = sp \<and> current s' (hart_id e) = current s (hart_id e))"
proof -
  note D = in_callD [OF assms(1)] and S = in_call_state [OF assms(1), of start]
  let ?h = "hart_id e" and ?c = "call_state e sp start s"
  have th: "target_hart (read_frame (ram ?c) sp 6) ?c = target_hart (read_frame (ram s) sp 6) s"
    by (simp add: target_hart_def)
  have hs: "heir i ?c k h j = heir i s k h j" for k h j by (simp add: heir_def)
  show ?thesis
  proof (cases "target_hart (read_frame (ram s) sp 6) s")
    case None
    then show ?thesis using terminate_unknown [OF S(1,2) D(1), of sp] th D(2) by (simp add: trap_syscall)
  next
    case (Some fh)
    obtain t where t: "fh < 2" "tcb_at ?c fh i = Some t" using target_hart_Some [OF Some] assms(2) by auto
    note K = killed_states [OF S(1) t, unfolded hs]
    let ?A = "after_terminate e sp fh i ?c"
    from terminate_run [OF S(1,2) D(1), of i sp fh] Some th assms(2)
    obtain s' sp' where r: "sys_terminate e sp ?c = (s', Ok sp')" "switch_frame ?h ?A s'"
      "\<not> (fh = ?h \<and> i = current s ?h) \<longrightarrow> s' = ?A \<and> sp' = sp"
      "fh = ?h \<and> i = current s ?h \<longrightarrow> moved_on ?h sp ?A sp' s'"
      by (auto split: if_splits)
    have A: "kstate ?A = kstate (killed fh i ?c)" "current ?A ?h = current s ?h" by (auto simp: after_terminate_def fun_eq_iff)
    have others: "kstate s' h j = (if h = ?h \<and> (fh, i) = (h, current s h) \<and> j = current s' h then Some Running
        else if \<exists>k. heir i s k h j then map_option (\<lambda>_. Ready) (kstate s h j) else kstate s h j)"
      if n: "(h, j) \<noteq> (fh, i)" for h j
    proof (cases "fh = ?h \<and> i = current s ?h")
      case False
      then show ?thesis using K(3) [OF n] r(3) A by auto
    next
      case True
      then show ?thesis using K(3) [OF n] r(4) A n switch_frame_kstate(3) [OF r(2), of h j]
        by (cases "h = ?h") (auto simp: moved_on_def)
    qed
    have "read_frame (ram s') sp 6 = 0" using switch_frame_fields(6) [OF r(2)] by (simp add: after_terminate_def)
    moreover have "fh = ?h \<or> msip s' fh = 1" using switch_frame_fields(7) [OF r(2)] by (auto simp: after_terminate_def)
    moreover have "slot (mutexes s') k = map_option (recover_of i) (slot (mutexes s) k)" for k
      using K(2) [of k] switch_frame_fields(1) [OF r(2)] by simp
    moreover have "kstate s' fh i \<in> (if \<exists>k. heir i s k fh i then {Some Ready, Some Running} else {Some Terminated})"
      using K(1) switch_frame_kstate(1) [OF r(2), of fh i Terminated] switch_frame_kstate(2) [OF r(2), of fh i] by auto
    moreover have "sp' = sp \<and> current s' ?h = current s ?h" if "fh \<noteq> ?h \<or> i \<noteq> current s ?h"
      using r(3) that by auto
    moreover have "trap_handler e 8 sp start s = (s', Ok sp')" using r(1) D(2) by (simp add: trap_syscall)
    ultimately show ?thesis using Some others
      by (simp only: option.case) (intro exI [of _ s'] exI [of _ sp'] conjI allI impI; blast?)
  qed
qed

theorem terminate_any_task_witness:
  "(\<exists>s' sp'. trap_handler (demo_env 1) 8 demo_sp 0 (demo_at 0 2 free_mutex (call_ram 8 1 0 0)) = (s', Ok sp')
     \<and> kstate s' 0 1 = Some Terminated)
   \<and> (\<exists>s' sp'. trap_handler (demo_env 1) 8 demo_sp 0 (upd_tcb 0 1 (set_state (BlockedOnMutex 0))
         (demo_at 0 2 (held_mutex 1 2) (call_ram 8 1 0 0))) = (s', Ok sp')
       \<and> kstate s' 0 1 \<in> {Some Ready, Some Running} \<and> slot (mutexes s') 0 = Some (held_mutex 1 0))"
proof
  let ?b = "set_state Running (new_tcb (frame_top (TASK_B_STACK demo_layout)) 2 ''Task B'' task_b_caps)"
  let ?s = "demo_at 0 2 free_mutex (call_ram 8 1 0 0)"
  have c: "in_call 8 (demo_env 1) demo_sp ?b ?s" by (simp add: in_call_def demo_kinv demo_tcb_at)
  have w: "\<not> (\<exists>k. heir 1 ?s k 0 1)"
    by (auto simp: heir_def MUTEXES_def slot_def nth_Cons free_mutex_def split: if_splits nat.splits)
  have "target_hart 1 ?s = Some 0" by (simp add: target_hart_def demo_tcb_at)
  then show "\<exists>s' sp'. trap_handler (demo_env 1) 8 demo_sp 0 ?s = (s', Ok sp') \<and> kstate s' 0 1 = Some Terminated"
    using terminate_any_task [OF c, of 1 0] w by auto
next
  let ?b = "set_state Running (new_tcb (frame_top (TASK_B_STACK demo_layout)) 2 ''Task B'' task_b_caps)"
  let ?s = "upd_tcb 0 1 (set_state (BlockedOnMutex 0)) (demo_at 0 2 (held_mutex 1 2) (call_ram 8 1 0 0))"
  have "kinv demo_layout ?s" by (rule kinv_upd_tcb) (simp_all add: demo_kinv)
  then have c: "in_call 8 (demo_env 1) demo_sp ?b ?s"
    by (simp add: in_call_def demo_tcb_at tcb_at_upd_tcb locks_ok_def usable_def spinlock_new_def)
  have m: "slot (mutexes ?s) 0 = Some (held_mutex 1 2)" by simp
  have f: "first_waiter 2 = Some 1" by (simp add: first_waiter_Some bit_numeral_rec)
  then have "\<exists>k. heir 1 ?s k 0 1" using m by (intro exI [of _ 0]) (simp add: heir_def held_mutex_def waiter_hart_def)
  moreover have "recover_of 1 (held_mutex 1 2) = held_mutex 1 0"
    using f by (simp add: recover_of_def held_mutex_def)
  moreover have "target_hart 1 ?s = Some 0" by (simp add: target_hart_def demo_tcb_at tcb_at_upd_tcb)
  ultimately obtain s' sp' where "trap_handler (demo_env 1) 8 demo_sp 0 ?s = (s', Ok sp')"
    "kstate s' 0 1 \<in> {Some Ready, Some Running}"
    "\<forall>k. slot (mutexes s') k = map_option (recover_of 1) (slot (mutexes ?s) k)"
    "recover_of 1 (held_mutex 1 2) = held_mutex 1 0"
    using terminate_any_task [OF c, of 1 0] by (auto simp del: One_nat_def)
  then show "\<exists>s' sp'. trap_handler (demo_env 1) 8 demo_sp 0 ?s = (s', Ok sp')
       \<and> kstate s' 0 1 \<in> {Some Ready, Some Running} \<and> slot (mutexes s') 0 = Some (held_mutex 1 0)"
    using m by auto
qed

text \<open>C34: a timer interrupt counts one tick, sets the next one 40000 ticks of \<^verbatim>\<open>mtime\<close> ahead, makes every
  sleeper of the hart runnable whose wake-up tick has come and no other, and leaves every other blocked or
  terminated task, and every task of the other hart, as it is.\<close>

theorem timer_wakes_sleepers:
  assumes "kinv (stacks e) s" "locks_ok (hart_id e) s" "hart_id e < 2"
  shows "\<exists>s' sp'. trap_handler e (push_bit 31 1 OR 7) sp start s = (s', Ok sp')
     \<and> tick_count s' = tick_count s + 1 \<and> mtimecmp s' = (mtimecmp s)(hart_id e := mtime e + 40000)
     \<and> (\<forall>i w. kstate s (hart_id e) i = Some (Blocked w) \<longrightarrow>
          (if w \<le> tick_count s + 1 then kstate s' (hart_id e) i \<in> {Some Ready, Some Running}
           else kstate s' (hart_id e) i = Some (Blocked w)))
     \<and> (\<forall>i st. kstate s (hart_id e) i = Some st \<and> st \<notin> {Ready, Running} \<and> sleeping_until st = None \<longrightarrow>
          kstate s' (hart_id e) i = Some st)
     \<and> (\<forall>i h. h \<noteq> hart_id e \<longrightarrow> kstate s' h i = kstate s h i)"
proof -
  let ?s0 = "s\<lparr>metric_trap_latency := end_cycle e - start\<rparr>" and ?h = "hart_id e"
  have run: "trap_handler e (push_bit 31 1 OR 7) sp start s = on_timer e sp ?s0"
    by (simp add: trap_handler_def kseq_steps)
  obtain s' sp' where r: "on_timer e sp ?s0 = (s', Ok sp')" "tick_count s' = tick_count s + 1"
    "mtimecmp s' = (mtimecmp s)(?h := mtime e + 40000)"
    and states: "\<And>i st. kstate s ?h i = Some st \<Longrightarrow> st \<noteq> Ready \<Longrightarrow> st \<noteq> Running \<Longrightarrow>
      kstate s' ?h i \<in> (case sleeping_until st of
              Some w \<Rightarrow> if w \<le> tick_count ?s0 + 1 then {Some Ready, Some Running} else {Some st}
            | None \<Rightarrow> {Some st})"
    and other: "\<forall>i h. h \<noteq> ?h \<longrightarrow> kstate s' h i = kstate s h i"
    using timer_run [of e ?s0 sp] assms by auto
  show ?thesis
    unfolding run
  proof (intro exI conjI allI impI)
    show "if w \<le> tick_count s + 1 then kstate s' ?h i \<in> {Some Ready, Some Running}
        else kstate s' ?h i = Some (Blocked w)" if "kstate s ?h i = Some (Blocked w)" for i w
      using states [OF that] by (auto split: if_splits)
    show "kstate s' ?h i = Some st"
      if "kstate s ?h i = Some st \<and> st \<notin> {Ready, Running} \<and> sleeping_until st = None" for i st
      using states [of i st] that by auto
  qed (use r other in auto)
qed

theorem timer_wakes_sleepers_witness:
  "\<exists>s' sp'. trap_handler (demo_env 0) (push_bit 31 1 OR 7) demo_sp 0 (upd_tcb 0 4 (set_state (Blocked 9))
       (upd_tcb 0 1 (set_state (Blocked 1)) (demo_at 0 2 free_mutex (\<lambda>_. 0)))) = (s', Ok sp')
     \<and> kstate s' 0 1 \<in> {Some Ready, Some Running} \<and> kstate s' 0 4 = Some (Blocked 9)"
proof -
  let ?s = "upd_tcb 0 4 (set_state (Blocked 9)) (upd_tcb 0 1 (set_state (Blocked 1)) (demo_at 0 2 free_mutex (\<lambda>_. 0)))"
  have k: "kinv demo_layout ?s" by (intro kinv_upd_tcb) (simp_all add: demo_kinv)
  have l: "locks_ok 0 ?s" by (simp add: locks_ok_def usable_def spinlock_new_def)
  have st: "kstate ?s 0 1 = Some (Blocked 1)" "kstate ?s 0 4 = Some (Blocked 9)"
    by (simp_all add: kstate_def tcb_at_upd_tcb demo_tcb_at)
  have z: "(0 :: nat) < 2" by simp
  note F = timer_wakes_sleepers [of "demo_env 0" ?s demo_sp 0, unfolded demo_env_simps, OF k l z]
  then obtain s' sp' where r: "trap_handler (demo_env 0) (push_bit 31 1 OR 7) demo_sp 0 ?s = (s', Ok sp')"
    "\<forall>i w. kstate ?s 0 i = Some (Blocked w) \<longrightarrow>
          (if w \<le> tick_count ?s + 1 then kstate s' 0 i \<in> {Some Ready, Some Running}
           else kstate s' 0 i = Some (Blocked w))"
    by blast
  from r(2) [rule_format, OF st(1)] r(2) [rule_format, OF st(2)] r(1) show ?thesis
    by (auto simp: word_le_nat_alt)
qed

text \<open>System call 2 puts the caller to sleep until the tick count plus the number of ticks asked for, a
  32-bit sum that wraps around; the hart goes to a ready task if there is one.\<close>

lemma sleep_blocks_until:
  assumes "in_call 2 e sp tcb s"
  shows "\<exists>s' sp'. trap_handler e 8 sp start s = (s', Ok sp')
     \<and> kstate s' (hart_id e) (current s (hart_id e)) = Some (Blocked (tick_count s + read_frame (ram s) sp 6))
     \<and> gave_way (hart_id e) sp s sp' s'"
proof -
  note D = in_callD [OF assms] and S = in_call_state [OF assms, of start]
  show ?thesis using sleep_wp [OF S(1,2) D(1), of sp] D(2) by (simp add: trap_syscall)
qed



text \<open>C14: a timer interrupt in context \<open>c\<close> stores \<open>c\<close> in a frame below the task's stack pointer; the hart either
  continues with the same task from that frame, or the frame's address is saved in the task's control block and
  the hart continues from the one saved for the next task. Whatever the hart's registers hold by the time the frame
  is loaded, it gives back the program counter, \<^verbatim>\<open>mstatus\<close> and every register of \<open>c\<close> but \<^verbatim>\<open>gp\<close> and \<^verbatim>\<open>tp\<close>, which
  are not saved and keep the value that the tasks in between left (and \<^verbatim>\<open>x0\<close>).\<close>

theorem preempted_context_is_saved:
  assumes "kinv (stacks e) s" "locks_ok (hart_id e) s" "hart_id e < 2"
    and "kstate s (hart_id e) (current s (hart_id e)) = Some Running" "trap_entry_save c (ram s) = (m, sp)"
  shows "\<exists>s' sp'. trap_handler e (push_bit 31 1 OR 7) sp start (s\<lparr>ram := m\<rparr>) = (s', Ok sp')
     \<and> (\<forall>r. mepc (load_context r (ram s') sp) = mepc c \<and> mstatus (load_context r (ram s') sp) = mstatus c
         \<and> (\<forall>x<32. regs (load_context r (ram s') sp) x = (if x \<in> {0, 3, 4} then r x else regs c x)))
     \<and> (current s' (hart_id e) = current s (hart_id e) \<and> sp' = sp
        \<or> current s' (hart_id e) \<noteq> current s (hart_id e)
          \<and> map_option saved_sp (tcb_at s' (hart_id e) (current s (hart_id e))) = Some sp
          \<and> map_option saved_sp (tcb_at s (hart_id e) (current s' (hart_id e))) = Some sp')"
proof -
  let ?s0 = "s\<lparr>ram := m, metric_trap_latency := end_cycle e - start\<rparr>"
  have "trap_handler e (push_bit 31 1 OR 7) sp start (s\<lparr>ram := m\<rparr>) = on_timer e sp ?s0"
    by (simp add: trap_handler_def kseq_steps)
  moreover obtain s' sp' where r: "on_timer e sp ?s0 = (s', Ok sp')" "ram s' = m" "saves (hart_id e) sp ?s0 sp' s'"
    using timer_saves [of e ?s0 sp] assms(1-4) by auto
  moreover have "comes_back (ram s') sp c" using trap_entry_restores [OF assms(5)] r(2) by (auto intro: comes_backI)
  ultimately show ?thesis
    by (intro exI [of _ s'] exI [of _ sp']) (auto simp: comes_back_def saves_def tcb_at_def)
qed

theorem preempted_context_is_saved_witness:
  "\<exists>s' sp'. trap_handler (demo_env 0) (push_bit 31 1 OR 7) 0x3FC90680 0 (demo_at 1 2 free_mutex
       (fst (trap_entry_save \<lparr>regs = (\<lambda>n. if n = 2 then 0x3FC90700 else of_nat n), mepc = 0x42000210, mstatus = 0x80\<rparr>
          (\<lambda>_. 0)))) = (s', Ok sp')
     \<and> regs (load_context (\<lambda>_. 7) (ram s') 0x3FC90680) 10 = 10 \<and> regs (load_context (\<lambda>_. 7) (ram s') 0x3FC90680) 3 = 7"
proof -
  let ?c = "\<lparr>regs = (\<lambda>n. if n = 2 then 0x3FC90700 else of_nat n), mepc = 0x42000210, mstatus = 0x80\<rparr>"
  let ?s = "demo_at 1 2 free_mutex (\<lambda>_. 0)"
  let ?m = "fst (trap_entry_save ?c (\<lambda>_. 0))"
  have m: "trap_entry_save ?c (ram ?s) = (?m, 0x3FC90680)"
    using trap_entry_sp [of ?c "\<lambda>_. 0" ?m "snd (trap_entry_save ?c (\<lambda>_. 0))"]
    by (cases "trap_entry_save ?c (\<lambda>_. 0)") simp
  have r: "kstate ?s 0 (current ?s 0) = Some Running" by (simp add: kstate_def demo_tcb_at)
  have k: "kinv demo_layout ?s" "locks_ok 0 ?s" "(0 :: nat) < 2" by (simp_all add: demo_kinv)
  have s: "?s\<lparr>ram := ?m\<rparr> = demo_at 1 2 free_mutex ?m" by (simp add: demo_at_def)
  from preempted_context_is_saved [of "demo_env 0" ?s, unfolded demo_env_simps, OF k r m, of 0]
  show ?thesis unfolding s by force
qed

end
