(* ===== verification/User_Calls.thy ===== *)
theory User_Calls
  imports Task_Control User_Tasks Watchdog
begin

text \<open>
  The system calls as the tasks see them: the wrappers of \<^verbatim>\<open>kernel/src/main.rs\<close> and their copies in
  \<^verbatim>\<open>telemetry/src/syscalls.rs\<close>. A wrapper loads the argument registers and executes \<^verbatim>\<open>ecall\<close>; the trap entry
  stores the caller's registers, the handler runs, and the trap exit (\<^verbatim>\<open>kernel/src/trap_entry.s\<close>) loads the
  registers from the frame the handler returned: the context in which the hart goes on. It is the caller's when the
  call did not switch tasks. A call of the message passing that meets its partner is followed to the caller's registers
  and to the bytes; \<open>Rendezvous\<close> shows that both parties' calls together implement the rendezvous of \<open>User_Tasks\<close>.
\<close>

section \<open>The wrappers\<close>

definition user_call :: "trap_env \<Rightarrow> usize \<Rightarrow> cpu_context \<Rightarrow> (kernel, cpu_context) km" where
  "user_call e start_cycle c =
     kbind (ecall e start_cycle c) (\<lambda>sp. kgets (\<lambda>s. load_context (regs c) (ram s) sp))"

definition yield_now :: "trap_env \<Rightarrow> usize \<Rightarrow> cpu_context \<Rightarrow> (kernel, cpu_context) km" where
  "yield_now e start_cycle c = user_call e start_cycle (c\<lparr>regs := (regs c)(17 := 1)\<rparr>)"

definition sleep_ticks :: "trap_env \<Rightarrow> usize \<Rightarrow> cpu_context \<Rightarrow> usize \<Rightarrow> (kernel, cpu_context) km" where
  "sleep_ticks e start_cycle c ticks = user_call e start_cycle (c\<lparr>regs := (regs c)(17 := 2, 10 := ticks)\<rparr>)"

definition lock_mutex_call :: "trap_env \<Rightarrow> usize \<Rightarrow> cpu_context \<Rightarrow> usize \<Rightarrow> (kernel, cpu_context) km" where
  "lock_mutex_call e start_cycle c idx = user_call e start_cycle (c\<lparr>regs := (regs c)(17 := 3, 10 := idx)\<rparr>)"

definition unlock_mutex_call :: "trap_env \<Rightarrow> usize \<Rightarrow> cpu_context \<Rightarrow> usize \<Rightarrow> (kernel, cpu_context) km" where
  "unlock_mutex_call e start_cycle c idx = user_call e start_cycle (c\<lparr>regs := (regs c)(17 := 4, 10 := idx)\<rparr>)"

definition watchdog_checkin :: "trap_env \<Rightarrow> usize \<Rightarrow> cpu_context \<Rightarrow> (kernel, cpu_context) km" where
  "watchdog_checkin e start_cycle c = user_call e start_cycle (c\<lparr>regs := (regs c)(17 := 5)\<rparr>)"

definition sys_send_call ::
    "trap_env \<Rightarrow> usize \<Rightarrow> cpu_context \<Rightarrow> usize \<Rightarrow> usize \<Rightarrow> usize \<Rightarrow> (kernel, cpu_context) km" where
  "sys_send_call e start_cycle c cap_idx msg_ptr msg_len = user_call e start_cycle
     (c\<lparr>regs := (regs c)(17 := 6, 10 := cap_idx, 11 := msg_ptr, 12 := msg_len)\<rparr>)"

definition sys_recv_call ::
    "trap_env \<Rightarrow> usize \<Rightarrow> cpu_context \<Rightarrow> usize \<Rightarrow> usize \<Rightarrow> usize \<Rightarrow> (kernel, cpu_context) km" where
  "sys_recv_call e start_cycle c cap_idx buf_ptr buf_len = user_call e start_cycle
     (c\<lparr>regs := (regs c)(17 := 7, 10 := cap_idx, 11 := buf_ptr, 12 := buf_len)\<rparr>)"

text \<open>\<^verbatim>\<open>kernel/src/main.rs\<close> has wrappers of its own, which its tasks call; \<open>kernel_wrappers\<close> below: the two crates agree.\<close>

definition kernel_yield_now ::
    "trap_env \<Rightarrow> usize \<Rightarrow> cpu_context \<Rightarrow> (kernel, cpu_context) km" where
  "kernel_yield_now e start_cycle c =
     user_call e start_cycle (c\<lparr>regs := (regs c)(17 := 1)\<rparr>)"

definition kernel_sleep_ticks ::
    "trap_env \<Rightarrow> usize \<Rightarrow> cpu_context \<Rightarrow> usize \<Rightarrow> (kernel, cpu_context) km" where
  "kernel_sleep_ticks e start_cycle c ticks =
     user_call e start_cycle (c\<lparr>regs := (regs c)(17 := 2, 10 := ticks)\<rparr>)"

definition kernel_lock_mutex ::
    "trap_env \<Rightarrow> usize \<Rightarrow> cpu_context \<Rightarrow> usize \<Rightarrow> (kernel, cpu_context) km" where
  "kernel_lock_mutex e start_cycle c idx =
     user_call e start_cycle (c\<lparr>regs := (regs c)(17 := 3, 10 := idx)\<rparr>)"

definition kernel_unlock_mutex ::
    "trap_env \<Rightarrow> usize \<Rightarrow> cpu_context \<Rightarrow> usize \<Rightarrow> (kernel, cpu_context) km" where
  "kernel_unlock_mutex e start_cycle c idx =
     user_call e start_cycle (c\<lparr>regs := (regs c)(17 := 4, 10 := idx)\<rparr>)"

definition kernel_watchdog_checkin ::
    "trap_env \<Rightarrow> usize \<Rightarrow> cpu_context \<Rightarrow> (kernel, cpu_context) km" where
  "kernel_watchdog_checkin e start_cycle c =
     user_call e start_cycle (c\<lparr>regs := (regs c)(17 := 5)\<rparr>)"

definition kernel_sys_send ::
    "trap_env \<Rightarrow> usize \<Rightarrow> cpu_context \<Rightarrow> usize \<Rightarrow> usize \<Rightarrow> usize \<Rightarrow> (kernel, cpu_context) km" where
  "kernel_sys_send e start_cycle c cap_idx msg_ptr msg_len =
     user_call e start_cycle (c\<lparr>regs := (regs c)(17 := 6, 10 := cap_idx, 11 := msg_ptr, 12 := msg_len)\<rparr>)"

definition kernel_sys_recv ::
    "trap_env \<Rightarrow> usize \<Rightarrow> cpu_context \<Rightarrow> usize \<Rightarrow> usize \<Rightarrow> usize \<Rightarrow> (kernel, cpu_context) km" where
  "kernel_sys_recv e start_cycle c cap_idx buf_ptr buf_len =
     user_call e start_cycle (c\<lparr>regs := (regs c)(17 := 7, 10 := cap_idx, 11 := buf_ptr, 12 := buf_len)\<rparr>)"

text \<open>The caller goes on behind the \<^verbatim>\<open>ecall\<close>, with the arguments still in place and \<open>v\<close> in \<^verbatim>\<open>a0\<close>.\<close>

definition returned :: "cpu_context \<Rightarrow> u32 \<Rightarrow> cpu_context" where
  "returned c v = c\<lparr>regs := (regs c)(10 := v), mepc := mepc c + 4\<rparr>"

lemma kernel_wrappers:
  "kernel_yield_now = yield_now" "kernel_sleep_ticks = sleep_ticks" "kernel_lock_mutex = lock_mutex_call"
  "kernel_unlock_mutex = unlock_mutex_call" "kernel_watchdog_checkin = watchdog_checkin"
  "kernel_sys_send = sys_send_call" "kernel_sys_recv = sys_recv_call"
  by (simp_all add: fun_eq_iff
      kernel_yield_now_def kernel_sleep_ticks_def kernel_lock_mutex_def kernel_unlock_mutex_def
      kernel_watchdog_checkin_def kernel_sys_send_def kernel_sys_recv_def
      yield_now_def sleep_ticks_def lock_mutex_call_def unlock_mutex_call_def
      watchdog_checkin_def sys_send_call_def sys_recv_call_def)

section \<open>From the kernel's view to the caller's\<close>

text \<open>The frame of a call: what the kernel reads from it, and what else is in memory.\<close>

lemma entry_frame:
  assumes "trap_entry_save c m = (m', sp)"
  shows "read_frame m' sp 6 = regs c 10" "read_frame m' sp 7 = regs c 11" "read_frame m' sp 8 = regs c 12"
    "read_frame m' sp 13 = regs c 17" "read_frame m' sp 28 = mepc c"
  by (simp_all add: trap_entry_save_read [OF assms] saved_regs_def)

lemma entry_bytes:
  assumes "trap_entry_save c m = (m', sp)" "separate a n sp 128"
  shows "bytes_at m' a (unat n) = bytes_at m a (unat n)"
  by (rule bytes_at_cong) (use assms trap_entry_outside in \<open>auto simp: separate_def\<close>)

text \<open>The two words that a call changes in the caller's frame.\<close>

lemma load_returned:
  assumes "trap_entry_save c m = (m', sp)"
  shows "load_context (regs c) (write_frame (write_frame m' sp 28 (mepc c + 4)) sp 6 v) sp = returned c v"
proof -
  have "saved_regs ! 6 = 10" by (simp add: saved_regs_def)
  then show ?thesis
    using load_context_write [of 6 10 "regs c"] trap_entry_restores [OF assms]
    by (simp add: load_context_pc returned_def)
qed

text \<open>A context depends only on its frame.\<close>

lemma load_context_cong:
  assumes "\<And>j. j < 30 \<Longrightarrow> read_frame m sp j = read_frame m' sp j"
  shows "load_context r m sp = load_context r m' sp"
proof (rule cpu_context.equality)
  show "regs (load_context r m sp) = regs (load_context r m' sp)"
  proof
    fix x
    show "regs (load_context r m sp) x = regs (load_context r m' sp) x"
    proof (cases "x \<in> set saved_regs")
      case True
      then obtain i where "i < 28" "x = saved_regs ! i" by (rule saved_regs_cases)
      then show ?thesis using assms by (simp add: load_context_reg)
    next
      case False
      then show ?thesis by (cases "x = 2") (simp_all add: load_context_other, simp add: load_context_def)
    qed
  qed
qed (use assms in \<open>simp_all add: load_context_def\<close>)

lemma user_call_run:
  assumes "trap_entry_save c (ram s) = (m, sp)" "trap_handler e 8 sp start (s\<lparr>ram := m\<rparr>) = (s', Ok sp')"
  shows "user_call e start c s = (s', Ok (load_context (regs c) (ram s') sp'))"
  using assms by (simp add: user_call_def ecall_def kdefs)

text \<open>A rendezvous leaves the caller's frame alone but for \<^verbatim>\<open>a0\<close>.\<close>

lemma transferred_frame:
  assumes "separate dst n sp 128" "separate sp 128 psp 128" "j < 32"
  shows "read_frame (ram (transferred h ph i ep src dst n (psp, pa0) (sp, a0) s)) sp j
     = read_frame (write_frame (ram s) sp 6 a0) sp j"
proof -
  have "read_frame (copy_bytes (ram s) src dst n) sp j = read_frame (ram s) sp j"
    if "j < 32" for j
    by (rule read_frame_cong) (use that assms(1) in \<open>auto simp: separate_def intro!: copy_bytes_outside\<close>)
  then show ?thesis
    using assms(2,3) by (simp add: transferred_ram read_write_frame write_frame_frame)
qed

lemma transferred_returns:
  assumes "trap_entry_save c m = (ram s, sp)" "separate dst n sp 128" "separate sp 128 psp 128"
  shows "load_context (regs c) (ram (transferred h ph i ep src dst n (psp, pa0) (sp, a0) (call_state e sp start s))) sp
     = returned c a0"
proof -
  have "ram (call_state e sp start s) = write_frame (ram s) sp 28 (mepc c + 4)"
    using entry_frame(5) [OF assms(1)] by (simp add: call_state_def)
  then have "load_context (regs c) (ram (transferred h ph i ep src dst n (psp, pa0) (sp, a0) (call_state e sp start s))) sp
     = load_context (regs c) (write_frame (write_frame (ram s) sp 28 (mepc c + 4)) sp 6 a0) sp"
    by (intro load_context_cong) (simp add: transferred_frame [OF assms(2,3)])
  then show ?thesis using load_returned [OF assms(1)] by simp
qed

text \<open>The receiver's whole buffer after a copy of its first \<open>n\<close> bytes.\<close>

lemma copy_bytes_prefix:
  assumes "n \<le> len"
  shows "bytes_at (copy_bytes m src dst n) dst (unat len) = bytes_at m src (unat n) @ drop (unat n) (bytes_at m dst (unat len))"
proof (rule nth_equalityI)
  have le: "unat n \<le> unat len" using assms by (simp add: word_le_nat_alt)
  then show "length (bytes_at (copy_bytes m src dst n) dst (unat len))
      = length (bytes_at m src (unat n) @ drop (unat n) (bytes_at m dst (unat len)))" by (simp add: bytes_at_def)
  fix k assume "k < length (bytes_at (copy_bytes m src dst n) dst (unat len))"
  then have k: "k < unat len" by (simp add: bytes_at_def)
  then have "unat (of_nat k :: usize) = k" using unat_u32_less [of len] by (simp add: unat_of_nat)
  then have "(of_nat k :: usize) < n \<longleftrightarrow> k < unat n" by (simp add: word_less_nat_alt)
  then show "bytes_at (copy_bytes m src dst n) dst (unat len) ! k
      = (bytes_at m src (unat n) @ drop (unat n) (bytes_at m dst (unat len))) ! k"
    using k by (simp add: bytes_at_def copy_bytes_def nth_append)
qed

lemma transferred_buffer:
  assumes "n \<le> len" "separate dst len sp 128" "separate dst len psp 128"
  shows "bytes_at (ram (transferred h ph i ep src dst n (psp, pa0) (sp, a0) s)) dst (unat len)
     = bytes_at (ram s) src (unat n) @ drop (unat n) (bytes_at (ram s) dst (unat len))"
  using assms by (simp add: transferred_ram write_frame_bytes copy_bytes_prefix)

lemma take_bytes_at: "k \<le> n \<Longrightarrow> take k (bytes_at m a n) = bytes_at m a k"
  by (simp add: bytes_at_def take_map)

lemma length_bytes_at [simp]: "length (bytes_at m a n) = n"
  by (simp add: bytes_at_def)

lemma separate_mono: "n \<le> len \<Longrightarrow> separate a len b l \<Longrightarrow> separate a n b l"
  by (auto simp: separate_def in_range_def)

lemma endpoint_Some: "endpoint pattern caps i = Some ep \<longleftrightarrow> i < 8 \<and> pattern (caps ! unat i) = Some ep"
  by (simp add: endpoint_def)

text \<open>What the rendezvous of the abstract conversation transfers, at the addresses of the two parties.\<close>

lemma meet_bytes:
  assumes "endpoint send_cap cs i = Some ep" "endpoint recv_cap cr j = Some ep" "n = min msg_len max_len"
  shows "meet cs cr (Sys_Send i (bytes_at m src (unat msg_len))) (Sys_Recv j (bytes_at m dst (unat max_len)))
     = Some (Reply 0 [], Reply n (bytes_at m src (unat n) @ drop (unat n) (bytes_at m dst (unat max_len))))"
proof -
  have "min (unat msg_len) (unat max_len) = unat n" by (simp add: assms(3) min_def word_le_nat_alt)
  moreover have "unat n \<le> unat msg_len" by (simp add: assms(3) min_def word_le_nat_alt)
  ultimately show ?thesis using assms(1,2) by (simp add: take_bytes_at Let_def)
qed

section \<open>A call that meets its partner\<close>

text \<open>The running task of the hart, about to call.\<close>

definition on_hart :: "trap_env \<Rightarrow> TaskControlBlock \<Rightarrow> kernel \<Rightarrow> bool" where
  "on_hart e tcb s \<longleftrightarrow> kinv (stacks e) s \<and> locks_ok (hart_id e) s \<and> hart_id e < 2
     \<and> tcb_at s (hart_id e) (current s (hart_id e)) = Some tcb \<and> task_state tcb = Running"

text \<open>The state in which the handler finds the caller of \<open>c\<close>.\<close>

definition entered :: "trap_env \<Rightarrow> usize \<Rightarrow> cpu_context \<Rightarrow> kernel \<Rightarrow> kernel" where
  "entered e start c s = call_state e (regs c 2 - 128) start (s\<lparr>ram := fst (trap_entry_save c (ram s))\<rparr>)"

lemma trap_entry_pair: "trap_entry_save c m = (fst (trap_entry_save c m), regs c 2 - 128)"
  using trap_entry_sp [of c m] by (cases "trap_entry_save c m") auto

lemma entered_in_call:
  assumes "on_hart e tcb s" "regs c 17 = n"
  shows "in_call n e (regs c 2 - 128) tcb (s\<lparr>ram := fst (trap_entry_save c (ram s))\<rparr>)"
  using assms entry_frame(4) [OF trap_entry_pair [of c "ram s"]] by (simp add: in_call_def on_hart_def)

lemma entered_fields [simp]:
  "tcb_at (entered e start c s) h i = tcb_at s h i" "kstate (entered e start c s) h i = kstate s h i"
  "current (entered e start c s) h = current s h" "partner wait ep (entered e start c s) = partner wait ep s"
  "schedulers (entered e start c s) = schedulers s"
  using partner_cong [of "s\<lparr>ram := fst (trap_entry_save c (ram s))\<rparr>" s] by (simp_all add: entered_def)

lemma entered_frame:
  assumes "sp = regs c 2 - 128"
  shows "read_frame (ram (entered e start c s)) sp 6 = regs c 10" "read_frame (ram (entered e start c s)) sp 7 = regs c 11"
    "read_frame (ram (entered e start c s)) sp 8 = regs c 12"
  using entry_frame [OF trap_entry_pair [of c "ram s"]] assms
  by (simp_all add: entered_def call_state_def read_write_frame)

lemma entered_outside:
  assumes "\<not> in_range x (regs c 2 - 128) 128"
  shows "ram (entered e start c s) x = ram s x"
  using assms trap_entry_outside [OF trap_entry_pair [of c "ram s"]]
  by (simp add: entered_def call_state_def write_frame_outside)

lemma entered_bytes:
  "separate a n (regs c 2 - 128) 128 \<Longrightarrow> bytes_at (ram (entered e start c s)) a (unat n) = bytes_at (ram s) a (unat n)"
  by (rule bytes_at_cong) (auto simp: separate_def entered_outside)

lemma entered_state:
  assumes "on_hart e tcb s" "regs c 17 = a7" "sp = regs c 2 - 128"
  shows "kinv (stacks e) (entered e start c s)" "locks_ok (hart_id e) (entered e start c s)"
    "tcb_at (entered e start c s) (hart_id e) (current (entered e start c s) (hart_id e)) = Some tcb"
    "a7 = 6 \<Longrightarrow> trap_handler e 8 sp start (s\<lparr>ram := fst (trap_entry_save c (ram s))\<rparr>) = sys_send e sp (entered e start c s)"
    "a7 = 7 \<Longrightarrow> trap_handler e 8 sp start (s\<lparr>ram := fst (trap_entry_save c (ram s))\<rparr>) = sys_recv e sp (entered e start c s)"
proof -
  note call = entered_in_call [OF assms(1,2), folded assms(3)]
  note S = in_call_state [OF call, of start, folded entered_def [of e start c s, folded assms(3)]]
  show "kinv (stacks e) (entered e start c s)" "locks_ok (hart_id e) (entered e start c s)"
    "tcb_at (entered e start c s) (hart_id e) (current (entered e start c s) (hart_id e)) = Some tcb"
    using S assms(1) by (simp_all add: on_hart_def)
  show "trap_handler e 8 sp start (s\<lparr>ram := fst (trap_entry_save c (ram s))\<rparr>) = sys_send e sp (entered e start c s)"
    if "a7 = 6" using in_callD(2) [OF call] that by (simp add: trap_syscall entered_def assms(3))
  show "trap_handler e 8 sp start (s\<lparr>ram := fst (trap_entry_save c (ram s))\<rparr>) = sys_recv e sp (entered e start c s)"
    if "a7 = 7" using in_callD(2) [OF call] that by (simp add: trap_syscall entered_def assms(3))
qed

text \<open>Handler 6 or 7 found its partner and returned to the caller's frame.\<close>

lemma meeting_call_run:
  assumes "on_hart e tcb s" "sp = regs c 2 - 128" "separate dst n sp 128" "separate sp 128 psp 128"
    and "trap_handler e 8 sp start (s\<lparr>ram := fst (trap_entry_save c (ram s))\<rparr>)
      = (transferred h ph i ep src dst n (psp, pa0) (sp, a0) (entered e start c s), Ok sp)"
  shows "user_call e start c s
     = (transferred h ph i ep src dst n (psp, pa0) (sp, a0) (entered e start c s), Ok (returned c a0))"
  using user_call_run [OF trap_entry_pair [of c "ram s"], of e start] assms
    transferred_returns [of c "ram s" "s\<lparr>ram := fst (trap_entry_save c (ram s))\<rparr>" sp dst n psp h ph i ep src pa0 a0 e start]
    trap_entry_pair [of c "ram s"]
  by (simp add: entered_def)

lemma send_call_run:
  assumes o: "on_hart e tcb s" and g: "endpoint send_cap (capabilities tcb) cap_idx = Some ep"
    and p: "partner recv_wait ep s = Some (ph, i)" "tcb_at s ph i = Some rt" "task_state rt = BlockedOnIpcRecv ep rx_addr max_len"
    and c: "c' = c\<lparr>regs := (regs c)(17 := 6, 10 := cap_idx, 11 := msg_ptr, 12 := msg_len)\<rparr>"
    and n: "n = min msg_len max_len" "sp = regs c 2 - 128"
    and sep: "separate rx_addr n sp 128" "separate sp 128 (saved_sp rt) 128"
  shows "sys_send_call e start c cap_idx msg_ptr msg_len s
     = (transferred (hart_id e) ph i ep msg_ptr rx_addr n (saved_sp rt, n) (sp, 0) (entered e start c' s), Ok (returned c' 0))"
proof -
  have sp: "sp = regs c' 2 - 128" and id: "regs c' 17 = 6" by (simp_all add: c n(2))
  note S = entered_state [OF o id sp, of start] and F = entered_frame [OF sp, of e start s]
  have "granted send_cap tcb sp (entered e start c' s) = Some ep" using g F by (simp add: granted_def endpoint_Some c)
  from send_run [OF S(1,2) _ S(3) this, of ph i rt rx_addr max_len]
  have "trap_handler e 8 sp start (s\<lparr>ram := fst (trap_entry_save c' (ram s))\<rparr>)
      = (transferred (hart_id e) ph i ep msg_ptr rx_addr n (saved_sp rt, n) (sp, 0) (entered e start c' s), Ok sp)"
    using S(4) F o p n(1) by (simp add: c on_hart_def Let_def)
  from meeting_call_run [OF o sp sep this] show ?thesis by (simp add: sys_send_call_def c)
qed

lemma recv_call_run:
  assumes o: "on_hart e tcb s" and g: "endpoint recv_cap (capabilities tcb) cap_idx = Some ep"
    and p: "partner send_wait ep s = Some (ph, i)" "tcb_at s ph i = Some st" "task_state st = BlockedOnIpcSend ep msg msg_len"
    and c: "c' = c\<lparr>regs := (regs c)(17 := 7, 10 := cap_idx, 11 := buf_ptr, 12 := buf_len)\<rparr>"
    and n: "n = min msg_len buf_len" "sp = regs c 2 - 128"
    and sep: "separate buf_ptr n sp 128" "separate sp 128 (saved_sp st) 128"
  shows "sys_recv_call e start c cap_idx buf_ptr buf_len s
     = (transferred (hart_id e) ph i ep msg buf_ptr n (saved_sp st, 0) (sp, n) (entered e start c' s), Ok (returned c' n))"
proof -
  have sp: "sp = regs c' 2 - 128" and id: "regs c' 17 = 7" by (simp_all add: c n(2))
  note S = entered_state [OF o id sp, of start] and F = entered_frame [OF sp, of e start s]
  have "granted recv_cap tcb sp (entered e start c' s) = Some ep" using g F by (simp add: granted_def endpoint_Some c)
  from recv_run [OF S(1,2) _ S(3) this, of ph i st msg msg_len]
  have "trap_handler e 8 sp start (s\<lparr>ram := fst (trap_entry_save c' (ram s))\<rparr>)
      = (transferred (hart_id e) ph i ep msg buf_ptr n (saved_sp st, 0) (sp, n) (entered e start c' s), Ok sp)"
    using S(5) F o p n(1) by (simp add: c on_hart_def Let_def)
  from meeting_call_run [OF o sp sep this] show ?thesis by (simp add: sys_recv_call_def c)
qed

end
