(* ===== verification/Rendezvous.thy ===== *)
theory Rendezvous
  imports User_Calls
begin

text \<open>
  The two halves of a message transfer put together. A receiver that finds no sender, or a sender that finds no
  receiver, is suspended in its call; any number of traps later the other party calls. Then the suspended task goes on
  as if its own call had just returned, although its registers were restored from a frame that the other
  party's trap wrote to.
\<close>

section \<open>Suspended calls\<close>

text \<open>The task in slot \<open>i\<close> of hart \<open>h\<close> waits in a call it made in context \<open>c\<close>: its frame holds this context, behind the
  \<^verbatim>\<open>ecall\<close>.\<close>

definition suspended :: "cpu_context \<Rightarrow> TaskState \<Rightarrow> nat \<Rightarrow> nat \<Rightarrow> kernel \<Rightarrow> bool" where
  "suspended c st h i s \<longleftrightarrow> (\<exists>tcb. tcb_at s h i = Some tcb \<and> task_state tcb = st \<and> saved_sp tcb = regs c 2 - 128
     \<and> comes_back (ram s) (saved_sp tcb) (c\<lparr>mepc := mepc c + 4\<rparr>))"

text \<open>It is ready, and will go on with \<open>v\<close> as the result of the call.\<close>

definition resumes :: "cpu_context \<Rightarrow> u32 \<Rightarrow> nat \<Rightarrow> nat \<Rightarrow> kernel \<Rightarrow> bool" where
  "resumes c v h i s \<longleftrightarrow> (\<exists>tcb. tcb_at s h i = Some tcb \<and> task_state tcb = Ready
     \<and> comes_back (ram s) (saved_sp tcb) (returned c v))"

text \<open>While a task waits, the kernel may do anything but change its control block and its frame.\<close>

definition undisturbed :: "cpu_context \<Rightarrow> nat \<Rightarrow> nat \<Rightarrow> kernel \<Rightarrow> kernel \<Rightarrow> bool" where
  "undisturbed c h i s s' \<longleftrightarrow> tcb_at s' h i = tcb_at s h i
     \<and> (\<forall>x. in_range x (regs c 2 - 128) 128 \<longrightarrow> ram s' x = ram s x)"

section \<open>Lemmas\<close>

lemma load_context_mem_cong:
  assumes "\<And>x. in_range x sp 128 \<Longrightarrow> m x = m' x"
  shows "load_context r m sp = load_context r m' sp"
  by (rule load_context_cong, rule read_frame_cong) (use assms in auto)

lemma suspended_stable: "suspended c st h i s \<Longrightarrow> undisturbed c h i s s' \<Longrightarrow> suspended c st h i s'"
  using load_context_mem_cong [of "regs c 2 - 128" "ram s'" "ram s"]
  by (auto simp: suspended_def undisturbed_def comes_back_def)

lemma undisturbed_entered:
  "separate (regs c 2 - 128) 128 (regs c' 2 - 128) 128 \<Longrightarrow> undisturbed c h i s (entered e start c' s)"
  by (auto simp: undisturbed_def separate_def entered_outside)

lemma switch_frame_blocked:
  assumes f: "switch_frame h (upd_tcb h i (set_state st) s) s'" and st: "st \<noteq> Ready" "st \<noteq> Running"
    and t: "tcb_at s h i = Some tcb" "h < length (schedulers s)"
  obtains sp where "tcb_at s' h i = Some (tcb\<lparr>saved_sp := sp, task_state := st\<rparr>)"
proof -
  have "case tcb_at (upd_tcb h i (set_state st) s) h i of None \<Rightarrow> tcb_at s' h i = None
      | Some t \<Rightarrow> \<exists>t'. tcb_at s' h i = Some t' \<and> rescheduled t t'"
    using f by (simp add: switch_frame_def)
  then obtain t' where "tcb_at s' h i = Some t'" "rescheduled (set_state st tcb) t'" using t by (auto simp: tcb_at_upd_tcb)
  then show thesis using that st by (auto simp: rescheduled_def set_state_def)
qed

text \<open>A call that finds no partner suspends its caller; the other hart sees nothing of it.\<close>

lemma blocked_suspends:
  assumes o: "on_hart e tcb s" and k: "k \<noteq> current s (hart_id e)" "kstate s (hart_id e) k = Some Ready"
    and c: "regs c 17 = 6 \<and> endpoint send_cap (capabilities tcb) (regs c 10) = Some ep \<and> partner recv_wait ep s = None
        \<and> st = BlockedOnIpcSend ep (regs c 11) (regs c 12)
      \<or> regs c 17 = 7 \<and> endpoint recv_cap (capabilities tcb) (regs c 10) = Some ep \<and> partner send_wait ep s = None
        \<and> st = BlockedOnIpcRecv ep (regs c 11) (regs c 12)"
    and i: "i = current s (hart_id e)"
  obtains s' c' where "user_call e start c s = (s', Ok c')" "suspended c st (hart_id e) i s'"
    "tcb_at s' (hart_id e) i = Some (tcb\<lparr>saved_sp := regs c 2 - 128, task_state := st\<rparr>)"
    "kinv (stacks e) s'" "switch_frame (hart_id e) (upd_tcb (hart_id e) i (set_state st) (entered e start c s)) s'"
proof -
  let ?sp = "regs c 2 - 128" and ?h = "hart_id e"
  let ?s = "s\<lparr>ram := fst (trap_entry_save c (ram s))\<rparr>"
  have m: "trap_entry_save c (ram s) = (ram ?s, ?sp)" using trap_entry_pair by simp
  note F = entry_frame [OF m] and call = entered_in_call [OF o refl, of c]
  have "granted pat tcb ?sp ?s = endpoint pat (capabilities tcb) (regs c 10)" for pat
    using F by (simp add: granted_def endpoint_def)
  moreover have "partner wait ep ?s = partner wait ep s" for wait by (rule partner_cong) simp
  ultimately obtain s' sp' where r: "trap_handler e 8 ?sp start ?s = (s', Ok sp')" "kinv (stacks e) s'"
    "switch_frame ?h (upd_tcb ?h i (set_state st) (entered e start c s)) s'" "gave_way ?h ?sp ?s sp' s'"
    using ipc_blocks_without_partner [OF call, of ep st start] c F by (auto simp: entered_def i)
  have "st \<noteq> Ready" "st \<noteq> Running" "?h < length (schedulers s)"
    using c o kinvD(1) [of "stacks e" s ?h] by (auto simp: on_hart_def)
  then obtain sp where t: "tcb_at s' ?h i = Some (tcb\<lparr>saved_sp := sp, task_state := st\<rparr>)"
    using switch_frame_blocked [OF r(3), of tcb] o by (auto simp: on_hart_def i)
  moreover from r(4) k have "map_option saved_sp (tcb_at s' ?h i) = Some ?sp" by (auto simp: gave_way_def i)
  ultimately have sp: "sp = ?sp" by simp
  have "ram s' = write_frame (ram ?s) ?sp 28 (mepc c + 4)"
    using switch_frame_fields(6) [OF r(3)] F by (simp add: entered_def call_state_def)
  then have "load_context (regs c) (ram s') ?sp = c\<lparr>mepc := mepc c + 4\<rparr>"
    using trap_entry_restores [OF m] by (simp add: load_context_pc)
  with t sp have "suspended c st ?h i s'" by (simp add: suspended_def comes_backI)
  with user_call_run [OF trap_entry_pair r(1)] t sp r(2,3) show thesis by (intro that) simp_all
qed

text \<open>The partner's transfer completes the suspended call.\<close>

lemma transfer_resumes:
  assumes "suspended c st ph i s" "ph < length (schedulers s)" "psp = regs c 2 - 128"
    and "separate dst n psp 128" "separate psp 128 sp 128"
  shows "resumes c v ph i (transferred h ph i ep src dst n (psp, v) (sp, a0) s)"
proof -
  obtain tcb where t: "tcb_at s ph i = Some tcb" "saved_sp tcb = psp" "load_context (regs c) (ram s) psp = c\<lparr>mepc := mepc c + 4\<rparr>"
    using assms(1,3) comes_backD [of _ _ "c\<lparr>mepc := mepc c + 4\<rparr>"] by (auto simp: suspended_def)
  let ?s' = "transferred h ph i ep src dst n (psp, v) (sp, a0) s"
  have "read_frame (ram ?s') psp j = read_frame (write_frame (ram s) psp 6 v) psp j" if "j < 32" for j
  proof -
    have "read_frame (copy_bytes (ram s) src dst n) psp j = read_frame (ram s) psp j"
      by (rule read_frame_cong) (use that assms(4) in \<open>auto simp: separate_def intro!: copy_bytes_outside\<close>)
    then show ?thesis using assms(5) that by (simp add: transferred_ram read_write_frame write_frame_frame)
  qed
  then have "load_context (regs c) (ram ?s') psp = load_context (regs c) (write_frame (ram s) psp 6 v) psp"
    by (intro load_context_cong) simp
  also have "\<dots> = returned c v"
    using load_context_write [of 6 10 "regs c" "ram s" psp v] t(3) by (simp add: returned_def saved_regs_def)
  finally have "load_context (regs c) (ram ?s') psp = returned c v" .
  moreover have "tcb_at ?s' ph i = Some (set_state Ready tcb)"
    using t(1) assms(2) by (cases "ph = h") (simp_all add: transferred_def Let_def tcb_at_upd_tcb)
  ultimately show ?thesis using t(2) by (simp add: resumes_def set_state_def comes_backI)
qed

text \<open>Both together: what the second party's call leaves to the first.\<close>

lemma meeting_completes:
  assumes "suspended c st ph i s" "ph < length (schedulers s)" "n \<le> len" "n \<le> msg_len"
    and "separate src msg_len (regs c' 2 - 128) 128" "separate dst len (regs c' 2 - 128) 128"
    and "separate dst len (regs c 2 - 128) 128" "separate (regs c' 2 - 128) 128 (regs c 2 - 128) 128"
    and s': "s' = transferred h ph i ep src dst n (regs c 2 - 128, v) (regs c' 2 - 128, a0) (entered e start c' s)"
  shows "resumes c v ph i s'"
    "bytes_at (ram s') dst (unat len) = bytes_at (ram s) src (unat n) @ drop (unat n) (bytes_at (ram s) dst (unat len))"
proof -
  let ?k = "entered e start c' s"
  have "suspended c st ph i ?k"
    by (rule suspended_stable [OF assms(1) undisturbed_entered]) (use assms(8) separate_sym in blast)
  then show "resumes c v ph i s'"
    unfolding s' by (rule transfer_resumes) (use assms separate_mono [OF assms(3,7)] separate_sym in auto)
  show "bytes_at (ram s') dst (unat len) = bytes_at (ram s) src (unat n) @ drop (unat n) (bytes_at (ram s) dst (unat len))"
    unfolding s' transferred_buffer [OF assms(3,6,7)]
    using entered_bytes [OF separate_mono [OF assms(4,5)]] entered_bytes [OF assms(6)] by simp
qed

lemma on_hart_harts: "on_hart e tcb s \<Longrightarrow> length (schedulers s) = 2"
  using kinvD(1) [of "stacks e" s "hart_id e"] by (simp add: on_hart_def)

text \<open>After the first party blocked, the other hart's task goes on as it was.\<close>

lemma other_hart_goes_on:
  assumes o: "on_hart e2 tcb2 s" "hart_id e2 \<noteq> hart_id e" "stacks e2 = stacks e"
    and f: "kinv (stacks e) s'" "switch_frame (hart_id e) (upd_tcb (hart_id e) i (set_state st) (entered e start c s)) s'"
  shows "on_hart e2 tcb2 s'"
proof -
  let ?t = "upd_tcb (hart_id e) i (set_state st) (entered e start c s)"
  have "schedulers s' ! hart_id e2 = schedulers s ! hart_id e2"
    using f(2) o(2) by (simp add: switch_frame_def upd_tcb_def upd_sched_def)
  moreover have "sched_lock s' = sched_lock s" "mutex_lock s' = mutex_lock s"
    using switch_frame_fields(2,3) [OF f(2)] by (simp_all add: entered_def call_state_def)
  ultimately show ?thesis using o f(1) by (simp add: on_hart_def tcb_at_def locks_ok_def)
qed

section \<open>Properties\<close>

text \<open>C10: a receive that comes first. The receiver finds no sender and is suspended; as long as its control block and
  frame stay as they are, a sender that later names it in a call of its own returns with the sender's reply of the
  abstract rendezvous, and the receiver is ready to go on behind its \<^verbatim>\<open>ecall\<close>, with the receiver's reply in \<^verbatim>\<open>a0\<close>,
  every other register but \<^verbatim>\<open>gp\<close> and \<^verbatim>\<open>tp\<close>, which no frame holds, as it was at its call, and its buffer as the rendezvous says.\<close>

theorem blocked_receive_completes:
  assumes "on_hart e tcb s" "k \<noteq> current s h" "kstate s h k = Some Ready" "h = hart_id e" "i = current s h"
    and "endpoint recv_cap (capabilities tcb) rx_cap = Some ep" "partner send_wait ep s = None"
    and "rx = c\<lparr>regs := (regs c)(17 := 7, 10 := rx_cap, 11 := dst, 12 := len)\<rparr>"
    and "sys_recv_call e start c rx_cap dst len s = (s1, Ok c1)" "undisturbed rx h i s1 s2"
    and "on_hart e2 tcb2 s2" "endpoint send_cap (capabilities tcb2) tx_cap = Some ep" "partner recv_wait ep s2 = Some (h, i)"
    and "tx = c2\<lparr>regs := (regs c2)(17 := 6, 10 := tx_cap, 11 := src, 12 := msg_len)\<rparr>"
    and "separate src msg_len (regs c2 2 - 128) 128" "separate dst len (regs c2 2 - 128) 128"
    and "separate dst len (regs c 2 - 128) 128" "separate (regs c2 2 - 128) 128 (regs c 2 - 128) 128"
  shows "\<exists>s3 x y. meet (capabilities tcb2) (capabilities tcb) (Sys_Send tx_cap (bytes_at (ram s2) src (unat msg_len)))
         (Sys_Recv rx_cap (bytes_at (ram s2) dst (unat len))) = Some (x, y)
     \<and> sys_send_call e2 start2 c2 tx_cap src msg_len s2 = (s3, Ok (returned tx (ret x)))
     \<and> resumes rx (ret y) h i s3 \<and> bytes_at (ram s3) dst (unat len) = buf y"
proof -
  define n where "n = min msg_len len"
  have n: "n \<le> len" "n \<le> msg_len" by (simp_all add: n_def)
  obtain t where sus: "suspended rx (BlockedOnIpcRecv ep dst len) h i s2"
    and t: "tcb_at s2 h i = Some t" "task_state t = BlockedOnIpcRecv ep dst len" "saved_sp t = regs c 2 - 128"
  proof (rule blocked_suspends [OF assms(1), of k rx ep "BlockedOnIpcRecv ep dst len" i start])
    fix s' c' assume "user_call e start rx s = (s', Ok c')" "suspended rx (BlockedOnIpcRecv ep dst len) (hart_id e) i s'"
    then have "suspended rx (BlockedOnIpcRecv ep dst len) h i s2"
      using assms(4,8-10) suspended_stable by (simp add: sys_recv_call_def)
    then show thesis using that assms(8) by (auto simp: suspended_def)
  qed (use assms(2-8) in simp_all)
  note run = send_call_run [OF assms(11,12,13) t(1,2) assms(14) n_def refl, of start2]
  define s3 where "s3 = transferred (hart_id e2) h i ep src dst n (regs c 2 - 128, n) (regs c2 2 - 128, 0) (entered e2 start2 tx s2)"
  have "sys_send_call e2 start2 c2 tx_cap src msg_len s2 = (s3, Ok (returned tx 0))"
    using run separate_mono [OF n(1) assms(16)] assms(18) by (simp add: t(3) s3_def)
  moreover have "resumes rx n h i s3" "bytes_at (ram s3) dst (unat len)
      = bytes_at (ram s2) src (unat n) @ drop (unat n) (bytes_at (ram s2) dst (unat len))"
    using meeting_completes [OF sus _ n, of src tx dst s3 "hart_id e2" ep n 0 e2 start2] assms(4,8,14-18)
      on_hart_harts [OF assms(11)] assms(1) by (simp_all add: s3_def on_hart_def)
  ultimately show ?thesis unfolding meet_bytes [OF assms(12,6) n_def] by auto
qed

theorem blocked_receive_completes_witness:
  "\<exists>s1 c1 s3. sys_recv_call (demo_env 1) 0 \<lparr>regs = (\<lambda>_. 0)(2 := 0x3FC94700), mepc = 0x42000310, mstatus = 0x80\<rparr>
         0 0x3FC84000 8 (demo_at 1 2 free_mutex (write_frame (\<lambda>_. 0) 0x3FC85000 0 0x44332211)) = (s1, Ok c1)
     \<and> sys_send_call (demo_env 0) 0 \<lparr>regs = (\<lambda>_. 0)(2 := 0x3FC90700), mepc = 0x42000210, mstatus = 0x80\<rparr>
         1 0x3FC85000 4 s1
       = (s3, Ok \<lparr>regs = (\<lambda>_. 0)(2 := 0x3FC90700, 17 := 6, 11 := 0x3FC85000, 12 := 4, 10 := 0),
           mepc = 0x42000214, mstatus = 0x80\<rparr>)
     \<and> resumes \<lparr>regs = (\<lambda>_. 0)(2 := 0x3FC94700, 17 := 7, 11 := 0x3FC84000, 12 := 8, 10 := 0), mepc = 0x42000310, mstatus = 0x80\<rparr>
         4 1 2 s3
     \<and> bytes_at (ram s3) 0x3FC84000 8 = [0x11, 0x22, 0x33, 0x44, 0, 0, 0, 0]"
proof -
  let ?m = "write_frame (\<lambda>_. 0) 0x3FC85000 0 0x44332211"
  let ?cb = "\<lparr>regs = (\<lambda>_. 0)(2 := 0x3FC94700), mepc = 0x42000310, mstatus = 0x80\<rparr>"
  let ?ca = "\<lparr>regs = (\<lambda>_. 0)(2 := 0x3FC90700), mepc = 0x42000210, mstatus = 0x80\<rparr>"
  let ?rx = "?cb\<lparr>regs := (regs ?cb)(17 := 7, 10 := 0, 11 := 0x3FC84000, 12 := 8)\<rparr>"
  let ?st = "BlockedOnIpcRecv 0 0x3FC84000 8"
  let ?s = "demo_at 1 2 free_mutex ?m"
  let ?a = "set_state Running (new_tcb (frame_top (TASK_A_STACK demo_layout)) 1 ''Task A'' task_a_caps)"
  let ?b = "set_state Running (new_tcb (frame_top (TASK_B_STACK demo_layout)) 2 ''Task B'' task_b_caps)"
  have k: "kinv demo_layout ?s" by (simp add: demo_kinv)
  then have o: "on_hart (demo_env 1) ?b ?s" "on_hart (demo_env 0) ?a ?s" by (simp_all add: on_hart_def demo_tcb_at)
  have g: "endpoint recv_cap (capabilities ?b) 0 = Some 0" "endpoint send_cap (capabilities ?a) 1 = Some 0"
    by (simp_all add: endpoint_def task_a_caps_def task_b_caps_def)
  have p: "partner send_wait 0 ?s = None"
    using demo_tcb_runnable [of _ 1 2 free_mutex ?m]
    by (force simp: partner_def find_None_iff waits_for_def split: option.splits)
  have r: "31 \<noteq> current ?s 1" "kstate ?s 1 31 = Some Ready" by (simp_all add: kstate_def demo_tcb_at)
  obtain s1 c1 where first: "user_call (demo_env 1) 0 ?rx ?s = (s1, Ok c1)"
    and f: "kinv demo_layout s1" "switch_frame 1 (upd_tcb 1 2 (set_state ?st) (entered (demo_env 1) 0 ?rx ?s)) s1"
    by (rule blocked_suspends [OF o(1), of 31 ?rx 0 ?st 2 0]) (use r g p in simp_all)
  then have call: "sys_recv_call (demo_env 1) 0 ?cb 0 0x3FC84000 8 ?s = (s1, Ok c1)" by (simp add: sys_recv_call_def)
  have o2: "on_hart (demo_env 0) ?a s1" using other_hart_goes_on [OF o(2), where e = "demo_env 1", unfolded demo_env_simps, OF _ refl f] by simp
  have p2: "partner recv_wait 0 s1 = Some (1, 2)"
    by (rule blocked_is_partner [OF f(2), of ?b])
      (use demo_tcb_runnable [of _ 1 2 free_mutex ?m] in \<open>simp_all add: demo_tcb_at\<close>)
  have sep: "separate (0x3FC85000 :: usize) 4 (regs ?ca 2 - 128) 128" "separate (0x3FC84000 :: usize) 8 (regs ?ca 2 - 128) 128"
    "separate (0x3FC84000 :: usize) 8 (regs ?cb 2 - 128) 128" "separate (regs ?ca 2 - 128) 128 (regs ?cb 2 - 128) 128"
    by (simp_all add: separateI)
  have "ram s1 = ram (entered (demo_env 1) 0 ?rx ?s)" using switch_frame_fields(6) [OF f(2)] by simp
  then have bytes: "bytes_at (ram s1) 0x3FC85000 4 = [0x11, 0x22, 0x33, 0x44]" "bytes_at (ram s1) 0x3FC84000 8 = replicate 8 0"
    using entered_bytes [of "0x3FC85000" 4 ?rx "demo_env 1" 0 ?s] entered_bytes [of "0x3FC84000" 8 ?rx "demo_env 1" 0 ?s]
    by (simp_all add: separateI bytes_at_def write_frame_def write_word_def word_addr_def upt_rec replicate_num)
  have "undisturbed ?rx 1 2 s1 s1" by (simp add: undisturbed_def)
  from blocked_receive_completes [OF o(1) r _ _ g(1) p refl call this o2 g(2) p2 refl sep, where ?start2.0 = 0]
  show ?thesis using call bytes g by (auto simp: returned_def fun_upd_twist replicate_num)
qed

text \<open>C11: a send that comes first: the sender is suspended with its message, the later receive takes the message from
  the sender's memory, and the sender goes on behind its \<^verbatim>\<open>ecall\<close> with its reply.\<close>

theorem blocked_send_completes:
  assumes "on_hart e tcb s" "k \<noteq> current s h" "kstate s h k = Some Ready" "h = hart_id e" "i = current s h"
    and "endpoint send_cap (capabilities tcb) tx_cap = Some ep" "partner recv_wait ep s = None"
    and "tx = c\<lparr>regs := (regs c)(17 := 6, 10 := tx_cap, 11 := src, 12 := msg_len)\<rparr>"
    and "sys_send_call e start c tx_cap src msg_len s = (s1, Ok c1)" "undisturbed tx h i s1 s2"
    and "on_hart e2 tcb2 s2" "endpoint recv_cap (capabilities tcb2) rx_cap = Some ep" "partner send_wait ep s2 = Some (h, i)"
    and "rx = c2\<lparr>regs := (regs c2)(17 := 7, 10 := rx_cap, 11 := dst, 12 := len)\<rparr>"
    and "separate src msg_len (regs c2 2 - 128) 128" "separate dst len (regs c2 2 - 128) 128"
    and "separate dst len (regs c 2 - 128) 128" "separate (regs c2 2 - 128) 128 (regs c 2 - 128) 128"
  shows "\<exists>s3 x y. meet (capabilities tcb) (capabilities tcb2) (Sys_Send tx_cap (bytes_at (ram s2) src (unat msg_len)))
         (Sys_Recv rx_cap (bytes_at (ram s2) dst (unat len))) = Some (x, y)
     \<and> sys_recv_call e2 start2 c2 rx_cap dst len s2 = (s3, Ok (returned rx (ret y)))
     \<and> resumes tx (ret x) h i s3 \<and> bytes_at (ram s3) dst (unat len) = buf y"
proof -
  define n where "n = min msg_len len"
  have n: "n \<le> len" "n \<le> msg_len" by (simp_all add: n_def)
  obtain t where sus: "suspended tx (BlockedOnIpcSend ep src msg_len) h i s2"
    and t: "tcb_at s2 h i = Some t" "task_state t = BlockedOnIpcSend ep src msg_len" "saved_sp t = regs c 2 - 128"
  proof (rule blocked_suspends [OF assms(1), of k tx ep "BlockedOnIpcSend ep src msg_len" i start])
    fix s' c' assume "user_call e start tx s = (s', Ok c')" "suspended tx (BlockedOnIpcSend ep src msg_len) (hart_id e) i s'"
    then have "suspended tx (BlockedOnIpcSend ep src msg_len) h i s2"
      using assms(4,8-10) suspended_stable by (simp add: sys_send_call_def)
    then show thesis using that assms(8) by (auto simp: suspended_def)
  qed (use assms(2-8) in simp_all)
  note run = recv_call_run [OF assms(11,12,13) t(1,2) assms(14) n_def refl, of start2]
  define s3 where "s3 = transferred (hart_id e2) h i ep src dst n (regs c 2 - 128, 0) (regs c2 2 - 128, n) (entered e2 start2 rx s2)"
  have "sys_recv_call e2 start2 c2 rx_cap dst len s2 = (s3, Ok (returned rx n))"
    using run separate_mono [OF n(1) assms(16)] assms(18) by (simp add: t(3) s3_def)
  moreover have "resumes tx 0 h i s3" "bytes_at (ram s3) dst (unat len)
      = bytes_at (ram s2) src (unat n) @ drop (unat n) (bytes_at (ram s2) dst (unat len))"
    using meeting_completes [OF sus _ n, of src rx dst s3 "hart_id e2" ep 0 n e2 start2] assms(4,8,14-18)
      on_hart_harts [OF assms(11)] assms(1) by (simp_all add: s3_def on_hart_def)
  ultimately show ?thesis unfolding meet_bytes [OF assms(6,12) n_def] by auto
qed

theorem blocked_send_completes_witness:
  "\<exists>s1 c1 s3. sys_send_call (demo_env 0) 0 \<lparr>regs = (\<lambda>_. 0)(2 := 0x3FC90700), mepc = 0x42000210, mstatus = 0x80\<rparr>
         1 0x3FC85000 4 (demo_at 1 2 free_mutex (write_frame (\<lambda>_. 0) 0x3FC85000 0 0x44332211)) = (s1, Ok c1)
     \<and> sys_recv_call (demo_env 1) 0 \<lparr>regs = (\<lambda>_. 0)(2 := 0x3FC94700), mepc = 0x42000310, mstatus = 0x80\<rparr>
         0 0x3FC84000 8 s1
       = (s3, Ok \<lparr>regs = (\<lambda>_. 0)(2 := 0x3FC94700, 17 := 7, 11 := 0x3FC84000, 12 := 8, 10 := 4),
           mepc = 0x42000314, mstatus = 0x80\<rparr>)
     \<and> resumes \<lparr>regs = (\<lambda>_. 0)(2 := 0x3FC90700, 17 := 6, 11 := 0x3FC85000, 12 := 4, 10 := 1), mepc = 0x42000210, mstatus = 0x80\<rparr>
         0 0 1 s3
     \<and> bytes_at (ram s3) 0x3FC84000 8 = [0x11, 0x22, 0x33, 0x44, 0, 0, 0, 0]"
proof -
  let ?m = "write_frame (\<lambda>_. 0) 0x3FC85000 0 0x44332211"
  let ?cb = "\<lparr>regs = (\<lambda>_. 0)(2 := 0x3FC94700), mepc = 0x42000310, mstatus = 0x80\<rparr>"
  let ?ca = "\<lparr>regs = (\<lambda>_. 0)(2 := 0x3FC90700), mepc = 0x42000210, mstatus = 0x80\<rparr>"
  let ?tx = "?ca\<lparr>regs := (regs ?ca)(17 := 6, 10 := 1, 11 := 0x3FC85000, 12 := 4)\<rparr>"
  let ?st = "BlockedOnIpcSend 0 0x3FC85000 4"
  let ?s = "demo_at 1 2 free_mutex ?m"
  let ?a = "set_state Running (new_tcb (frame_top (TASK_A_STACK demo_layout)) 1 ''Task A'' task_a_caps)"
  let ?b = "set_state Running (new_tcb (frame_top (TASK_B_STACK demo_layout)) 2 ''Task B'' task_b_caps)"
  have k: "kinv demo_layout ?s" by (simp add: demo_kinv)
  then have o: "on_hart (demo_env 0) ?a ?s" "on_hart (demo_env 1) ?b ?s" by (simp_all add: on_hart_def demo_tcb_at)
  have g: "endpoint send_cap (capabilities ?a) 1 = Some 0" "endpoint recv_cap (capabilities ?b) 0 = Some 0"
    by (simp_all add: endpoint_def task_a_caps_def task_b_caps_def)
  have p: "partner recv_wait 0 ?s = None"
    using demo_tcb_runnable [of _ 1 2 free_mutex ?m]
    by (force simp: partner_def find_None_iff waits_for_def split: option.splits)
  have r: "31 \<noteq> current ?s 0" "kstate ?s 0 31 = Some Ready" by (simp_all add: kstate_def demo_tcb_at)
  obtain s1 c1 where first: "user_call (demo_env 0) 0 ?tx ?s = (s1, Ok c1)"
    and f: "kinv demo_layout s1" "switch_frame 0 (upd_tcb 0 1 (set_state ?st) (entered (demo_env 0) 0 ?tx ?s)) s1"
    by (rule blocked_suspends [OF o(1), of 31 ?tx 0 ?st 1 0]) (use r g p in simp_all)
  then have call: "sys_send_call (demo_env 0) 0 ?ca 1 0x3FC85000 4 ?s = (s1, Ok c1)" by (simp add: sys_send_call_def)
  have o2: "on_hart (demo_env 1) ?b s1"
    using other_hart_goes_on [OF o(2), where e = "demo_env 0", unfolded demo_env_simps, OF _ refl f] by simp
  have p2: "partner send_wait 0 s1 = Some (0, 1)"
    by (rule blocked_is_partner [OF f(2), of ?a])
      (use demo_tcb_runnable [of _ 1 2 free_mutex ?m] in \<open>simp_all add: demo_tcb_at\<close>)
  have sep: "separate (0x3FC85000 :: usize) 4 (regs ?cb 2 - 128) 128" "separate (0x3FC84000 :: usize) 8 (regs ?cb 2 - 128) 128"
    "separate (0x3FC84000 :: usize) 8 (regs ?ca 2 - 128) 128" "separate (regs ?cb 2 - 128) 128 (regs ?ca 2 - 128) 128"
    by (simp_all add: separateI)
  have "ram s1 = ram (entered (demo_env 0) 0 ?tx ?s)" using switch_frame_fields(6) [OF f(2)] by simp
  then have bytes: "bytes_at (ram s1) 0x3FC85000 4 = [0x11, 0x22, 0x33, 0x44]" "bytes_at (ram s1) 0x3FC84000 8 = replicate 8 0"
    using entered_bytes [of "0x3FC85000" 4 ?tx "demo_env 0" 0 ?s] entered_bytes [of "0x3FC84000" 8 ?tx "demo_env 0" 0 ?s]
    by (simp_all add: separateI bytes_at_def write_frame_def write_word_def word_addr_def upt_rec replicate_num)
  have "undisturbed ?tx 0 1 s1 s1" by (simp add: undisturbed_def)
  from blocked_send_completes [OF o(1) r _ _ g(1) p refl call this o2 g(2) p2 refl sep, where ?start2.0 = 0]
  show ?thesis using call bytes g by (auto simp: returned_def fun_upd_twist replicate_num)
qed

end
