(* ===== verification/Confinement.thy ===== *)
theory Confinement
  imports System Task_Control
begin

text \<open>
  Authority is confined to what the boot handed out. No step of the running system of \<open>System\<close> changes the name, the base
  priority or the capability table of a task, and a task owns a mutex, waits for one, or waits at a message endpoint only if the
  boot gave it the capability to do so: the checks of the system calls cannot be bypassed by a hand-over, a
  recovery, a termination or a restart.
\<close>

section \<open>Authority\<close>

definition identity :: "TaskControlBlock \<Rightarrow> u8 \<times> string \<times> Capability list" where
  "identity tcb = (priority tcb, task_name tcb, capabilities tcb)"

text \<open>The registrations of the boot, by hart and slot.\<close>

definition boot_identities :: "nat \<times> nat \<Rightarrow> (u8 \<times> string \<times> Capability list) option" where
  "boot_identities = map_of
     [((0, 0), 0, ''Watchdog'', no_caps), ((0, 1), 1, ''Task A'', task_a_caps), ((0, 4), 4, ''HSM Task'', hsm_caps),
      ((0, 31), 31, ''Idle 0'', no_caps), ((1, 2), 2, ''Task B'', task_b_caps), ((1, 3), 3, ''Task C'', task_c_caps),
      ((1, 31), 31, ''Idle 1'', no_caps)]"

definition may :: "(Capability \<Rightarrow> u8 option) \<Rightarrow> nat \<times> nat \<Rightarrow> u8 \<Rightarrow> bool" where
  "may pattern p x \<longleftrightarrow> (case boot_identities p of
       None \<Rightarrow> False
     | Some (_, _, caps) \<Rightarrow> list_ex (\<lambda>cap. pattern cap = Some x) caps)"

text \<open>What a waiting task must have been allowed to do, and what the tasks of a mutex must.\<close>

fun wait_allowed :: "nat \<times> nat \<Rightarrow> TaskState \<Rightarrow> bool" where
  "wait_allowed p (BlockedOnMutex idx) = may lock_cap p idx"
| "wait_allowed p (BlockedOnIpcSend ep _ _) = may send_cap p ep"
| "wait_allowed p (BlockedOnIpcRecv ep _ _) = may recv_cap p ep"
| "wait_allowed p _ = True"

definition task_allowed :: "nat \<times> nat \<Rightarrow> TaskControlBlock option \<Rightarrow> bool" where
  "task_allowed p entry \<longleftrightarrow> boot_identities p = map_option identity entry
     \<and> (\<forall>tcb. entry = Some tcb \<longrightarrow> wait_allowed p (task_state tcb))"

definition mutex_allowed :: "nat \<Rightarrow> KernelMutex \<Rightarrow> bool" where
  "mutex_allowed k m \<longleftrightarrow> (\<forall>w. bit (waiters_bitmap m) w \<longrightarrow> may lock_cap (waiter_hart w, w) (of_nat k))
     \<and> (\<forall>t. owner_task_idx m = Some t \<longrightarrow> may lock_cap (waiter_hart (unat t), unat t) (of_nat k))"

definition confined :: "kernel \<Rightarrow> bool" where
  "confined s \<longleftrightarrow> length (schedulers s) = 2 \<and> (\<forall>h i. h < 2 \<longrightarrow> task_allowed (h, i) (tcb_at s h i))
     \<and> (\<forall>k m. slot (mutexes s) k = Some m \<longrightarrow> mutex_allowed k m)"

section \<open>Programs that preserve an invariant\<close>

text \<open>On every path, panics and waits included; and what a normal result tells.\<close>

definition preserves :: "('s \<Rightarrow> bool) \<Rightarrow> ('s, 'a) km \<Rightarrow> bool" where
  "preserves I m \<longleftrightarrow> (\<forall>s. I s \<longrightarrow> I (fst (m s)))"

definition returns :: "('s \<Rightarrow> bool) \<Rightarrow> ('s, 'a) km \<Rightarrow> ('a \<Rightarrow> bool) \<Rightarrow> bool" where
  "returns I m R \<longleftrightarrow> (\<forall>s s' a. I s \<longrightarrow> m s = (s', Ok a) \<longrightarrow> R a)"

named_theorems kept \<open>programs that preserve an invariant\<close>

lemma preserves_monad [kept]:
  "preserves I (kret a)" "preserves I (kpanic p)" "preserves I (kgets g)" "preserves I (kassert p b)"
  "preserves I (kunwrap x)" "preserves I (kindex xs i)"
  by (simp_all add: preserves_def kdefs split: option.split)

lemma preserves_kmodify [kept]: "(\<And>s. I s \<Longrightarrow> I (f s)) \<Longrightarrow> preserves I (kmodify f)"
  by (simp add: preserves_def kmodify_def)

lemma preserves_result:
  assumes "preserves I m" "returns I m R" "\<And>a. R a \<Longrightarrow> preserves I (f a)"
  shows "preserves I (kbind m f)"
  unfolding preserves_def
proof (intro allI impI)
  fix s assume "I s"
  then have "I (fst (m s))" using assms(1) by (simp add: preserves_def)
  then show "I (fst (kbind m f s))"
    using assms(2,3) \<open>I s\<close> by (auto simp: kbind_eval preserves_def returns_def split: prod.splits res.splits)
qed

lemma preserves_kbind [kept]: "preserves I m \<Longrightarrow> (\<And>a. preserves I (f a)) \<Longrightarrow> preserves I (kbind m f)"
  by (rule preserves_result [where R = "\<lambda>_. True"]) (simp_all add: returns_def)

lemma preserves_kseq [kept]: "preserves I m \<Longrightarrow> preserves I n \<Longrightarrow> preserves I (kseq m n)"
  unfolding kseq_def by (rule preserves_kbind)

lemma preserves_kforeach [kept]: "(\<And>x. preserves I (f x)) \<Longrightarrow> preserves I (kforeach xs f)"
  by (induction xs) (simp_all add: preserves_monad preserves_kseq)

lemma preserves_zoom [kept]: "(\<And>l s. I s \<Longrightarrow> I (put l s)) \<Longrightarrow> preserves I (zoom get put m)"
  by (simp add: preserves_def zoom_def split: prod.split)

lemma preserves_cases [kept]:
  "(b \<Longrightarrow> preserves I m) \<Longrightarrow> (\<not> b \<Longrightarrow> preserves I n) \<Longrightarrow> preserves I (if b then m else n)"
  "preserves I m \<Longrightarrow> (\<And>a. preserves I (f a)) \<Longrightarrow> preserves I (case x of None \<Rightarrow> m | Some a \<Rightarrow> f a)"
  "(\<And>a b. preserves I (g a b)) \<Longrightarrow> preserves I (case y of (a, b) \<Rightarrow> g a b)"
  by (simp_all split: option.split prod.split)

section \<open>The kernel's accesses\<close>

lemma identity_simps [simp]:
  "identity (set_state st tcb) = identity tcb" "identity (tcb\<lparr>saved_sp := sp\<rparr>) = identity tcb"
  "identity (tcb\<lparr>task_state := st\<rparr>) = identity tcb" "identity (demote tcb) = identity tcb"
  by (simp_all add: identity_def set_state_def demote_def)

lemma confined_cong: "schedulers s' = schedulers s \<Longrightarrow> mutexes s' = mutexes s \<Longrightarrow> confined s' = confined s"
  by (simp add: confined_def tcb_at_def)

lemma confined_fields [simp]:
  "confined (s\<lparr>ram := m\<rparr>) = confined s" "confined (s\<lparr>sched_lock := l\<rparr>) = confined s"
  "confined (s\<lparr>mutex_lock := l\<rparr>) = confined s" "confined (s\<lparr>trace := tr\<rparr>) = confined s"
  "confined (s\<lparr>msip := ip\<rparr>) = confined s" "confined (s\<lparr>pmp := p\<rparr>) = confined s"
  "confined (s\<lparr>tick_count := n\<rparr>) = confined s" "confined (s\<lparr>mtimecmp := c\<rparr>) = confined s"
  "confined (s\<lparr>last_checkin_tick := ts\<rparr>) = confined s" "confined (s\<lparr>test_counter := n\<rparr>) = confined s"
  "confined (s\<lparr>metric_trap_latency := n\<rparr>) = confined s" "confined (s\<lparr>metric_pmp_violations := n\<rparr>) = confined s"
  by (rule confined_cong; simp)+

lemma confined_sched:
  assumes "confined s" and "\<And>i. h < 2 \<Longrightarrow> task_allowed (h, i) (slot (task_table (schedulers s ! h)) i) \<Longrightarrow>
      task_allowed (h, i) (slot (task_table (f (schedulers s ! h))) i)"
  shows "confined (upd_sched h f s)"
  using assms by (auto simp: confined_def tcb_at_def upd_sched_def nth_list_update) (metis list_update_beyond not_le nth_list_update)

lemma confined_upd_tcb:
  assumes "confined s" and "\<And>tcb. h < 2 \<Longrightarrow> task_allowed (h, i) (Some tcb) \<Longrightarrow> task_allowed (h, i) (Some (f tcb))"
  shows "confined (upd_tcb h i f s)"
  unfolding upd_tcb_def
proof (rule confined_sched [OF assms(1)])
  fix j
  let ?t = "task_table (schedulers s ! h)"
  assume "h < 2" "task_allowed (h, j) (slot ?t j)"
  then show "task_allowed (h, j) (slot (task_table ((schedulers s ! h)\<lparr>task_table := upd_slot ?t i f\<rparr>)) j)"
    using assms(2) by (cases "slot ?t j") (auto simp: slot_upd_slot)
qed

lemma task_allowed_state:
  "task_allowed p (Some tcb) \<Longrightarrow> wait_allowed p st \<Longrightarrow> task_allowed p (Some (set_state st tcb))"
  "task_allowed p (Some tcb) \<Longrightarrow> task_allowed p (Some (tcb\<lparr>saved_sp := sp\<rparr>))"
  "task_allowed p (Some tcb) \<Longrightarrow> task_allowed p (Some (demote tcb))"
  by (auto simp: task_allowed_def demote_def set_state_def)

lemma confined_put_mutex:
  assumes "confined s" "mutex_allowed k m"
  shows "confined (s\<lparr>mutexes := (mutexes s)[k := Some m]\<rparr>)"
proof -
  have "tcb_at (s\<lparr>mutexes := ms\<rparr>) = tcb_at s" for ms by (simp add: tcb_at_def fun_eq_iff)
  then show ?thesis using assms by (auto simp: confined_def slot_list_update)
qed

lemma schedule_allowed:
  assumes "\<And>i. task_allowed (h, i) (slot (task_table sc) i)"
  shows "task_allowed (h, i) (slot (task_table (fst (schedule is_tick sc))) i)"
proof -
  have swap: "task_allowed (h, i) (slot (task_table (swap_partition c j t)) i)" if "task_table t = task_table sc" for c j t
    using assms [of i] that
    by (cases "slot (task_table sc) i")
      (auto simp: swap_partition_def slot_upd_slot intro!: task_allowed_state(1) task_allowed_state(3))
  then show ?thesis
    using assms [of i] swap [of "charge_tick is_tick sc" "current_partition_idx sc"]
    by (auto simp: schedule_def Let_def split: option.split)
qed

text \<open>A state that a task may be put in: any but a wait, or a wait it is allowed.\<close>

lemma preserves_set_task_state:
  "(h < 2 \<Longrightarrow> wait_allowed (h, i) st) \<Longrightarrow> preserves confined (set_task_state h i st)"
  unfolding set_task_state_def
  by (intro kept confined_upd_tcb) (auto intro: task_allowed_state)

lemma preserves_set_runnable [kept]:
  "preserves confined (set_task_state h i Ready)" "preserves confined (set_task_state h i Terminated)"
  "preserves confined (set_task_state h i (Blocked t))"
  by (rule preserves_set_task_state; simp)+

lemma preserves_put_mutex: "mutex_allowed k m \<Longrightarrow> preserves confined (put_mutex k m)"
  unfolding put_mutex_def by (intro kept confined_put_mutex)

lemma preserves_accesses [kept]:
  "preserves confined (sched_of h)" "preserves confined (running_idx h)" "preserves confined (peek_tcb h i)"
  "preserves confined (get_tcb h i)" "preserves confined (frame_read sp j)"
  "preserves confined (frame_write sp j v)" "preserves confined (log_telemetry ev)" "preserves confined (write_msip h w)"
  "preserves confined (mutex_acquire h)" "preserves confined mutex_release" "preserves confined (reprogram_on h L name)"
  "preserves confined (peek_mutex k)" "preserves confined (copy_message src dst n)"
  "preserves confined (find_partner wait ep)" "preserves confined (running_cap h i c)"
  unfolding sched_of_def running_idx_def peek_tcb_def get_tcb_def frame_read_def frame_write_def running_cap_def
    log_telemetry_def write_msip_def mutex_acquire_def mutex_release_def reprogram_on_def peek_mutex_def
    copy_message_def find_partner_def
  by (intro kept; simp)+

lemma preserves_sched_guard [kept]: "preserves confined m \<Longrightarrow> preserves confined (sched_guard h m)"
  unfolding sched_guard_def with_guard_def by (intro kept) simp_all

lemma preserves_run_schedule [kept]: "preserves confined (run_schedule h is_tick)"
proof -
  have "preserves confined (zoom (\<lambda>s. schedulers s ! h) (\<lambda>sched. upd_sched h (\<lambda>_. sched)) (schedule is_tick))"
    unfolding preserves_def
  proof (intro allI impI)
    fix s assume s: "confined s"
    have "confined (upd_sched h (\<lambda>sc. fst (schedule is_tick sc)) s)"
      by (rule confined_sched [OF s]) (use s in \<open>auto intro!: schedule_allowed simp: confined_def tcb_at_def\<close>)
    then show "confined (fst (zoom (\<lambda>s. schedulers s ! h) (\<lambda>sched. upd_sched h (\<lambda>_. sched)) (schedule is_tick) s))"
      by (cases "schedule is_tick (schedulers s ! h)") (simp add: zoom_def upd_sched_def)
  qed
  then show ?thesis
    unfolding run_schedule_def by (intro preserves_kseq preserves_kbind preserves_monad preserves_accesses)
qed

lemma preserves_switch_task [kept]: "preserves confined (switch_task e sp is_tick)"
  unfolding switch_task_def Let_def by (intro kept confined_upd_tcb) (auto intro: task_allowed_state)

section \<open>The capability checks\<close>

text \<open>The capability that a check reads is one of the boot's.\<close>

lemma get_tcb_returns:
  "returns confined (get_tcb h i) (\<lambda>tcb. h < 2 \<and> boot_identities (h, i) = Some (identity tcb))"
  by (auto simp: returns_def get_tcb_def peek_tcb_def sched_of_def kdefs confined_def tcb_at_def task_allowed_def slot_def
      split: if_splits option.splits)

lemma running_cap_returns:
  "returns confined (running_cap h i c) (\<lambda>cap. h < 2 \<and> (\<forall>pattern x. pattern cap = Some x \<longrightarrow> may pattern (h, i) x))"
  unfolding returns_def
proof (intro allI impI)
  fix s s' cap assume "confined s" "running_cap h i c s = (s', Ok cap)"
  then obtain s1 tcb where t: "get_tcb h i s = (s1, Ok tcb)" "cap \<in> set (capabilities tcb)"
    by (auto simp: running_cap_def kdefs split: prod.splits res.splits if_splits)
  with get_tcb_returns [of h i] \<open>confined s\<close> have "h < 2" "boot_identities (h, i) = Some (identity tcb)"
    by (auto simp: returns_def)
  then show "h < 2 \<and> (\<forall>pattern x. pattern cap = Some x \<longrightarrow> may pattern (h, i) x)"
    using t(2) by (auto simp: may_def identity_def list_ex_iff)
qed

lemma peek_mutex_returns:
  "returns confined (peek_mutex k) (\<lambda>entry. \<forall>m. entry = Some m \<longrightarrow> mutex_allowed k m)"
  by (auto simp: returns_def peek_mutex_def kdefs confined_def slot_def split: if_splits)

lemma preserves_with_mutex:
  assumes "\<And>idx m. h < 2 \<Longrightarrow> may pattern (h, r) idx \<Longrightarrow> mutex_allowed (unat idx) m \<Longrightarrow> preserves confined (action idx m)"
  shows "preserves confined (with_mutex pattern h r c sp action)"
proof -
  have d: "preserves confined (denied sp)" unfolding denied_def by (intro kept)
  have "preserves confined (kbind (peek_mutex (unat idx)) (\<lambda>entry.
      case entry of None \<Rightarrow> denied sp | Some mutex \<Rightarrow> action idx mutex))" if "h < 2" "may pattern (h, r) idx" for idx
    by (rule preserves_result [OF preserves_accesses(12) peek_mutex_returns]) (use d assms that in \<open>auto split: option.split\<close>)
  then have "preserves confined (kbind (running_cap h r c) (\<lambda>cap. case pattern cap of None \<Rightarrow> denied sp
      | Some idx \<Rightarrow> kbind (peek_mutex (unat idx)) (\<lambda>entry. case entry of None \<Rightarrow> denied sp | Some mutex \<Rightarrow> action idx mutex)))"
    by (intro preserves_result [OF preserves_accesses(15) running_cap_returns]) (use d in \<open>auto split: option.split\<close>)
  then show ?thesis using d by (simp add: with_mutex_def)
qed

lemma preserves_with_endpoint:
  assumes "\<And>ep. h < 2 \<Longrightarrow> may pattern (h, r) ep \<Longrightarrow> preserves confined (action ep)"
  shows "preserves confined (with_endpoint pattern h r c sp action)"
proof -
  have d: "preserves confined (kseq (frame_write sp 6 (-1)) (kret sp))" by (intro kept)
  have "preserves confined (kbind (running_cap h r c) (\<lambda>cap. case pattern cap of
      None \<Rightarrow> kseq (frame_write sp 6 (-1)) (kret sp) | Some ep \<Rightarrow> action ep))"
    by (rule preserves_result [OF preserves_accesses(15) running_cap_returns]) (use d assms in \<open>auto split: option.split\<close>)
  then show ?thesis using d by (simp add: with_endpoint_def Let_def)
qed

section \<open>Mutexes\<close>

text \<open>The boot gives mutex capabilities only on the hart that the mutex code assumes.\<close>

lemma may_lock_hart: "may lock_cap (h, i) x \<Longrightarrow> waiter_hart i = h \<and> i < 32"
  by (auto simp: may_def boot_identities_def no_caps_def task_a_caps_def task_b_caps_def task_c_caps_def hsm_caps_def
      waiter_hart_def list_ex_iff split: if_splits)

lemma preserves_lock_mutex:
  assumes "hart_id e < 2" "may lock_cap (hart_id e, r) idx" "mutex_allowed (unat idx) m"
  shows "preserves confined (lock_mutex e r sp idx m)"
proof -
  have r: "waiter_hart r = hart_id e" "r < 32" using may_lock_hart [OF assms(2)] by simp_all
  then have u: "unat (of_nat r :: u8) = r" by (simp add: unat_of_nat)
  have "mutex_allowed (unat idx) (m\<lparr>locked := True, owner_task_idx := Some (of_nat r)\<rparr>)"
    using assms r u by (simp add: mutex_allowed_def)
  moreover have "mutex_allowed (unat idx) (m\<lparr>waiters_bitmap := waiters_bitmap m OR push_bit r 1\<rparr>)"
    using assms r by (auto simp: mutex_allowed_def bit_or_iff bit_exp_iff)
  ultimately show ?thesis
    unfolding lock_mutex_def Let_def
    by (intro kept preserves_put_mutex preserves_set_task_state) (use assms in simp_all)
qed

text \<open>The waiter that the scan finds is one of the bitmap's.\<close>

lemma scan_waiters_finds:
  "scan_waiters bm is w0 s = (s', Ok (Some w)) \<Longrightarrow> w0 = Some w \<or> bit bm w"
proof (induction "is" arbitrary: w0 s)
  case Nil
  then show ?case by (simp add: kret_def)
next
  case (Cons i "is")
  show ?case
  proof (cases "bm AND push_bit i 1 = 0")
    case True
    then show ?thesis using Cons by simp
  next
    case False
    then obtain n where "bit (bm AND push_bit i 1) n" by (metis bit_0_eq bit_eq_iff bot_apply bot_bool_def)
    then have "bit bm i" by (auto simp: bit_and_iff bit_exp_iff)
    then show ?thesis
      using False Cons by (cases w0) (force simp: kbind_eval waiter_prio_def kret_def split: prod.splits res.splits if_splits)+
  qed
qed

lemma highest_waiter_finds: "returns I (highest_waiter bm) (\<lambda>w. \<forall>i. w = Some i \<longrightarrow> bit bm i)"
  using scan_waiters_finds by (fastforce simp: returns_def highest_waiter_def)

lemma preserves_highest_waiter [kept]: "preserves confined (highest_waiter bm)"
proof -
  have "preserves confined (scan_waiters bm is w)" for "is" w
    by (induction "is" arbitrary: w) (auto simp: waiter_prio_def intro!: kept)
  then show ?thesis by (simp add: highest_waiter_def)
qed

lemma mutex_allowed_pass:
  assumes "mutex_allowed k m" "bit (waiters_bitmap m) w"
  shows "mutex_allowed k (m\<lparr>owner_task_idx := Some (of_nat w), waiters_bitmap := waiters_bitmap m AND NOT (push_bit w 1)\<rparr>)"
    "mutex_allowed k (m\<lparr>locked := b, owner_task_idx := Some (of_nat w), waiters_bitmap := waiters_bitmap m AND NOT (push_bit w 1)\<rparr>)"
proof -
  have "may lock_cap (waiter_hart w, w) (of_nat k)" using assms by (simp add: mutex_allowed_def)
  moreover from this have "unat (of_nat w :: u8) = w" using may_lock_hart by (fastforce simp: unat_of_nat)
  ultimately show
    "mutex_allowed k (m\<lparr>owner_task_idx := Some (of_nat w), waiters_bitmap := waiters_bitmap m AND NOT (push_bit w 1)\<rparr>)"
    "mutex_allowed k (m\<lparr>locked := b, owner_task_idx := Some (of_nat w), waiters_bitmap := waiters_bitmap m AND NOT (push_bit w 1)\<rparr>)"
    using assms(1) by (auto simp: mutex_allowed_def bit_and_iff)
qed

lemma mutex_allowed_free: "mutex_allowed k m \<Longrightarrow> mutex_allowed k (m\<lparr>locked := b, owner_task_idx := None\<rparr>)"
  by (simp add: mutex_allowed_def)

lemma preserves_unlock_mutex:
  assumes "mutex_allowed (unat idx) m"
  shows "preserves confined (unlock_mutex e r sp idx m)"
proof -
  have "preserves confined (hand_mutex e idx m w)" if "\<forall>i. w = Some i \<longrightarrow> bit (waiters_bitmap m) i" for w
    using that mutex_allowed_pass [OF assms] mutex_allowed_free [OF assms]
    by (cases w) (auto simp: hand_mutex_def intro!: kept preserves_put_mutex)
  then show ?thesis
    unfolding unlock_mutex_def
    by (intro preserves_kseq preserves_result [OF preserves_highest_waiter highest_waiter_finds] kept) simp
qed

lemma preserves_recover_mutex: "preserves confined (recover_mutex task k)"
  unfolding recover_mutex_def
proof (rule preserves_result [OF preserves_accesses(12) peek_mutex_returns])
  fix entry assume e: "\<forall>m. entry = Some m \<longrightarrow> mutex_allowed k m"
  have "preserves confined (let freed = m\<lparr>locked := False, owner_task_idx := None\<rparr> in
      kseq (put_mutex k freed) (kbind (highest_waiter (waiters_bitmap m)) (\<lambda>highest. case highest of
          None \<Rightarrow> kret ()
        | Some w \<Rightarrow> kseq (put_mutex k (freed\<lparr>locked := True, owner_task_idx := Some (of_nat w),
                waiters_bitmap := waiters_bitmap m AND NOT (push_bit w 1)\<rparr>))
           (kbind (peek_tcb (waiter_hart w) w) (\<lambda>waiter. case waiter of None \<Rightarrow> kret ()
              | Some _ \<Rightarrow> set_task_state (waiter_hart w) w Ready)))))" if "entry = Some m" for m
    unfolding Let_def
  proof (intro preserves_kseq preserves_put_mutex preserves_result [OF preserves_highest_waiter highest_waiter_finds])
    show "mutex_allowed k (m\<lparr>locked := False, owner_task_idx := None\<rparr>)" using e that mutex_allowed_free by blast
    fix w assume "\<forall>i. w = Some i \<longrightarrow> bit (waiters_bitmap m) i"
    then show "preserves confined (case w of None \<Rightarrow> kret ()
        | Some w \<Rightarrow> kseq (put_mutex k (m\<lparr>locked := False, owner_task_idx := None,
              locked := True, owner_task_idx := Some (of_nat w),
              waiters_bitmap := waiters_bitmap m AND NOT (push_bit w 1)\<rparr>))
           (kbind (peek_tcb (waiter_hart w) w) (\<lambda>waiter. case waiter of None \<Rightarrow> kret ()
              | Some _ \<Rightarrow> set_task_state (waiter_hart w) w Ready)))"
      using e that mutex_allowed_pass(2) [of k m _ True]
      by (cases w) (auto intro!: kept preserves_put_mutex)
  qed
  then show "preserves confined (case entry of None \<Rightarrow> kret () | Some mutex \<Rightarrow>
      if owner_task_idx mutex = Some (of_nat task) then
        (let freed = mutex\<lparr>locked := False, owner_task_idx := None\<rparr> in
         kseq (put_mutex k freed) (kbind (highest_waiter (waiters_bitmap mutex)) (\<lambda>highest. case highest of
             None \<Rightarrow> kret ()
           | Some w \<Rightarrow> kseq (put_mutex k (freed\<lparr>locked := True, owner_task_idx := Some (of_nat w),
                   waiters_bitmap := waiters_bitmap mutex AND NOT (push_bit w 1)\<rparr>))
              (kbind (peek_tcb (waiter_hart w) w) (\<lambda>waiter. case waiter of None \<Rightarrow> kret ()
                 | Some _ \<Rightarrow> set_task_state (waiter_hart w) w Ready)))))
      else kret ())"
    by (cases entry) (auto intro: kept)
qed

lemma preserves_mutex_calls [kept]:
  "preserves confined (sys_lock e sp)" "preserves confined (sys_unlock e sp)" "preserves confined (recover_mutexes e task)"
proof -
  show "preserves confined (sys_lock e sp)"
    unfolding sys_lock_def Let_def lock_result_def
    by (intro kept preserves_with_mutex preserves_lock_mutex)
  show "preserves confined (sys_unlock e sp)"
    unfolding sys_unlock_def Let_def unlock_result_def
    by (intro kept preserves_with_mutex preserves_unlock_mutex)
  show "preserves confined (recover_mutexes e task)"
    unfolding recover_mutexes_def by (intro kept preserves_recover_mutex)
qed

section \<open>Messages\<close>

lemma preserves_ipc_calls [kept]: "preserves confined (sys_send e sp)" "preserves confined (sys_recv e sp)"
  unfolding sys_send_def sys_recv_def Let_def deliver_to_receiver_def collect_from_sender_def notify_core_def
    block_and_switch_def
  by (intro kept preserves_with_endpoint preserves_set_task_state; simp)+

section \<open>The handler and the watchdog\<close>

lemma trap_confined: "preserves confined (trap_handler e mcause sp start)"
proof -
  have "preserves confined (on_timer e sp)"
    unfolding on_timer_def Let_def wake_sleepers_def wake_task_def by (intro kept) simp_all
  moreover have "preserves confined (sys_sleep e sp)" "preserves confined (sys_yield e sp)" "preserves confined (on_software e sp)"
    unfolding sys_sleep_def sys_yield_def on_software_def Let_def by (intro kept)+
  moreover have "preserves confined (sys_checkin e sp)"
    unfolding sys_checkin_def by (intro kept) simp
  moreover have "preserves confined (sys_terminate e sp)"
    unfolding sys_terminate_def terminate_target_def Let_def by (intro kept)
  moreover have "preserves confined (contain_fault e mcause sp)"
    unfolding contain_fault_def Let_def by (intro kept) simp
  moreover have "preserves confined (emulate_csr e sp epc ins)" for epc ins
    unfolding emulate_csr_def by (intro kept)
  ultimately show ?thesis
    unfolding trap_handler_def syscall_def on_exception_def Let_def by (intro kept) simp_all
qed

lemma restart_confined: "preserves confined (restart_task_c L ep)" "preserves confined (restart_hsm L ep)"
proof -
  have "preserves confined (init_task_stack stack fn)" for stack fn
    by (simp add: preserves_def init_task_stack_def split: prod.split)
  then have "preserves confined (restart_slot h i stack fn)" for h i stack fn
    unfolding restart_slot_def by (intro kept confined_upd_tcb) (auto intro: task_allowed_state)
  then show "preserves confined (restart_task_c L ep)" "preserves confined (restart_hsm L ep)"
    unfolding restart_task_c_def restart_hsm_def by (intro kept; simp)+
qed

section \<open>The running system\<close>

lemma boot_table_identities:
  assumes "h < 2"
  shows "map_option identity (slot (task_table (boot_schedulers L ! h)) i) = boot_identities (h, i)"
  using assms by (auto simp: less_2_cases_iff boot_slots boot_identities_def identity_def new_tcb_def)

lemma boot_table_ready:
  "h < 2 \<Longrightarrow> slot (task_table (boot_schedulers L ! h)) i = Some tcb \<Longrightarrow> task_state tcb = Ready"
  by (auto simp: less_2_cases_iff boot_slots split: if_splits)

lemma booted_allowed:
  assumes "h < 2"
  shows "task_allowed (h, i) (slot (task_table (start_on j (boot_schedulers L ! h))) i)"
proof (cases "slot (task_table (boot_schedulers L ! h)) i")
  case None
  then show ?thesis
    using boot_table_identities [OF assms, of L i] by (simp add: task_allowed_def start_on_def slot_upd_slot)
next
  case (Some tcb)
  then have "task_allowed (h, i) (Some tcb)"
    using boot_table_identities [OF assms, of L i] boot_table_ready [OF assms Some] by (simp add: task_allowed_def)
  then show ?thesis using Some task_allowed_state(1) [of "(h, i)" tcb Running] by (simp add: start_on_def slot_upd_slot)
qed

interpretation authority: inductive_invariant "booted L" "kernel_step L" confined for L
proof
  fix s assume "booted L s"
  then obtain ep now0 now1 m sps where b: "boot L ep now0 now1 (reset_kernel m) = (s, Ok sps)"
    by (auto simp: booted_def)
  then have s: "schedulers s = [start_on 0 (boot_schedulers L ! 0), start_on 2 (boot_schedulers L ! 1)]" "mutexes s = MUTEXES"
    by (cases rule: boot_run [of L ep now0 now1 m]; auto simp: reset_kernel_def)+
  then have "task_allowed (h, i) (tcb_at s h i)" if "h < 2" for h i
    using booted_allowed [OF that, of i _ L] that by (auto simp: tcb_at_def less_2_cases_iff)
  moreover have "mutex_allowed k m" if "slot MUTEXES k = Some m" for k m
    using that by (auto simp: MUTEXES_def slot_def nth_Cons mutex_allowed_def split: if_splits nat.splits)
  ultimately show "confined s" using s by (simp add: confined_def)
next
  fix s t assume i: "confined s" and "kernel_step L s t"
  from this(2) show "confined t"
  proof (cases rule: kernel_step.cases)
    case (trap e mcause sp start sp')
    then show ?thesis using i trap_confined [of e mcause sp start] by (metis fst_conv preserves_def)
  next
    case (copy_faults e t' mcause sp start sp')
    then have "confined t'" using i by (auto simp: in_copy_def)
    then show ?thesis using copy_faults trap_confined [of e mcause sp start] by (metis fst_conv preserves_def)
  next
    case (watchdog_restart_c ep)
    then show ?thesis using i restart_confined(1) [of L ep] by (metis fst_conv preserves_def)
  next
    case (watchdog_restart_hsm ep)
    then show ?thesis using i restart_confined(2) [of L ep] by (metis fst_conv preserves_def)
  qed (use i in simp_all)
qed

section \<open>Who can talk to whom\<close>

definition channels :: "((nat \<times> nat) \<times> (nat \<times> nat) \<times> u8) list" where
  "channels = [((0, 1), (1, 2), 0), ((0, 1), (0, 4), 2), ((0, 4), (0, 1), 3)]"

lemma channels_complete: "may send_cap p ep \<Longrightarrow> may recv_cap q ep \<Longrightarrow> (p, q, ep) \<in> set channels"
  by (auto simp: channels_def may_def boot_identities_def no_caps_def task_a_caps_def task_b_caps_def task_c_caps_def
      hsm_caps_def list_ex_iff split: if_splits)

lemma boot_caps_length: "boot_identities p = Some (prio, name, caps) \<Longrightarrow> length caps = 8"
  by (auto simp: boot_identities_def no_caps_def task_a_caps_def task_b_caps_def task_c_caps_def hsm_caps_def split: if_splits)

lemma granted_may:
  assumes "confined s" "h < 2" "tcb_at s h i = Some tcb" "granted pattern tcb sp s = Some x"
  shows "may pattern (h, i) x"
proof -
  have b: "boot_identities (h, i) = Some (priority tcb, task_name tcb, capabilities tcb)"
    using assms(1-3) by (auto simp: confined_def task_allowed_def identity_def)
  then have "unat (read_frame (ram s) sp 6) < length (capabilities tcb)"
    using boot_caps_length [OF b] assms(4) by (auto simp: granted_def Let_def word_less_nat_alt split: if_splits)
  then show ?thesis
    using assms(4) b by (auto simp: may_def granted_def Let_def list_ex_iff split: if_splits)
qed

lemma partner_may:
  assumes "confined s"
  shows "partner recv_wait ep s = Some q \<Longrightarrow> may recv_cap q ep" "partner send_wait ep s = Some q \<Longrightarrow> may send_cap q ep"
proof -
  have "\<exists>st a n. wait_allowed q st \<and> wait st = Some (ep, a, n)" if p: "partner wait ep s = Some q" for wait
  proof -
    obtain h i where q: "q = (h, i)" by (cases q)
    obtain t a n where "h < 2" "tcb_at s h i = Some t" "wait (task_state t) = Some (ep, a, n)"
      by (rule partner_waits [OF p [unfolded q]])
    moreover from this have "wait_allowed q (task_state t)" using assms q by (auto simp: confined_def task_allowed_def)
    ultimately show ?thesis by blast
  qed
  moreover have "wait_allowed q st \<Longrightarrow> recv_wait st = Some (ep, a, n) \<Longrightarrow> may recv_cap q ep"
    "wait_allowed q st \<Longrightarrow> send_wait st = Some (ep, a, n) \<Longrightarrow> may send_cap q ep" for st a n
    by (cases st; simp)+
  ultimately show "partner recv_wait ep s = Some q \<Longrightarrow> may recv_cap q ep" "partner send_wait ep s = Some q \<Longrightarrow> may send_cap q ep"
    by blast+
qed

text \<open>The limit of all this. The schedulers, mutexes and locks lie in SRAM, outside the task stacks, and entry 3 of the protection
  unit opens SRAM to user mode: the task that is current on either hart can store there. The reachable states are those
  of tasks that do not.\<close>

lemma statics_open_to_tasks:
  assumes "reach (booted L) (kernel_step L) s" "h < 2" "layout_ok L" "pmp_unit user_access"
    and "in_sram a" "\<not> in_flash a" "\<not> in_range a (TASK_WD_STACK L) 1024" "\<not> in_range a (TASK_A_STACK L) 1024"
  shows "user_access (pmp s h) a AccWrite"
proof -
  have "kinv L s" using sys.reach_inv [OF assms(1)] by (simp add: sys_inv_def)
  from kinvD(5) [OF this assms(2)] obtain name where "pmp_configured L name (pmp s h)" by (auto simp: pmp_current_def)
  from pmp_unit.access_matrix [OF assms(4,3) this] show ?thesis using assms(5-8) by (simp add: user_rights_def)
qed

text \<open>Does a task of either hart wait at the endpoint?\<close>

definition waits_at :: "(u8 \<Rightarrow> usize \<Rightarrow> usize \<Rightarrow> TaskState) \<Rightarrow> u8 \<Rightarrow> kernel \<Rightarrow> bool" where
  "waits_at st ep s \<longleftrightarrow> (\<exists>h i a n. h < 2 \<and> kstate s h i = Some (st ep a n))"

lemma wait_states:
  "recv_wait st = Some (ep, a, n) \<longleftrightarrow> st = BlockedOnIpcRecv ep a n"
  "send_wait st = Some (ep, a, n) \<longleftrightarrow> st = BlockedOnIpcSend ep a n"
  by (cases st; auto)+

lemma partner_None:
  assumes "kinv L s"
  shows "partner recv_wait ep s = None \<longleftrightarrow> \<not> waits_at BlockedOnIpcRecv ep s"
    "partner send_wait ep s = None \<longleftrightarrow> \<not> waits_at BlockedOnIpcSend ep s"
proof -
  have "partner wait ep s = None \<longleftrightarrow> (\<forall>h i. h < 2 \<longrightarrow> \<not> waits_for wait ep (tcb_at s h i))" for wait
  proof -
    have "i < 32" if "h < 2" "waits_for wait ep (tcb_at s h i)" for h i
      using that tcb_at_less [OF assms that(1)] by (auto simp: waits_for_def split: option.splits)
    then show ?thesis by (auto simp: partner_def find_None_iff)
  qed
  moreover have "waits_for recv_wait ep (tcb_at s h i) \<longleftrightarrow> (\<exists>a n. kstate s h i = Some (BlockedOnIpcRecv ep a n))"
    "waits_for send_wait ep (tcb_at s h i) \<longleftrightarrow> (\<exists>a n. kstate s h i = Some (BlockedOnIpcSend ep a n))" for h i
    by (auto simp: waits_for_def kstate_def wait_states split: option.splits)
  ultimately show "partner recv_wait ep s = None \<longleftrightarrow> \<not> waits_at BlockedOnIpcRecv ep s"
    "partner send_wait ep s = None \<longleftrightarrow> \<not> waits_at BlockedOnIpcSend ep s"
    by (auto simp: waits_at_def)
qed

text \<open>The memory after a send or a receive that meets its partner, whatever the addresses are.\<close>

lemma send_memory:
  assumes "in_call 6 e sp tcb s" "granted send_cap tcb sp s = Some ep"
    and "partner recv_wait ep s = Some (ph, i)" "tcb_at s ph i = Some t" "task_state t = BlockedOnIpcRecv ep buf max_len"
    and "n = min (read_frame (ram s) sp 8) max_len"
  shows "\<exists>s'. trap_handler e 8 sp start s = (s', Ok sp) \<and> ram s' = write_frame (write_frame
    (copy_bytes (ram (call_state e sp start s)) (read_frame (ram s) sp 7) buf n) (saved_sp t) 6 n) sp 6 0"
  using send_run [OF in_call_state(1,2) [OF assms(1)] in_callD(1) [OF assms(1)], of start tcb sp ep ph i t buf max_len]
    in_call_state(3) [OF assms(1), of start] in_callD(2) [OF assms(1)] assms(2-6)
  by (simp add: trap_syscall granted_def Let_def transferred_ram)

lemma recv_memory:
  assumes "in_call 7 e sp tcb s" "granted recv_cap tcb sp s = Some ep"
    and "partner send_wait ep s = Some (ph, i)" "tcb_at s ph i = Some t" "task_state t = BlockedOnIpcSend ep msg msg_len"
    and "n = min msg_len (read_frame (ram s) sp 8)"
  shows "\<exists>s'. trap_handler e 8 sp start s = (s', Ok sp) \<and> ram s' = write_frame (write_frame
    (copy_bytes (ram (call_state e sp start s)) msg (read_frame (ram s) sp 7) n) (saved_sp t) 6 0) sp 6 n"
  using recv_run [OF in_call_state(1,2) [OF assms(1)] in_callD(1) [OF assms(1)], of start tcb sp ep ph i t msg msg_len]
    in_call_state(3) [OF assms(1), of start] in_callD(2) [OF assms(1)] assms(2-6)
  by (simp add: trap_syscall granted_def Let_def transferred_ram)

text \<open>A call that is refused, or finds nobody, moves no message.\<close>

lemma ipc_no_message:
  assumes "in_call n e sp tcb s" "n = 6 \<and> pattern = send_cap \<and> wait = recv_wait \<or> n = 7 \<and> pattern = recv_cap \<and> wait = send_wait"
  shows "granted pattern tcb sp s = None \<Longrightarrow> \<exists>s' sp'. trap_handler e 8 sp start s = (s', Ok sp')
      \<and> ram s' = write_frame (ram (call_state e sp start s)) sp 6 (-1)"
    and "granted pattern tcb sp s = Some ep \<Longrightarrow> partner wait ep s = None \<Longrightarrow>
      \<exists>s' sp'. trap_handler e 8 sp start s = (s', Ok sp') \<and> ram s' = ram (call_state e sp start s)"
proof -
  note D = in_callD [OF assms(1)] and S = in_call_state [OF assms(1), of start]
  have t: "tcb_at (call_state e sp start s) (hart_id e) (current (call_state e sp start s) (hart_id e)) = Some tcb"
    using S(3) by simp
  show "\<exists>s' sp'. trap_handler e 8 sp start s = (s', Ok sp') \<and> ram s' = write_frame (ram (call_state e sp start s)) sp 6 (-1)"
    if "granted pattern tcb sp s = None"
    using that assms(2) ipc_call_refused [OF S(1,2) D(1) t, of sp] D(2) by (auto simp: trap_syscall granted_None)
  show "\<exists>s' sp'. trap_handler e 8 sp start s = (s', Ok sp') \<and> ram s' = ram (call_state e sp start s)"
    if "granted pattern tcb sp s = Some ep" "partner wait ep s = None"
    using that assms(2) ipc_blocks_without_partner [OF assms(1), of ep _ start]
    by (fastforce dest: switch_frame_fields(6))
qed

text \<open>With the capability: nothing moves if nobody waits, else the message moves along a channel.\<close>

lemma send_along_channel:
  assumes "confined s" and call: "in_call 6 e sp tcb s" and g: "granted send_cap tcb sp s = Some ep"
    and m: "m = ram (call_state e sp start s)" and me: "me = (hart_id e, current s (hart_id e))"
  shows "\<exists>s' sp'. trap_handler e 8 sp start s = (s', Ok sp') \<and> (if waits_at BlockedOnIpcRecv ep s
     then \<exists>h i t buf max_len len. (me, (h, i), ep) \<in> set channels \<and> tcb_at s h i = Some t
       \<and> task_state t = BlockedOnIpcRecv ep buf max_len \<and> len = min (read_frame (ram s) sp 8) max_len
       \<and> ram s' = write_frame (write_frame (copy_bytes m (read_frame (ram s) sp 7) buf len) (saved_sp t) 6 len) sp 6 0
     else ram s' = m)"
proof -
  have k: "kinv (stacks e) s" "hart_id e < 2" "tcb_at s (hart_id e) (current s (hart_id e)) = Some tcb"
    using call by (simp_all add: in_call_def)
  show ?thesis
  proof (cases "partner recv_wait ep s")
    case None
    then show ?thesis using ipc_no_message(2) [OF call _ g None, of start] partner_None(1) [OF k(1), of ep] m by auto
  next
    case (Some q)
    obtain h i where q: "q = (h, i)" by (cases q)
    obtain t a b where t: "tcb_at s h i = Some t" "task_state t = BlockedOnIpcRecv ep a b"
      using partner_waits [OF Some [unfolded q]] by (metis wait_states(1))
    have "(me, (h, i), ep) \<in> set channels"
      using channels_complete [OF granted_may [OF assms(1) k(2,3) g] partner_may(1) [OF assms(1) Some]] q me by simp
    moreover have w: "waits_at BlockedOnIpcRecv ep s" using partner_None(1) [OF k(1), of ep] Some by simp
    ultimately show ?thesis
      unfolding if_P [OF w] using send_memory [OF call g Some [unfolded q] t refl, of start] t m by blast
  qed
qed

lemma receive_along_channel:
  assumes "confined s" and call: "in_call 7 e sp tcb s" and g: "granted recv_cap tcb sp s = Some ep"
    and m: "m = ram (call_state e sp start s)" and me: "me = (hart_id e, current s (hart_id e))"
  shows "\<exists>s' sp'. trap_handler e 8 sp start s = (s', Ok sp') \<and> (if waits_at BlockedOnIpcSend ep s
     then \<exists>h i t msg msg_len len. ((h, i), me, ep) \<in> set channels \<and> tcb_at s h i = Some t
       \<and> task_state t = BlockedOnIpcSend ep msg msg_len \<and> len = min msg_len (read_frame (ram s) sp 8)
       \<and> ram s' = write_frame (write_frame (copy_bytes m msg (read_frame (ram s) sp 7) len) (saved_sp t) 6 0) sp 6 len
     else ram s' = m)"
proof -
  have k: "kinv (stacks e) s" "hart_id e < 2" "tcb_at s (hart_id e) (current s (hart_id e)) = Some tcb"
    using call by (simp_all add: in_call_def)
  show ?thesis
  proof (cases "partner send_wait ep s")
    case None
    then show ?thesis using ipc_no_message(2) [OF call _ g None, of start] partner_None(2) [OF k(1), of ep] m by auto
  next
    case (Some q)
    obtain h i where q: "q = (h, i)" by (cases q)
    obtain t a b where t: "tcb_at s h i = Some t" "task_state t = BlockedOnIpcSend ep a b"
      using partner_waits [OF Some [unfolded q]] by (metis wait_states(2))
    have "((h, i), me, ep) \<in> set channels"
      using channels_complete [OF partner_may(2) [OF assms(1) Some] granted_may [OF assms(1) k(2,3) g]] q me by simp
    moreover have w: "waits_at BlockedOnIpcSend ep s" using partner_None(2) [OF k(1), of ep] Some by simp
    ultimately show ?thesis
      unfolding if_P [OF w] using recv_memory [OF call g Some [unfolded q] t refl, of start] t m by blast
  qed
qed

section \<open>A run that sends a message\<close>

text \<open>A forced switch goes to the next slot if that is ready.\<close>

lemma switch_to_next_slot:
  assumes k: "kinv (stacks e) s" and h: "hart_id e < 2"
    and j: "j = Suc (current s (hart_id e))" "j < 31" "kstate s (hart_id e) j = Some Ready"
  shows "wp (switch_task e sp False) (\<lambda>sp' y. switch_frame (hart_id e) s y \<and> current y (hart_id e) = j
    \<and> kstate y (hart_id e) j = Some Running) (\<lambda>_ _. False) s"
proof -
  let ?h = "hart_id e" and ?sc = "schedulers s ! hart_id e"
  have ready: "state_at ?sc j = Some Ready" using j(3) by (simp add: kstate_state_at)
  have len: "?h < length (schedulers s)" "current s ?h < 32" "length (task_table ?sc) = 32"
    using kinvD(1) [OF k h] h sched_wfD [OF kinvD(4) [OF k h]] by (auto simp: sched_shape_def)
  have frame: "wp (switch_task e sp False) (\<lambda>_. switch_frame ?h s) (\<lambda>_ _. False) s"
    by (rule switch_task_wp [OF k h])
  from k h refl show ?thesis
  proof (cases rule: switch_task_cases [where b = False and sp = sp])
    case stay
    then show ?thesis using ready by (auto simp: resched_def)
  next
    case (switch i tcb r)
    note sel = select_next_Some [OF switch(2) len(2,3)]
    have "i = j" using sel(3) [OF _ ready] sel(1) j(1,2) by (auto simp: ahead_def split: if_splits)
    then show ?thesis
      using frame switch(3,6) len(1) by (auto simp: wp_def kstate_def tcb_at_def slot_hand_over set_state_def)
  qed
qed

text \<open>From the boot: the watchdog yields and Task A runs on core 0.\<close>

lemma watchdog_yields:
  assumes "read_frame m demo_sp 13 = 1"
  obtains y sp' where "trap_handler (demo_env 0) 8 demo_sp 0 (demo_kernel\<lparr>ram := m\<rparr>) = (y, Ok sp')" "current y 0 = 1"
    "switch_frame 0 (call_state (demo_env 0) demo_sp 0 (demo_kernel\<lparr>ram := m\<rparr>)) y"
    "kstate y 0 1 = Some Running"
proof -
  let ?c = "call_state (demo_env 0) demo_sp 0 (demo_kernel\<lparr>ram := m\<rparr>)"
  have k: "kinv demo_layout ?c" using demo_kernel_facts(1) by simp
  have st: "kstate ?c 0 1 = Some Ready" "current ?c 0 = 0"
    by (simp_all add: kstate_def tcb_at_def demo_kernel_facts start_on_def slot_upd_slot boot_slots new_tcb_def)
  have u: "usable 0 (sched_lock ?c)" by (simp add: demo_kernel_facts usable_def spinlock_new_def)
  let ?sl = "acquired 0 (sched_lock ?c)"
  have "wp (switch_task (demo_env 0) demo_sp False) (\<lambda>sp' y. switch_frame 0 (?c\<lparr>sched_lock := ?sl\<rparr>) y \<and> current y 0 = 1
    \<and> kstate y 0 1 = Some Running) (\<lambda>_ _. False) (?c\<lparr>sched_lock := ?sl\<rparr>)"
    using switch_to_next_slot [of "demo_env 0" "?c\<lparr>sched_lock := ?sl\<rparr>" 1 demo_sp] k st by simp
  then have "wp (switch_task (demo_env 0) demo_sp False) (\<lambda>sp' y. sched_lock y = ?sl \<and>
      (let y' = y\<lparr>sched_lock := sched_lock ?c\<rparr> in switch_frame 0 ?c y' \<and> current y' 0 = 1 \<and> kstate y' 0 1 = Some Running))
    (\<lambda>_ _. False) (?c\<lparr>sched_lock := ?sl\<rparr>)"
    by (rule wp_mono) (auto simp: Let_def dest: switch_frame_sched_lock switch_frame_fields(2))
  then have "wp (sys_yield (demo_env 0) demo_sp) (\<lambda>sp' y. switch_frame 0 ?c y \<and> current y 0 = 1 \<and> kstate y 0 1 = Some Running)
    (\<lambda>_ _. False) ?c"
    unfolding sys_yield_def by (intro sched_guard_wp) (use u in \<open>simp_all add: Let_def\<close>)
  then show thesis using that assms by (auto simp: wp_no_panic trap_syscall)
qed

lemma reach_store: "reach (booted L) (kernel_step L) s \<Longrightarrow> reach (booted L) (kernel_step L) (s\<lparr>ram := m\<rparr>)"
  by (erule reach_step) (rule user_store)

lemma reach_trap:
  "reach (booted demo_layout) (kernel_step demo_layout) s \<Longrightarrow> trap_handler (demo_env h) mcause sp start s = (s', Ok sp') \<Longrightarrow> h < 2 \<Longrightarrow>
     reach (booted demo_layout) (kernel_step demo_layout) s'"
  by (erule reach_step) (auto intro!: kernel_step.trap [where e = "demo_env h"])

text \<open>In a reachable state with free locks the running task can make a call, with the capabilities of the boot.\<close>

lemma reachable_call:
  assumes "reach (booted demo_layout) (kernel_step demo_layout) s" "h < 2" "current s h = i" "kstate s h i = Some Running"
    and "sched_lock s = spinlock_new" "boot_identities (h, i) = Some (prio, name, caps)"
  obtains tcb where "tcb_at s h i = Some tcb" "capabilities tcb = caps"
    "in_call n (demo_env h) sp tcb s \<longleftrightarrow> read_frame (ram s) sp 13 = n"
proof -
  have i: "kinv demo_layout s" "mutex_lock s = spinlock_new" using sys.reach_inv [OF assms(1)] by (simp_all add: sys_inv_def)
  obtain tcb where t: "tcb_at s h i = Some tcb" "task_state tcb = Running" using assms(4) by (auto simp: kstate_def)
  moreover have "capabilities tcb = caps"
    using authority.reach_inv [OF assms(1)] assms(2,6) t(1) by (auto simp: confined_def task_allowed_def identity_def)
  ultimately show thesis using that [of tcb] i assms by (auto simp: in_call_def locks_ok_def usable_def spinlock_new_def)
qed

lemma switch_frame_runnable:
  assumes f: "switch_frame h s s'" and t: "tcb_at s' h' k = Some t"
    and r: "\<And>t. tcb_at s h' k = Some t \<Longrightarrow> task_state t = Ready \<or> task_state t = Running"
  shows "task_state t = Ready \<or> task_state t = Running"
proof (cases "tcb_at s h' k")
  case None
  have "tcb_at s' h' k = None"
  proof (cases "h' = h")
    case True
    have "case tcb_at s h k of None \<Rightarrow> tcb_at s' h k = None | Some t \<Rightarrow> \<exists>t'. tcb_at s' h k = Some t' \<and> rescheduled t t'"
      using f unfolding switch_frame_def by blast
    then show ?thesis using None True by simp
  next
    case False
    then show ?thesis using f None by (simp add: switch_frame_def tcb_at_def)
  qed
  then show ?thesis using t by simp
next
  case (Some t0)
  then have "kstate s h' k \<in> {Some Ready, Some Running}" using r by (auto simp: kstate_def)
  then show ?thesis using switch_frame_kstate(2) [OF f, of h' k] t by (auto simp: kstate_def)
qed

text \<open>Then Task B waits for a message, and Task A is about to send one.\<close>

lemma message_run:
  obtains s tcb where "reach (booted demo_layout) (kernel_step demo_layout) s" "in_call 6 (demo_env 0) demo_sp tcb s"
    "capabilities tcb = task_a_caps" "current s 0 = 1" "kstate s 1 2 = Some (BlockedOnIpcRecv 0 0x3FC84000 8)"
    "ram s = call_ram 6 1 0x3FC85000 4"
proof -
  let ?R = "reach (booted demo_layout) (kernel_step demo_layout)"
  let ?m1 = "call_ram 1 0 0 0" and ?m2 = "call_ram 7 0 0x3FC84000 8" and ?m3 = "call_ram 6 1 0x3FC85000 4"
  let ?d = "demo_kernel\<lparr>ram := ?m1\<rparr>" and ?st = "BlockedOnIpcRecv 0 0x3FC84000 8"
  obtain y sp1 where y: "trap_handler (demo_env 0) 8 demo_sp 0 ?d = (y, Ok sp1)" "current y 0 = 1"
    "switch_frame 0 (call_state (demo_env 0) demo_sp 0 ?d) y" "kstate y 0 1 = Some Running"
    using watchdog_yields [of ?m1] by auto
  let ?s = "y\<lparr>ram := ?m2\<rparr>"
  have Rs: "?R ?s" by (rule reach_store [OF reach_trap [OF reach_store [OF demo_reach] y(1)]]) simp
  have d: "task_state t = Ready \<or> task_state t = Running" if "h < 2" "tcb_at ?d h k = Some t" for h k t
    using that boot_table_ready [of 0 demo_layout k t] boot_table_ready [of 1 demo_layout k t]
    by (auto simp: tcb_at_def demo_kernel_facts start_on_def slot_upd_slot less_2_cases_iff split: if_splits)
  note F = switch_frame_kstate [OF y(3)] switch_frame_fields [OF y(3)]
  have runnable: "task_state t = Ready \<or> task_state t = Running" if "h < 2" "tcb_at ?s h k = Some t" for h k t
    using switch_frame_runnable [OF y(3), of h k t] that d by simp
  have one: "current ?s 1 = 2" "kstate ?s 1 2 = Some Running" "sched_lock ?s = spinlock_new"
    using y(3) F(3) [of 1 2] F(5)
    by (simp_all add: switch_frame_def kstate_def tcb_at_def demo_kernel_facts start_on_def slot_upd_slot boot_slots set_state_def)
  obtain b where b: "tcb_at ?s 1 2 = Some b" "capabilities b = task_b_caps" "in_call 7 (demo_env 1) demo_sp b ?s"
    by (rule reachable_call [OF Rs _ one, of 2 "''Task B''" task_b_caps 7 demo_sp]) (simp_all add: boot_identities_def)
  have p: "partner send_wait 0 ?s = None"
    using runnable by (force simp: partner_def find_None_iff waits_for_def split: option.splits)
  obtain z sp2 where z: "trap_handler (demo_env 1) 8 demo_sp 0 ?s = (z, Ok sp2)"
    "switch_frame 1 (upd_tcb 1 2 (set_state ?st) (call_state (demo_env 1) demo_sp 0 ?s)) z"
    using ipc_blocks_without_partner [OF b(3), of 0 ?st 0] b(2) one(1) p by (auto simp: granted_def task_b_caps_def)
  have Rz: "?R (z\<lparr>ram := ?m3\<rparr>)" by (rule reach_store [OF reach_trap [OF Rs z(1)]]) simp
  have len: "length (schedulers ?s) = 2" using b(3) kinvD(1) [of demo_layout ?s 0] by (simp add: in_call_def)
  have wait: "kstate (z\<lparr>ram := ?m3\<rparr>) 1 2 = Some ?st"
    using switch_frame_kstate(1) [OF z(2), of 1 2 ?st] b(1) len by (simp add: kstate_upd_tcb) (simp add: kstate_def)
  have zero: "current (z\<lparr>ram := ?m3\<rparr>) 0 = 1" "kstate (z\<lparr>ram := ?m3\<rparr>) 0 1 = Some Running" "sched_lock (z\<lparr>ram := ?m3\<rparr>) = spinlock_new"
    using z(2) y(2,4) switch_frame_kstate(3) [OF z(2), of 0 1] switch_frame_fields(2) [OF z(2)] one(3) len
    by (simp_all add: switch_frame_def kstate_upd_tcb)
  obtain a where "capabilities a = task_a_caps" "in_call 6 (demo_env 0) demo_sp a (z\<lparr>ram := ?m3\<rparr>)"
    by (rule reachable_call [OF Rz _ zero, of 1 "''Task A''" task_a_caps 6 demo_sp]) (simp_all add: boot_identities_def)
  then show thesis using that Rz zero(1) wait by simp
qed

section \<open>Properties\<close>

text \<open>C4: no trap, no fault of the handler, no watchdog action changes who a task is or what it may do. In every reachable state
  each slot holds the task that the boot registered there, with the name, the priority and the capability table
  the boot gave it, and a slot the boot left empty is empty; a task waits for a mutex or at an endpoint only with a
  capability for it; and the owner and the waiters of a mutex all hold a lock capability for it. This is about
  the kernel's code: tasks that store into the kernel's statics, which the PMP does not prevent, are outside.\<close>

theorem reachable_authority:
  assumes "reach (booted L) (kernel_step L) s"
  shows "(\<forall>h i. h < 2 \<longrightarrow>
       map_option (\<lambda>tcb. (priority tcb, task_name tcb, capabilities tcb)) (tcb_at s h i) = boot_identities (h, i)
       \<and> (\<forall>tcb. tcb_at s h i = Some tcb \<longrightarrow> wait_allowed (h, i) (task_state tcb)))
   \<and> (\<forall>k m. slot (mutexes s) k = Some m \<longrightarrow> mutex_allowed k m)"
proof -
  have "confined s" using authority.reach_inv [OF assms] .
  moreover have "map_option (\<lambda>tcb. (priority tcb, task_name tcb, capabilities tcb)) entry = map_option identity entry" for entry
    by (cases entry) (simp_all add: identity_def)
  ultimately show ?thesis by (simp add: confined_def task_allowed_def)
qed

theorem reachable_authority_witness:
  "mutex_allowed 0 \<lparr>locked = False, owner_task_idx = None, waiters_bitmap = 0\<rparr>
   \<and> map_option task_name (tcb_at demo_kernel 1 2) = Some ''Task B'' \<and> map_option capabilities (tcb_at demo_kernel 1 2) = Some task_b_caps
   \<and> tcb_at demo_kernel 1 5 = None \<and> slot (mutexes demo_kernel) 0 \<noteq> None"
proof -
  have m: "slot (mutexes demo_kernel) 0 = Some \<lparr>locked = False, owner_task_idx = None, waiters_bitmap = 0\<rparr>"
    by (simp add: demo_kernel_facts MUTEXES_def slot_def)
  note A = reachable_authority [OF demo_reach]
  have "mutex_allowed 0 \<lparr>locked = False, owner_task_idx = None, waiters_bitmap = 0\<rparr>" using A m by blast
  moreover have "boot_identities (1, 2) = Some (2, ''Task B'', task_b_caps)" "boot_identities (1, 5) = None"
    by (simp_all add: boot_identities_def)
  ultimately show ?thesis
    using A [THEN conjunct1, rule_format, of 1 2] A [THEN conjunct1, rule_format, of 1 5] m
    by (cases "tcb_at demo_kernel 1 2") auto
qed



end
