(* ===== verification/Watchdog_Verdict.thy ===== *)
theory Watchdog_Verdict
  imports User_Calls Confinement
begin

text \<open>
  What a turn of the watchdog does: which task its health check names, what happens to that task, to the mutexes it
  held and to its check-in record, and what the restart means for the next check.
\<close>

section \<open>The specification of the check\<close>

text \<open>The monitored tasks in the order of the checks, and what makes one fail.\<close>

definition monitored :: "(nat \<times> nat) list" where
  "monitored = [(0, 1), (1, 2), (1, 3), (0, 4)]"

definition overdue :: "u32 \<Rightarrow> kernel \<Rightarrow> nat \<times> nat \<Rightarrow> bool" where
  "overdue tick s = (\<lambda>(h, i). case tcb_at s h i of
       None \<Rightarrow> False
     | Some tcb \<Rightarrow> task_state tcb \<noteq> Terminated \<and> checkin_failed tick (last_checkin_tick s ! i))"

definition named :: "kernel \<Rightarrow> nat \<times> nat \<Rightarrow> string" where
  "named s = (\<lambda>(h, i). case tcb_at s h i of None \<Rightarrow> [] | Some tcb \<Rightarrow> task_name tcb)"

section \<open>The verdict\<close>

lemma peek_tcb_run:
  assumes k: "kinv L s" and i: "h < 2" "i < 32"
  shows "peek_tcb h i s = (s, Ok (tcb_at s h i))"
  using kinv_table_length [OF k i(1)] kinvD(1) [OF k i(1)] i by (simp add: peek_tcb_def sched_of_def kdefs tcb_at_def slot_nth)

lemma check_task_run:
  assumes k: "kinv L s" and i: "h < 2" "i < 32"
  shows "check_task tick h i f s = (s, Ok (if overdue tick s (h, i) then Some (named s (h, i)) else f))"
proof -
  have "length (last_checkin_tick s) = 32" using kinvD(3) [OF k, of 0] by simp
  then show ?thesis
    using i peek_tcb_run [OF k i] by (simp add: check_task_def kbind_eval kret_def kgets_def kindex_def overdue_def named_def split: option.split)
qed

lemma health_check_run:
  assumes "kinv L s"
  shows "health_check tick s = (s, Ok (case rev (filter (overdue tick s) monitored) of
      [] \<Rightarrow> None
    | task # _ \<Rightarrow> Some (named s task)))"
  using check_task_run [OF assms]
  by (simp add: health_check_def kbind_eval monitored_def)

lemma elapsed_wraps: "lc \<noteq> 0 \<Longrightarrow> checkin_failed (lc + d) lc \<longleftrightarrow> 200 < d"
  by (simp add: checkin_failed_def Let_def)

lemma first_deadline: "checkin_failed tick 0 \<longleftrightarrow> 1000 < tick"
  by (simp add: checkin_failed_def Let_def)

section \<open>Restarts\<close>

definition restarted :: "nat \<Rightarrow> nat \<Rightarrow> usize \<Rightarrow> usize \<Rightarrow> kernel \<Rightarrow> kernel" where
  "restarted h i stack fn s = upd_tcb h i (\<lambda>tcb. set_state Ready (tcb\<lparr>saved_sp := frame_top stack\<rparr>))
     (s\<lparr>ram := fst (initialize_stack stack 1024 fn (ram s)), last_checkin_tick := (last_checkin_tick s)[i := 0]\<rparr>)"

lemma restart_slot_run:
  assumes "kinv L s" "i < 32"
  shows "restart_slot h i stack fn s = (restarted h i stack fn s, Ok ())"
  using kinvD(3) [OF assms(1), of 0] assms(2)
  by (simp add: restart_slot_def restarted_def kbind_eval kseq_def kmodify_def kgets_def kindex_def init_task_stack_run upd_tcb_checkin)

lemma restarted_fields [simp]:
  "mutexes (restarted h i stack fn s) = mutexes s" "sched_lock (restarted h i stack fn s) = sched_lock s"
  "test_counter (restarted h i stack fn s) = test_counter s"
  "last_checkin_tick (restarted h i stack fn s) = (last_checkin_tick s)[i := 0]"
  by (simp_all add: restarted_def upd_tcb_def upd_sched_def)

lemma restarted_kinv: "kinv L s \<Longrightarrow> h < 2 \<Longrightarrow> kinv L (restarted h i stack fn s)"
  unfolding restarted_def
  by (rule kinv_upd_tcb)
    (simp_all add: benign_def kinv_cong [of "s\<lparr>ram := m, last_checkin_tick := (last_checkin_tick s)[i := 0]\<rparr>" s for m])

lemma tcb_at_restarted:
  assumes "h < length (schedulers s)"
  shows "tcb_at (restarted h i stack fn s) h' j = (if (h', j) = (h, i)
      then map_option (\<lambda>tcb. set_state Ready (tcb\<lparr>saved_sp := frame_top stack\<rparr>)) (tcb_at s h i) else tcb_at s h' j)"
proof -
  have "tcb_at (s\<lparr>ram := m, last_checkin_tick := ts\<rparr>) = tcb_at s" for m ts by (simp add: tcb_at_def fun_eq_iff)
  then show ?thesis using assms by (auto simp: restarted_def tcb_at_upd_tcb)
qed

lemma kstate_restarted:
  "h < length (schedulers s) \<Longrightarrow> kstate (restarted h i stack fn s) h' j =
     (if (h', j) = (h, i) then map_option (\<lambda>_. Ready) (kstate s h i) else kstate s h' j)"
  by (cases "tcb_at s h i") (auto simp: kstate_def tcb_at_restarted)

lemma restart_hsm_run:
  assumes "kinv L s"
  shows "restart_hsm L ep s = (if kstate s 0 4 = Some Terminated then restarted 0 4 (HSM_STACK L) (hsm_task ep) s else s, Ok ())"
  using peek_tcb_run [OF assms, of 0 4] restart_slot_run [OF assms, of 4]
  by (simp add: restart_hsm_def kbind_eval kret_def kstate_def split: option.split)

lemma restart_task_c_run:
  assumes "kinv L s"
  shows "restart_task_c L ep s = (if kstate s 1 3 = Some Terminated \<and> test_counter s < 2
     then restarted 1 3 (TASK_C_STACK L) (task_c ep) (s\<lparr>test_counter := test_counter s + 1\<rparr>) else s, Ok ())"
proof -
  have "kinv L (s\<lparr>test_counter := n\<rparr>)" for n using assms kinv_cong [of "s\<lparr>test_counter := n\<rparr>" s] by simp
  then show ?thesis
    using peek_tcb_run [OF assms, of 1 3] restart_slot_run [of L _ 3]
    by (simp add: restart_task_c_def kbind_eval kret_def kstate_def kgets_def kseq_def kmodify_def split: option.split)
qed

section \<open>The termination\<close>

lemma test_counter_recovered [simp]: "test_counter (recovered task k s) = test_counter s"
  by (simp add: recovered_def upd_tcb_def upd_sched_def split: option.split)

lemma test_counter_killed [simp]: "test_counter (killed h i s) = test_counter s"
proof -
  have "test_counter (fold (recovered i) ks t) = test_counter t" for ks t by (induction ks arbitrary: t) simp_all
  then show ?thesis by (simp add: killed_def recovered_all_def upd_tcb_def upd_sched_def)
qed

lemma entered_kinv [simp]:
  "kinv L (entered e start c s) = kinv L s" "locks_ok h (entered e start c s) = locks_ok h s"
  "waits_nowhere i (entered e start c s) = waits_nowhere i s" "target_hart p (entered e start c s) = target_hart p s"
  "test_counter (entered e start c s) = test_counter s" "mutexes (entered e start c s) = mutexes s"
  "sched_lock (entered e start c s) = sched_lock s" "mutex_lock (entered e start c s) = mutex_lock s"
proof -
  show "kinv L (entered e start c s) = kinv L s" by (rule kinv_cong) (simp_all add: entered_def call_state_def)
qed (simp_all add: entered_def call_state_def locks_ok_def waits_nowhere_def target_hart_def tcb_at_def)

lemma terminate_call_run:
  assumes k: "kinv (stacks e) s" "locks_ok (hart_id e) s" "hart_id e < 2"
    and f: "target_hart prio s = Some fh" "i = unat prio" "(fh, i) \<noteq> (hart_id e, current s (hart_id e))" "waits_nowhere i s"
    and c: "c' = c\<lparr>regs := (regs c)(17 := 8, 10 := prio)\<rparr>" "sp = regs c 2 - 128"
  shows "sys_terminate_task e start c prio s = (after_terminate e sp fh i (entered e start c' s), Ok sp)"
proof -
  have sp: "sp = regs c' 2 - 128" by (simp add: c)
  let ?s = "s\<lparr>ram := fst (trap_entry_save c' (ram s))\<rparr>" and ?k = "entered e start c' s"
  have id: "read_frame (ram ?s) sp 13 = 8" and arg: "read_frame (ram ?k) sp 6 = prio"
    using entry_frame(4) [OF trap_entry_pair [of c' "ram s"]] entered_frame(1) [OF sp, of e start s] by (simp_all add: c)
  have "trap_handler e 8 sp start ?s = sys_terminate e sp ?k" using id by (simp add: trap_syscall entered_def sp)
  moreover have "sys_terminate e sp ?k = (after_terminate e sp fh i ?k, Ok sp)"
    using terminate_run [of e ?k i sp fh] k f arg by (auto split: if_splits)
  ultimately show ?thesis
    unfolding sys_terminate_task_def ecall_def c(1) [symmetric] by (subst trap_entry_pair) (simp add: sp)
qed

text \<open>The turn after the verdict, with the lock taken.\<close>

lemma restarts_run:
  assumes k: "kinv L s"
  shows "\<exists>s'. kseq (restart_task_c L ep) (restart_hsm L ep) s = (s', Ok ()) \<and> kinv L s'
     \<and> mutexes s' = mutexes s \<and> sched_lock s' = sched_lock s
     \<and> (\<forall>h i. kstate s h i = Some Terminated \<longrightarrow> kstate s' h i =
          Some (if (h, i) = (0, 4) \<or> (h, i) = (1, 3) \<and> test_counter s < 2 then Ready else Terminated))"
proof -
  have len: "length (schedulers s) = 2" using kinvD(1) [OF k, of 0] by simp
  let ?t = "s\<lparr>test_counter := test_counter s + 1\<rparr>"
  have kt: "kinv L ?t" "schedulers ?t = schedulers s" using k kinv_cong [of ?t s] by simp_all
  define s1 where "s1 = (if kstate s 1 3 = Some Terminated \<and> test_counter s < 2
     then restarted 1 3 (TASK_C_STACK L) (task_c ep) ?t else s)"
  have s1: "kinv L s1" "mutexes s1 = mutexes s" "sched_lock s1 = sched_lock s"
    using k kt restarted_kinv len by (simp_all add: s1_def)
  have kst: "kstate ?t = kstate s" by (simp add: kstate_def tcb_at_def fun_eq_iff)
  have st1: "kstate s1 h i = (if (h, i) = (1, 3) \<and> kstate s 1 3 = Some Terminated \<and> test_counter s < 2 then Some Ready else kstate s h i)" for h i
    using len kstate_restarted [of 1 ?t] by (auto simp: s1_def kst)
  define s2 where "s2 = (if kstate s1 0 4 = Some Terminated then restarted 0 4 (HSM_STACK L) (hsm_task ep) s1 else s1)"
  have "kseq (restart_task_c L ep) (restart_hsm L ep) s = (s2, Ok ())"
    using restart_task_c_run [OF k, of ep] restart_hsm_run [OF s1(1), of ep] by (simp add: kseq_def kbind_eval s1_def s2_def)
  moreover have "kinv L s2" "mutexes s2 = mutexes s" "sched_lock s2 = sched_lock s" using s1 restarted_kinv by (simp_all add: s2_def)
  moreover have "length (schedulers s1) = 2" using kinvD(1) [OF s1(1), of 0] by simp
  then have st2: "kstate s2 h i = (if (h, i) = (0, 4) \<and> kstate s 0 4 = Some Terminated then Some Ready else kstate s1 h i)" for h i
    using kstate_restarted [of 0 s1] st1 [of 0 4] by (auto simp: s2_def)
  moreover have "kstate s h i = Some Terminated \<Longrightarrow> kstate s2 h i =
      Some (if (h, i) = (0, 4) \<or> (h, i) = (1, 3) \<and> test_counter s < 2 then Ready else Terminated)" for h i
    using st2 [of h i] st1 [of h i] by auto
  ultimately show ?thesis by (intro exI [of _ s2]) simp
qed

text \<open>The names that the boot gave lead from the verdict back to the slot.\<close>

lemma monitored_target:
  assumes c: "confined s" and m: "(h, i) \<in> set monitored"
  shows "unat (failed_prio (named s (h, i))) = i" "target_hart (failed_prio (named s (h, i))) s = Some h"
proof -
  have id: "map_option identity (tcb_at s h' j) = boot_identities (h', j)" if "h' < 2" for h' j
    using c that by (simp add: confined_def task_allowed_def)
  have h: "h < 2" using m by (auto simp: monitored_def)
  have named: "named s (h, i) = (case boot_identities (h, i) of None \<Rightarrow> [] | Some (_, name, _) \<Rightarrow> name)"
    using id [OF h, of i, symmetric] by (cases "tcb_at s h i") (simp_all add: named_def identity_def)
  have there: "tcb_at s h' j = None \<longleftrightarrow> boot_identities (h', j) = None" if "h' < 2" for h' j
    using id [OF that, of j, symmetric] by (cases "tcb_at s h' j") simp_all
  show "unat (failed_prio (named s (h, i))) = i" "target_hart (failed_prio (named s (h, i))) s = Some h"
    using m there [of 0] there [of 1]
    by (auto simp: named monitored_def boot_identities_def failed_prio_def target_hart_def)
qed

text \<open>A kernel at tick 300 in which every task but Task B checked in 100 ticks ago.\<close>

definition late_kernel :: kernel where
  "late_kernel = (demo_at 0 2 free_mutex (\<lambda>_. 0))\<lparr>tick_count := 300, last_checkin_tick := (replicate 32 200)[2 := 50]\<rparr>"

lemma late_kernel_facts:
  "kinv demo_layout late_kernel" "sched_lock late_kernel = spinlock_new" "mutex_lock late_kernel = spinlock_new"
  "current late_kernel 0 = 0" "tick_count late_kernel = 300"
  "rev (filter (overdue 300 late_kernel) monitored) = [(1, 2)]" "named late_kernel (1, 2) = ''Task B''"
  "confined late_kernel" "waits_nowhere 2 late_kernel"
proof -
  have tcb: "tcb_at late_kernel = tcb_at (demo_at 0 2 free_mutex (\<lambda>_. 0))"
    by (simp add: late_kernel_def tcb_at_def fun_eq_iff)
  have "kinv demo_layout (demo_at 0 2 free_mutex (\<lambda>_. 0))" by (simp add: demo_kinv)
  then show "kinv demo_layout late_kernel" using kinv_cong [of late_kernel "demo_at 0 2 free_mutex (\<lambda>_. 0)"] by (simp add: late_kernel_def)
  have l: "last_checkin_tick late_kernel = (replicate 32 200)[2 := 50]" by (simp add: late_kernel_def)
  show "rev (filter (overdue 300 late_kernel) monitored) = [(1, 2)]"
    by (simp add: monitored_def overdue_def tcb demo_tcb_at l checkin_failed_def Let_def)
  show "named late_kernel (1, 2) = ''Task B''" by (simp add: named_def tcb demo_tcb_at)
  have "task_allowed (h, k) (tcb_at late_kernel h k)" if "h < 2" for h k
    using booted_allowed [OF that, of k _ demo_layout] that by (auto simp: tcb_at_def late_kernel_def demo_at_def less_2_cases_iff)
  moreover have "mutex_allowed k m" if "slot (MUTEXES[0 := Some free_mutex]) k = Some m" for k m
    using that by (auto simp: MUTEXES_def slot_def nth_Cons mutex_allowed_def free_mutex_def split: if_splits nat.splits)
  ultimately show "confined late_kernel" by (simp add: confined_def late_kernel_def)
  show "waits_nowhere 2 late_kernel"
    by (auto simp: late_kernel_def waits_nowhere_def MUTEXES_def slot_def nth_Cons free_mutex_def split: if_splits nat.splits)
qed (simp_all add: late_kernel_def)

section \<open>Properties\<close>

text \<open>C23: the verdict of the watchdog's health check, on every tick count. It changes nothing and names the last task,
  in the order of the checks, that is overdue; a task is overdue when it is registered, not terminated, and its last
  check-in is more than 200 ticks ago, also across the wrap-around of the tick counter, or when it has not
  checked in and the counter is above 1000.\<close>

theorem watchdog_verdict:
  assumes "kinv L s"
  shows "health_check tick s = (s, Ok (case rev (filter (overdue tick s) monitored) of
      [] \<Rightarrow> None
    | task # _ \<Rightarrow> Some (named s task)))
    \<and> (\<forall>lc d. lc \<noteq> 0 \<longrightarrow> checkin_failed (lc + d) lc = (200 < d))
    \<and> (\<forall>t. checkin_failed t 0 = (1000 < t))"
  using health_check_run [OF assms] elapsed_wraps first_deadline by simp

theorem watchdog_verdict_witness:
  "health_check 300 late_kernel = (late_kernel, Ok (Some ''Task B''))"
  using watchdog_verdict [OF late_kernel_facts(1), of 300] late_kernel_facts(6,7) by simp

text \<open>C22: a turn of the watchdog, on core 0 with the locks free, deals with the task its check names. The task is
  terminated, with its mutexes passed on as after a fault; the HSM task, and Task C in the first two tests, are made
  ready again in the same turn. The kernel invariant and the confinement hold in every reachable state; the
  last hypothesis says that the task waits on no mutex.\<close>

theorem watchdog_round_enforces:
  assumes "kinv (stacks e) s" "sched_lock s = spinlock_new" "mutex_lock s = spinlock_new" "hart_id e = 0" "current s 0 = 0"
    and "rev (filter (overdue (tick_count s) s) monitored) = (h, i) # others"
    and "confined s" "waits_nowhere i s"
  shows "\<exists>s'. watchdog_round e start c ep s = (s', Ok ()) \<and> kinv (stacks e) s' \<and> sched_lock s' = spinlock_new
     \<and> kstate s' h i = Some (if (h, i) = (0, 4) \<or> (h, i) = (1, 3) \<and> test_counter s < 2 then Ready else Terminated)
     \<and> (\<forall>k. slot (mutexes s') k = map_option (recover_of i) (slot (mutexes s) k))"
proof -
  let ?p = "failed_prio (named s (h, i))" and ?sp = "regs c 2 - 128" and ?L = "stacks e"
  let ?s0 = "s\<lparr>sched_lock := taken 0\<rparr>" and ?c = "c\<lparr>regs := (regs c)(17 := 8, 10 := ?p)\<rparr>"
  let ?k = "entered e start ?c ?s0"
  let ?A = "after_terminate e ?sp h i ?k"
  have same: "overdue (tick_count s) ?s0 = overdue (tick_count s) s" "named ?s0 = named s"
    by (simp_all add: overdue_def named_def tcb_at_def fun_eq_iff cong: option.case_cong)
  have k0: "kinv ?L ?s0" "locks_ok 0 ?s0" "waits_nowhere i ?s0" "target_hart x ?s0 = target_hart x s" for x
    using assms(1,3,8) taken_usable by (simp_all add: locks_ok_def waits_nowhere_def target_hart_def)
  have m: "(h, i) \<in> set monitored" using assms(6) by (metis filter_is_subset list.set_intros(1) set_rev subsetD)
  note target = monitored_target [OF assms(7) m]
  from m have i: "(h, i) \<noteq> (0, current s 0)" "h < 2" by (auto simp: monitored_def assms(5))
  have health: "health_check (tick_count s) ?s0 = (?s0, Ok (Some (named s (h, i))))"
    by (simp add: health_check_run [OF k0(1)] same assms(6))
  have kill: "sys_terminate_task e start c ?p ?s0 = (?A, Ok ?sp)"
    by (rule terminate_call_run) (use k0 i assms(4) target in simp_all)
  obtain t where t: "tcb_at ?k h i = Some t" using target_hart_Some [OF target(2)] target(1) by (auto simp: tcb_at_def)
  note K = killed_effect [of ?L ?k h i t, OF _ i(2) t]
  have A: "kinv ?L ?A" "kstate ?A h i = Some Terminated" "sched_lock ?A = taken 0" "test_counter ?A = test_counter s"
    "\<And>k. slot (mutexes ?A) k = map_option (recover_of i) (slot (mutexes s) k)"
    using kill_run(2) [of e ?k h i] K(1,2) k0 i(2) assms(3,4) by (simp_all add: after_terminate_def [of e ?sp h i ?k] locks_ok_def)
  obtain s' where r: "kseq (restart_task_c ?L ep) (restart_hsm ?L ep) ?A = (s', Ok ())" "kinv ?L s'"
    "mutexes s' = mutexes ?A" "sched_lock s' = sched_lock ?A"
    "kstate s' h i = Some (if (h, i) = (0, 4) \<or> (h, i) = (1, 3) \<and> test_counter ?A < 2 then Ready else Terminated)"
    using restarts_run [OF A(1), of ep] A(2) by blast
  have "watchdog_round e start c ep s = (s'\<lparr>sched_lock := sched_lock s\<rparr>, Ok ())"
    unfolding watchdog_round_def kbind_kgets
    by (rule sched_guard_run) (use assms(2) taken_usable r(1,4) A(3) health kill in
      \<open>simp_all add: kbind_eval kseq_def [of "kbind _ _"] kret_def usable_def spinlock_new_def\<close>)
  moreover have "kinv ?L (s'\<lparr>sched_lock := l\<rparr>)" for l using r(2) by simp
  ultimately show ?thesis using r(3,5) A assms(2) by (auto simp: kstate_def tcb_at_def)
qed

theorem watchdog_round_enforces_witness:
  "\<exists>s'. watchdog_round (demo_env 0) 0 \<lparr>regs = (\<lambda>_. 0)(2 := 0x3FC90700), mepc = 0, mstatus = 0\<rparr> demo_entries late_kernel
     = (s', Ok ()) \<and> kstate s' 1 2 = Some Terminated"
  using watchdog_round_enforces [of "demo_env 0" late_kernel 1 2 "[]" 0 "\<lparr>regs = (\<lambda>_. 0)(2 := 0x3FC90700), mepc = 0, mstatus = 0\<rparr>"
      demo_entries] late_kernel_facts
  by (auto simp: failed_prio_def)

text \<open>C40: the restart of the HSM task gives it no grace period: the task is ready at its entry point with its check-in
  record cleared, and from tick 1001 of the uptime on every check that comes before its first check-in finds it
  overdue, however short the time since the restart.\<close>

theorem restarted_task_is_overdue:
  assumes "kinv L s" "tcb_at s 0 4 = Some tcb" "task_state tcb = Terminated" "1000 < tick"
  shows "\<exists>s'. restart_hsm L ep s = (s', Ok ()) \<and> kstate s' 0 4 = Some Ready
     \<and> last_checkin_tick s' ! 4 = 0 \<and> snd (health_check tick s') = Ok (Some (task_name tcb))"
proof -
  let ?s' = "restarted 0 4 (HSM_STACK L) (hsm_task ep) s"
  have len: "0 < length (schedulers s)" "length (last_checkin_tick s) = 32" using kinvD(1,3) [OF assms(1), of 0] by simp_all
  have k: "kinv L ?s'" by (rule restarted_kinv [OF assms(1)]) simp
  have t: "tcb_at ?s' 0 4 = Some (set_state Ready (tcb\<lparr>saved_sp := frame_top (HSM_STACK L)\<rparr>))"
    using assms(2) len by (simp add: tcb_at_restarted)
  moreover from this have "overdue tick ?s' (0, 4)" using assms(4) len by (simp add: overdue_def first_deadline)
  then have "snd (health_check tick ?s') = Ok (Some (named ?s' (0, 4)))"
    by (simp only: health_check_run [OF k] monitored_def filter.simps) simp
  ultimately show ?thesis
    using restart_hsm_run [OF assms(1)] assms(2,3) len by (intro exI [of _ ?s']) (simp add: kstate_def named_def)
qed

theorem restarted_task_is_overdue_witness:
  "\<exists>s'. restart_hsm demo_layout demo_entries (upd_tcb 0 4 (set_state Terminated) (demo_at 0 2 free_mutex (\<lambda>_. 0))) = (s', Ok ())
     \<and> kstate s' 0 4 = Some Ready \<and> snd (health_check 1001 s') = Ok (Some ''HSM Task'')"
proof -
  let ?s = "upd_tcb 0 4 (set_state Terminated) (demo_at 0 2 free_mutex (\<lambda>_. 0))"
  let ?t = "set_state Terminated (new_tcb (frame_top (HSM_STACK demo_layout)) 4 ''HSM Task'' hsm_caps)"
  have k: "kinv demo_layout ?s" by (rule kinv_upd_tcb) (simp_all add: demo_kinv)
  have "tcb_at ?s 0 4 = Some ?t" "task_state ?t = Terminated" by (simp_all add: tcb_at_upd_tcb demo_tcb_at)
  from restarted_task_is_overdue [OF k this, of 1001 demo_entries] show ?thesis by auto
qed

end
