(* ===== verification/Privilege.thy ===== *)
theory Privilege
  imports System Task_Control
begin

text \<open>
  The privilege mode and the control registers of a hart: what \<^verbatim>\<open>kmain\<close>, \<^verbatim>\<open>init_timer\<close> and \<^verbatim>\<open>start_first_task\<close>
  (\<^verbatim>\<open>kernel/src/main.rs\<close>) write to them, and how trap entry and exit (\<^verbatim>\<open>kernel/src/trap_entry.s\<close>) exchange the
  stack pointer with \<^verbatim>\<open>mscratch\<close> and restore \<^verbatim>\<open>mstatus\<close>. It is shown that the handler runs with interrupts off and
  tasks run in user mode, as long as the words of \<^verbatim>\<open>mstatus\<close> in the frames are those of a task; that the handler runs on the
  hart's own kernel stack until it faults itself, and on a task's frame from then on; and that the PMP lets tasks change
  the saved words of \<^verbatim>\<open>mstatus\<close>.
\<close>

section \<open>The hart\<close>

datatype privilege = User | Machine

record hart =
  priv_mode :: privilege
  xsp :: usize
  csr_mstatus :: usize
  csr_mie :: usize
  csr_mtvec :: usize
  csr_mscratch :: usize
  csr_mcounteren :: usize

text \<open>
  The rules of the privileged architecture: a trap saves the interrupt enable \<^verbatim>\<open>MIE\<close> (bit 3) to \<^verbatim>\<open>MPIE\<close>
  (bit 7) and the mode to \<^verbatim>\<open>MPP\<close> (bits 11 and 12); \<^verbatim>\<open>mret\<close> goes the other way. An interrupt that is pending
  in \<^verbatim>\<open>mip\<close> and enabled in \<^verbatim>\<open>mie\<close> is taken in user mode always, in machine mode when \<^verbatim>\<open>MIE\<close> is set.
\<close>

definition put_bit :: "nat \<Rightarrow> bool \<Rightarrow> usize \<Rightarrow> usize" where
  "put_bit n b w = (if b then set_bit n w else unset_bit n w)"

definition take_trap :: "hart \<Rightarrow> hart" where
  "take_trap c = (let m = csr_mstatus c; b = (priv_mode c = Machine) in
     c\<lparr>priv_mode := Machine,
       csr_mstatus := put_bit 12 b (put_bit 11 b (put_bit 3 False (put_bit 7 (bit m 3) m)))\<rparr>)"

definition mret :: "hart \<Rightarrow> hart" where
  "mret c = (let m = csr_mstatus c in
     c\<lparr>priv_mode := (if bit m 11 \<and> bit m 12 then Machine else User),
       csr_mstatus := put_bit 12 False (put_bit 11 False (put_bit 7 True (put_bit 3 (bit m 7) m)))\<rparr>)"

definition interrupt_taken :: "hart \<Rightarrow> usize \<Rightarrow> bool" where
  "interrupt_taken c mip \<longleftrightarrow> (priv_mode c = User \<or> bit (csr_mstatus c) 3) \<and> mip AND csr_mie c \<noteq> 0"

section \<open>Boot\<close>

definition set_trap_vector :: "usize \<Rightarrow> hart \<Rightarrow> hart" where
  "set_trap_vector trap_addr c = c\<lparr>csr_mtvec := trap_addr\<rparr>"

definition init_timer_csrs :: "hart \<Rightarrow> hart" where
  "init_timer_csrs c =
     (let c1 = c\<lparr>csr_mie := csr_mie c OR push_bit 7 1\<rparr>;
          c2 = c1\<lparr>csr_mstatus := csr_mstatus c1 OR push_bit 3 1\<rparr>
      in c2\<lparr>csr_mcounteren := 1\<rparr>)"

text \<open>Both boot paths write the vector and then initialise the timer.\<close>

definition kmain_csrs :: "usize \<Rightarrow> hart \<Rightarrow> hart" where
  "kmain_csrs trap_addr c = init_timer_csrs (set_trap_vector trap_addr c)"

definition start_first_task_csrs :: "usize \<Rightarrow> mem \<Rightarrow> usize \<Rightarrow> hart \<Rightarrow> hart" where
  "start_first_task_csrs kernel_stack_top m user_sp c =
     (let c1 = c\<lparr>csr_mscratch := kernel_stack_top\<rparr>;
          c2 = c1\<lparr>xsp := user_sp\<rparr>;
          c3 = c2\<lparr>csr_mstatus := read_frame m (xsp c2) 29\<rparr>
      in mret (c3\<lparr>xsp := xsp c3 + 128\<rparr>))"

section \<open>Trap entry and exit\<close>

text \<open>\<^verbatim>\<open>csrrw sp, mscratch, sp\<close>\<close>

definition csrrw_sp :: "hart \<Rightarrow> hart" where
  "csrrw_sp c = c\<lparr>xsp := csr_mscratch c, csr_mscratch := xsp c\<rparr>"

definition trap_entry_csrs :: "hart \<Rightarrow> hart" where
  "trap_entry_csrs c =
     (let c1 = csrrw_sp (csrrw_sp c);
          c2 = c1\<lparr>xsp := xsp c1 - 128\<rparr>
      in csrrw_sp c2)"

text \<open>\<open>a0\<close> is the result of the handler, which returns with the stack pointer it was called with.\<close>

definition trap_exit_csrs :: "mem \<Rightarrow> usize \<Rightarrow> hart \<Rightarrow> hart" where
  "trap_exit_csrs m a0 c =
     (let c1 = csrrw_sp (c\<lparr>csr_mscratch := a0\<rparr>);
          c2 = c1\<lparr>csr_mstatus := read_frame m (xsp c1) 29\<rparr>
      in mret (c2\<lparr>xsp := xsp c2 + 128\<rparr>))"

section \<open>The life of a hart\<close>

text \<open>The \<^verbatim>\<open>mstatus\<close> of a task: entered from user mode, interrupts to be enabled on return.\<close>

definition intact :: "usize \<Rightarrow> bool" where
  "intact w \<longleftrightarrow> bit w 7 \<and> \<not> bit w 3 \<and> \<not> bit w 11 \<and> \<not> bit w 12"

datatype phase = In_Task | In_Handler

text \<open>A hart, where it is, and the stack that the next trap from a task will run the handler on. \<open>nested\<close> and
  \<open>forged\<close> record what has happened: a trap inside the handler, a frame whose \<^verbatim>\<open>mstatus\<close> was not that of a task.\<close>

record hart_life =
  cpu :: hart
  stage :: phase
  home :: usize
  nested :: bool
  forged :: bool

text \<open>The state in which the first task starts: the startup code of the runtime crate clears \<^verbatim>\<open>mie\<close>; what the
  other registers hold at reset is open.\<close>

definition hart_start :: "usize \<Rightarrow> usize \<Rightarrow> hart_life \<Rightarrow> bool" where
  "hart_start trap_addr kstack s \<longleftrightarrow> (\<exists>c m sp. csr_mie c = 0 \<and> intact (read_frame m sp 29)
     \<and> s = \<lparr>cpu = start_first_task_csrs kstack m sp (kmain_csrs trap_addr c), stage = In_Task, home = kstack,
            nested = False, forged = False\<rparr>)"

text \<open>A task moves its stack pointer as it likes; in user mode it reaches no control register, in machine mode it reaches all.
  A trap of any kind enters the handler. A trap inside the handler, with any stack pointer \<open>v\<close>, enters a
  second handler on what \<^verbatim>\<open>mscratch\<close> holds; the first is not resumed. The handler leaves with any frame.\<close>

inductive hart_step :: "hart_life \<Rightarrow> hart_life \<Rightarrow> bool" where
  task_runs: "stage s = In_Task \<Longrightarrow> hart_step s (s\<lparr>cpu := (cpu s)\<lparr>xsp := v\<rparr>\<rparr>)"
| task_in_machine_mode: "stage s = In_Task \<Longrightarrow> priv_mode (cpu s) = Machine \<Longrightarrow> hart_step s (s\<lparr>cpu := c\<rparr>)"
| enters: "stage s = In_Task \<Longrightarrow> hart_step s (s\<lparr>cpu := trap_entry_csrs (take_trap (cpu s)), stage := In_Handler\<rparr>)"
| nests: "stage s = In_Handler \<Longrightarrow> hart_step s (s\<lparr>cpu := trap_entry_csrs (take_trap ((cpu s)\<lparr>xsp := v\<rparr>)),
    home := csr_mscratch (cpu s), nested := True\<rparr>)"
| leaves: "stage s = In_Handler \<Longrightarrow> hart_step s (s\<lparr>cpu := trap_exit_csrs m a0 (cpu s), stage := In_Task,
    forged := forged s \<or> \<not> intact (read_frame m a0 29)\<rparr>)"

inductive_cases hart_stepE: "hart_step s t"

definition hart_inv :: "usize \<Rightarrow> usize \<Rightarrow> hart_life \<Rightarrow> bool" where
  "hart_inv trap_addr kstack s \<longleftrightarrow> forged s \<or> csr_mie (cpu s) = push_bit 7 1 \<and> csr_mtvec (cpu s) = trap_addr
     \<and> csr_mcounteren (cpu s) = 1 \<and> (\<not> nested s \<longrightarrow> home s = kstack)
     \<and> (case stage s of
          In_Task \<Rightarrow> priv_mode (cpu s) = User \<and> csr_mscratch (cpu s) = home s \<and> bit (csr_mstatus (cpu s)) 3
        | In_Handler \<Rightarrow> priv_mode (cpu s) = Machine \<and> xsp (cpu s) = home s \<and> \<not> bit (csr_mstatus (cpu s)) 3)"

text \<open>A hart at reset.\<close>

definition demo_hart :: hart where
  "demo_hart = \<lparr>priv_mode = Machine, xsp = 0, csr_mstatus = 0x1800, csr_mie = 0, csr_mtvec = 0, csr_mscratch = 0,
     csr_mcounteren = 0\<rparr>"

section \<open>Lemmas\<close>

lemma bit_put_bit: "n < 32 \<Longrightarrow> bit (put_bit n b w) k = (if k = n then b else bit w k)"
  by (auto simp: put_bit_def bit_set_bit_iff bit_unset_bit_iff)

lemma timer_enabled: "mip AND 128 \<noteq> 0 \<longleftrightarrow> bit mip 7" for mip :: usize
proof -
  have "bit (mip AND 2 ^ 7) n \<longleftrightarrow> n = 7 \<and> bit mip 7" for n
    by (auto simp only: bit_and_iff bit_exp_iff possible_bit_word dest: bit_imp_le_length)
  then have "mip AND 2 ^ 7 = 0 \<longleftrightarrow> \<not> bit mip 7" by (metis bit_eq_iff bit_0_eq bot_apply bot_bool_def)
  then show ?thesis by simp
qed

lemma trap_entry_effect:
  "csr_mscratch (trap_entry_csrs (take_trap c)) = xsp c - 128" "xsp (trap_entry_csrs (take_trap c)) = csr_mscratch c"
  "priv_mode (trap_entry_csrs (take_trap c)) = Machine" "\<not> bit (csr_mstatus (trap_entry_csrs (take_trap c))) 3"
  "csr_mie (trap_entry_csrs (take_trap c)) = csr_mie c" "csr_mtvec (trap_entry_csrs (take_trap c)) = csr_mtvec c"
  "csr_mcounteren (trap_entry_csrs (take_trap c)) = csr_mcounteren c"
  "intact (csr_mstatus (trap_entry_csrs (take_trap c))) \<longleftrightarrow> priv_mode c = User \<and> bit (csr_mstatus c) 3"
  by (auto simp: trap_entry_csrs_def take_trap_def csrrw_sp_def Let_def intact_def bit_put_bit) (cases "priv_mode c"; simp)

lemma mret_intact:
  assumes "intact (csr_mstatus c)"
  shows "priv_mode (mret c) = User" "bit (csr_mstatus (mret c)) 3"
  using assms by (simp_all add: mret_def intact_def Let_def bit_put_bit)

lemma mret_fields [simp]:
  "xsp (mret c) = xsp c" "csr_mie (mret c) = csr_mie c" "csr_mtvec (mret c) = csr_mtvec c"
  "csr_mscratch (mret c) = csr_mscratch c" "csr_mcounteren (mret c) = csr_mcounteren c"
  by (simp_all add: mret_def Let_def)

lemma trap_exit_effect:
  "csr_mscratch (trap_exit_csrs m a0 c) = xsp c" "csr_mie (trap_exit_csrs m a0 c) = csr_mie c"
  "csr_mtvec (trap_exit_csrs m a0 c) = csr_mtvec c" "csr_mcounteren (trap_exit_csrs m a0 c) = csr_mcounteren c"
  "intact (read_frame m a0 29) \<Longrightarrow> priv_mode (trap_exit_csrs m a0 c) = User"
  "intact (read_frame m a0 29) \<Longrightarrow> bit (csr_mstatus (trap_exit_csrs m a0 c)) 3"
  by (simp_all add: trap_exit_csrs_def csrrw_sp_def Let_def mret_intact)

lemma start_inv: "hart_start trap_addr kstack s \<Longrightarrow> hart_inv trap_addr kstack s"
  by (auto simp: hart_start_def hart_inv_def start_first_task_csrs_def kmain_csrs_def init_timer_csrs_def
      set_trap_vector_def Let_def mret_intact)

interpretation modes: inductive_invariant "hart_start trap_addr kstack" hart_step "hart_inv trap_addr kstack"
  for trap_addr kstack
proof
  fix s assume "hart_start trap_addr kstack s"
  then show "hart_inv trap_addr kstack s" by (rule start_inv)
next
  fix s t assume i: "hart_inv trap_addr kstack s" and "hart_step s t"
  from this(2) show "hart_inv trap_addr kstack t"
    by (cases rule: hart_stepE)
      (use i in \<open>auto simp: hart_inv_def trap_entry_effect trap_exit_effect\<close>)
qed

text \<open>The frame of a new task is intact.\<close>

lemma intact_initial: "intact 0x80"
  by (simp add: intact_def bit_simps)

text \<open>Between \<^verbatim>\<open>init_timer\<close> and \<^verbatim>\<open>start_first_task\<close> a timer interrupt is taken in machine mode, and the handler runs on
  whatever \<^verbatim>\<open>mscratch\<close> held at reset.\<close>

lemma early_interrupt_has_no_stack:
  "bit mip 7 \<Longrightarrow> interrupt_taken (kmain_csrs trap_addr c) mip"
  "xsp (trap_entry_csrs (take_trap (kmain_csrs trap_addr c))) = csr_mscratch c"
proof -
  assume "bit mip 7"
  then have "bit (mip AND (csr_mie c OR push_bit 7 1)) 7" by (simp add: bit_simps)
  then have "mip AND (csr_mie c OR push_bit 7 1) \<noteq> 0" by force
  then show "interrupt_taken (kmain_csrs trap_addr c) mip"
    by (simp add: interrupt_taken_def kmain_csrs_def init_timer_csrs_def set_trap_vector_def Let_def bit_simps)
next
  show "xsp (trap_entry_csrs (take_trap (kmain_csrs trap_addr c))) = csr_mscratch c"
    by (simp add: trap_entry_csrs_def take_trap_def csrrw_sp_def kmain_csrs_def init_timer_csrs_def
        set_trap_vector_def Let_def)
qed

text \<open>Trap exit believes the frame.\<close>

lemma forged_mstatus: "priv_mode (trap_exit_csrs (write_frame m sp 29 0x1880) sp c) = Machine"
  by (simp add: trap_exit_csrs_def csrrw_sp_def mret_def Let_def bit_simps)

text \<open>Trap entry stores through the task's stack pointer in machine mode, where the PMP entries do not apply. The stack of the
  watchdog is closed to every other task; a task that traps with its stack pointer just above the watchdog's frame
  replaces the watchdog's context by its own.\<close>

lemma trap_entry_bypasses_protection:
  assumes "pmp_unit user_access" "layout_ok L" "pmp_configured L active r" "active \<noteq> ''Watchdog''"
    and "in_range sp (TASK_WD_STACK L) 1024" "regs c 2 = sp + 128"
  shows "\<not> user_access r sp AccWrite" "load_context (regs c) (fst (trap_entry_save c m)) sp = c"
proof -
  show "\<not> user_access r sp AccWrite"
    using assms(4,5) by (simp add: pmp_unit.access_matrix [OF assms(1,2,3)] user_rights_def)
  have "trap_entry_save c m = (fst (trap_entry_save c m), sp)"
    using assms(6) by (simp add: trap_entry_save_def Let_def)
  then show "load_context (regs c) (fst (trap_entry_save c m)) sp = c" by (rule trap_entry_restores)
qed

section \<open>Properties\<close>

text \<open>C15: the modes of a hart from the start of the first task on, as long as no trap exit has loaded a frame whose
  \<^verbatim>\<open>mstatus\<close> is not that of a task (such frames exist: they can be forged, and a trap inside the handler stores one). While a task
  runs the hart is in user mode, is preempted by the timer and by no other interrupt (so a software interrupt, which the kernel
  raises on the other core through \<^verbatim>\<open>msip\<close>, is never taken), and a trap hands the handler the frame below the task's stack
  pointer with an intact \<^verbatim>\<open>mstatus\<close>. While the handler runs the hart is in machine mode with all interrupts off. The handler runs on
  \<open>home\<close>, which is the kernel stack of the hart until a trap is taken inside the handler: the second handler then runs on what
  \<^verbatim>\<open>mscratch\<close> holds, the stack frame of the task that the first was handling, and this is the \<open>home\<close> of later handlers.\<close>

theorem hart_modes:
  assumes "reach (hart_start trap_addr kstack) hart_step s" "\<not> forged s"
  shows "csr_mtvec (cpu s) = trap_addr
     \<and> (stage s = In_Task \<longrightarrow> priv_mode (cpu s) = User \<and> (\<forall>mip. interrupt_taken (cpu s) mip = bit mip 7)
       \<and> (let d = trap_entry_csrs (take_trap (cpu s)) in
            xsp d = home s \<and> csr_mscratch d = xsp (cpu s) - 128 \<and> intact (csr_mstatus d)))
     \<and> (stage s = In_Handler \<longrightarrow> priv_mode (cpu s) = Machine \<and> xsp (cpu s) = home s \<and> (\<forall>mip. \<not> interrupt_taken (cpu s) mip)
       \<and> (\<forall>v. let d = trap_entry_csrs (take_trap ((cpu s)\<lparr>xsp := v\<rparr>)) in
            xsp d = csr_mscratch (cpu s) \<and> csr_mscratch d = v - 128 \<and> \<not> intact (csr_mstatus d)))
     \<and> (\<not> nested s \<longrightarrow> home s = kstack)"
  using modes.reach_inv [OF assms(1)] assms(2)
  by (cases "stage s") (simp_all add: hart_inv_def Let_def trap_entry_effect interrupt_taken_def timer_enabled)

theorem hart_modes_witness:
  "let m = write_frame (\<lambda>_. 0) 0x3FC90380 29 0x80;
       c = start_first_task_csrs 0x3FC92000 m 0x3FC90380 (kmain_csrs 0x42000100 demo_hart);
       d = trap_entry_csrs (take_trap c);
       f = trap_entry_csrs (take_trap (d\<lparr>xsp := 0x3FC91F00\<rparr>)) in
   priv_mode c = User \<and> interrupt_taken c 0x80 \<and> \<not> interrupt_taken c 0x8 \<and> priv_mode d = Machine \<and> xsp d = 0x3FC92000
   \<and> xsp f = 0x3FC90380 \<and> \<not> intact (csr_mstatus f)"
proof -
  let ?m = "write_frame (\<lambda>_. 0) 0x3FC90380 29 0x80"
  let ?c = "start_first_task_csrs 0x3FC92000 ?m 0x3FC90380 (kmain_csrs 0x42000100 demo_hart)"
  let ?s = "\<lparr>cpu = ?c, stage = In_Task, home = 0x3FC92000, nested = False, forged = False\<rparr>"
  let ?t = "?s\<lparr>cpu := trap_entry_csrs (take_trap (cpu ?s)), stage := In_Handler\<rparr>"
  have "hart_start 0x42000100 0x3FC92000 ?s"
    unfolding hart_start_def
    by (intro exI [of _ demo_hart] exI [of _ ?m] exI [of _ "0x3FC90380"]) (simp add: demo_hart_def intact_initial)
  then have r: "reach (hart_start 0x42000100 0x3FC92000) hart_step ?s" by (rule reach_init)
  then have "reach (hart_start 0x42000100 0x3FC92000) hart_step ?t"
    by (rule reach_step) (rule enters, simp)
  from hart_modes [OF r] hart_modes [OF this] show ?thesis
    by (auto simp: Let_def bit_simps trap_entry_effect start_first_task_csrs_def)
qed

text \<open>C30: a task can make another task, or through it itself, run in machine mode. The \<^verbatim>\<open>mstatus\<close> of a preempted
  Task B, Task C or HSM task lies in the frame on its stack, which in every reachable state the PMP leaves
  writable for the task that is current on either hart; once \<^verbatim>\<open>MPP\<close> is set there, the trap exit that resumes the task
  enters machine mode.\<close>

theorem forged_frame_escalates:
  assumes "reach (booted L) (kernel_step L) s" "h < 2" "layout_ok L" "pmp_unit user_access"
    and "b \<in> {TASK_B_STACK L, TASK_C_STACK L, HSM_STACK L}"
    and "\<forall>k \<in> {0, 1, 2, 3}. in_range (sp + 116 + k) b 1024"
  shows "(\<forall>k \<in> {0, 1, 2, 3}. user_access (pmp s h) (sp + 116 + k) AccWrite)
     \<and> (let s' = s\<lparr>ram := write_frame (ram s) sp 29 0x1880\<rparr> in
          reach (booted L) (kernel_step L) s' \<and> priv_mode (trap_exit_csrs (ram s') sp c) = Machine)"
proof -
  have "kinv L s" using sys.reach_inv [OF assms(1)] by (simp add: sys_inv_def)
  from kinvD(5) [OF this assms(2)] obtain name where "pmp_configured L name (pmp s h)" by (auto simp: pmp_current_def)
  note rights = stack_isolation_gap [OF assms(4,3) this assms(5)]
  have "reach (booted L) (kernel_step L) (s\<lparr>ram := write_frame (ram s) sp 29 0x1880\<rparr>)"
    by (rule reach_step [OF assms(1) user_store])
  then show ?thesis using rights assms(6) by (simp add: forged_mstatus Let_def)
qed

theorem forged_frame_escalates_witness:
  "riscv_user_access (pmp demo_kernel 0) 0x3FC90FF4 AccWrite
   \<and> priv_mode (trap_exit_csrs (write_frame (ram demo_kernel) 0x3FC90F80 29 0x1880) 0x3FC90F80 demo_hart) = Machine"
  using forged_frame_escalates [OF demo_reach _ demo_layout_ok riscv.pmp_unit_axioms, of 0 "0x3FC90C00" "0x3FC90F80" demo_hart]
  by (simp add: demo_layout_def in_range_def Let_def)

end
