(* ===== verification/Bench.thy ===== *)
theory Bench
  imports Bitmap
begin

text \<open>
  The set-up helper of the benchmarks (\<^verbatim>\<open>benchmarks/src/lib.rs\<close>): a scheduler with a given number of mock tasks.
\<close>

definition mock_task :: "nat \<Rightarrow> TaskControlBlock" where
  "mock_task i = \<lparr>saved_sp = 0x1000 + of_nat i * 0x100, priority = of_nat i, active_priority = of_nat i,
     task_state = Ready, task_name = ''Mock Task'', capabilities = replicate 8 NoCap\<rparr>"

definition setup_benchmark_scheduler :: "nat \<Rightarrow> BitMapScheduler res" where
  "setup_benchmark_scheduler num_tasks =
     (case kforeach [0..<num_tasks] (\<lambda>i. register_task (mock_task i)) scheduler_new of
        (sched, Ok _) \<Rightarrow> Ok sched
      | (_, Panic p) \<Rightarrow> Panic p
      | (_, Spin) \<Rightarrow> Spin)"

lemma register_mock:
  "i < 256 \<Longrightarrow> register_task (mock_task i) s =
     (if i < 32 then (s\<lparr>task_table := (task_table s)[i := Some (mock_task i)]\<rparr>, Ok ()) else (s, Panic AssertFailed))"
  by (simp add: register_task_def mock_task_def MAX_PARTITIONS_def kdefs Let_def unat_of_nat)

lemma kforeach_append: "kforeach (xs @ ys) f s = kseq (kforeach xs f) (kforeach ys f) s"
  by (induction xs arbitrary: s) (simp_all add: kdefs split: prod.split res.split)

lemma mock_tasks:
  "n \<le> 32 \<Longrightarrow> kforeach [0..<n] (\<lambda>i. register_task (mock_task i)) scheduler_new
     = (scheduler_new\<lparr>task_table := map (\<lambda>i. if i < n then Some (mock_task i) else None) [0..<32]\<rparr>, Ok ())"
proof (induction n)
  case 0
  then show ?case by (simp add: kdefs scheduler_new_def MAX_PARTITIONS_def map_replicate_const)
next
  case (Suc n)
  have "(map (\<lambda>i. if i < n then Some (mock_task i) else None) [0..<32])[n := Some (mock_task n)]
      = map (\<lambda>i. if i < Suc n then Some (mock_task i) else None) [0..<32]"
    by (rule nth_equalityI) (use Suc.prems in \<open>auto simp: nth_list_update\<close>)
  then show ?case using Suc by (simp add: kforeach_append kdefs register_mock)
qed

text \<open>Up to 32 tasks the helper gives a scheduler with exactly these tasks, all ready; more make it panic.\<close>

lemma setup_benchmark_scheduler_result:
  "setup_benchmark_scheduler n =
     (if n \<le> 32 then Ok (scheduler_new\<lparr>task_table := map (\<lambda>i. if i < n then Some (mock_task i) else None) [0..<32]\<rparr>)
      else Panic AssertFailed)"
proof (cases "n \<le> 32")
  case True
  then show ?thesis by (simp add: setup_benchmark_scheduler_def mock_tasks)
next
  case False
  then have "[0..<n] = [0..<32] @ 32 # [33..<n]" using upt_add_eq_append [of 0 32 "n - 32"] by (simp add: upt_conv_Cons)
  then show ?thesis
    using False by (simp add: setup_benchmark_scheduler_def kforeach_append kdefs mock_tasks register_mock)
qed

end
