(* ===== verification/Telemetry_Log.thy ===== *)
theory Telemetry_Log
  imports Kernel
begin

text \<open>
  The output side of the kernel, at the level of bytes: the RTT hook that every crate links
  (\<^verbatim>\<open>SEGGER_RTT_WriteNoLock\<close> of \<^verbatim>\<open>kernel/src/main.rs\<close>), the text writer and the hexadecimal formatter
  on channel 0, the lock of the \<^verbatim>\<open>defmt\<close> logger, and \<^verbatim>\<open>log_telemetry\<close> of \<^verbatim>\<open>telemetry/src/lib.rs\<close>, which
  serialises an event into the buffer of its hart and writes the used bytes to channel 1. In
  \<^verbatim>\<open>Kernel\<close> an event is an element of the trace; here the trace is shown to be what a host decodes
  from channel 1, with both harts logging at once and text output in between.

  The serialiser is \<^verbatim>\<open>postcard\<close>, a crate outside the repository. It is a parameter of the
  definitions, and \<open>event_codec\<close> is what the code relies on; the wire format that \<^verbatim>\<open>postcard\<close> documents
  is an instance of it.
\<close>

section \<open>The RTT hook\<close>

text \<open>The calls of the hook, in order: the channel and the bytes the pointer and length denote at
  the time of the call. The hook itself only keeps its arguments alive for the debugger and
  returns the length.\<close>

type_synonym rtt_log = "(usize \<times> u8 list) list"

record log_state =
  bufs :: "u8 list list"
  rtt_calls :: rtt_log

definition SEGGER_RTT_WriteNoLock :: "usize \<Rightarrow> u8 list \<Rightarrow> (log_state, usize) km" where
  "SEGGER_RTT_WriteNoLock channel bytes =
     (\<lambda>s. (s\<lparr>rtt_calls := rtt_calls s @ [(channel, bytes)]\<rparr>, Ok (of_nat (length bytes))))"

text \<open>What a host sees of one channel.\<close>

definition channel_chunks :: "usize \<Rightarrow> log_state \<Rightarrow> u8 list list" where
  "channel_chunks c s = map snd (filter (\<lambda>call. fst call = c) (rtt_calls s))"

definition channel_stream :: "usize \<Rightarrow> log_state \<Rightarrow> u8 list" where
  "channel_stream c s = concat (channel_chunks c s)"

section \<open>Text output\<close>

text \<open>\<^verbatim>\<open>RttWriter::write_str\<close> of the kernel, and \<^verbatim>\<open>rtt_println!\<close> and \<^verbatim>\<open>rtt_print!\<close> on the
  pieces that the format string and its arguments produce.\<close>

definition write_str :: "u8 list \<Rightarrow> (log_state, unit) km" where
  "write_str str = kbind (SEGGER_RTT_WriteNoLock 0 str) (\<lambda>_. kret ())"

definition rtt_println :: "u8 list list \<Rightarrow> (log_state, unit) km" where
  "rtt_println pieces = kseq (kforeach pieces write_str) (write_str [10])"

definition rtt_print :: "u8 list list \<Rightarrow> (log_state, unit) km" where
  "rtt_print pieces = kforeach pieces write_str"

text \<open>The security crate has a writer and a macro of its own, over the same linked hook.\<close>

definition security_write_str :: "u8 list \<Rightarrow> (log_state, unit) km" where
  "security_write_str str = kbind (SEGGER_RTT_WriteNoLock 0 str) (\<lambda>_. kret ())"

definition security_rtt_println :: "u8 list list \<Rightarrow> (log_state, unit) km" where
  "security_rtt_println pieces = kseq (kforeach pieces security_write_str) (security_write_str [10])"

text \<open>\<^verbatim>\<open>HexSlice\<close>: \<^verbatim>\<open>{:02X}\<close> for every byte, the first failing write ending the loop.\<close>

definition hex_digit :: "u8 \<Rightarrow> u8" where
  "hex_digit d = (if d < 10 then 48 + d else 55 + d)"

definition hex_byte :: "u8 \<Rightarrow> u8 list" where
  "hex_byte b = [hex_digit (drop_bit 4 b), hex_digit (b AND 15)]"

fun HexSlice_fmt :: "(u8 list \<Rightarrow> 'f \<Rightarrow> 'f \<times> bool) \<Rightarrow> u8 list \<Rightarrow> 'f \<Rightarrow> 'f \<times> bool" where
  "HexSlice_fmt wr [] f = (f, True)"
| "HexSlice_fmt wr (byte # bytes) f =
     (case wr (hex_byte byte) f of
        (f', True) \<Rightarrow> HexSlice_fmt wr bytes f'
      | (f', False) \<Rightarrow> (f', False))"

text \<open>Reading a dump back.\<close>

definition unhex_digit :: "u8 \<Rightarrow> u8 option" where
  "unhex_digit c =
     (if 48 \<le> c \<and> c < 58 then Some (c - 48)
      else if 65 \<le> c \<and> c < 71 then Some (c - 55) else None)"

fun unhex :: "u8 list \<Rightarrow> u8 list option" where
  "unhex [] = Some []"
| "unhex [c] = None"
| "unhex (c # d # cs) =
     (case (unhex_digit c, unhex_digit d, unhex cs) of
        (Some x, Some y, Some bs) \<Rightarrow> Some ((push_bit 4 x OR y) # bs)
      | _ \<Rightarrow> None)"

section \<open>The logger lock\<close>

text \<open>\<^verbatim>\<open>AtomicBool::compare_exchange\<close> returns whether it stored; \<^verbatim>\<open>acquire\<close> drops the answer.\<close>

definition compare_exchange :: "bool \<Rightarrow> bool \<Rightarrow> bool \<Rightarrow> bool \<times> bool" where
  "compare_exchange current new cell = (if cell = current then (new, True) else (cell, False))"

definition logger_acquire :: "bool \<Rightarrow> bool" where
  "logger_acquire LOG_LOCK = fst (compare_exchange False True LOG_LOCK)"

definition logger_release :: "bool \<Rightarrow> bool" where
  "logger_release LOG_LOCK = False"

definition logger_write :: "u8 list \<Rightarrow> (log_state, unit) km" where
  "logger_write bytes = kbind (SEGGER_RTT_WriteNoLock 0 bytes) (\<lambda>_. kret ())"

definition logger_flush :: "(log_state, unit) km" where
  "logger_flush = kret ()"

text \<open>The harts between \<^verbatim>\<open>acquire\<close> and \<^verbatim>\<open>release\<close>. No step waits: \<^verbatim>\<open>acquire\<close> returns whatever the
  lock held.\<close>

inductive logger_step :: "bool \<times> nat set \<Rightarrow> bool \<times> nat set \<Rightarrow> bool" where
  logger_enter: "h \<notin> inside \<Longrightarrow> logger_step (l, inside) (logger_acquire l, insert h inside)"
| logger_leave: "h \<in> inside \<Longrightarrow> logger_step (l, inside) (logger_release l, inside - {h})"

section \<open>Telemetry\<close>

text \<open>
  \<^verbatim>\<open>to_slice event buf\<close> is the buffer afterwards and the number of bytes used, or no number when
  the event does not fit. \<^verbatim>\<open>BUFS[hart_id]\<close> with \<^verbatim>\<open>hart_id = get_hart_id() & 1\<close>.
\<close>

type_synonym to_slice = "TraceEvent \<Rightarrow> u8 list \<Rightarrow> u8 list \<times> nat option"
type_synonym from_bytes = "u8 list \<Rightarrow> (TraceEvent \<times> u8 list) option"

definition BUFS :: "u8 list list" where
  "BUFS = replicate 2 (replicate 32 0)"

definition buf_index :: "usize \<Rightarrow> nat" where
  "buf_index hart = unat (hart AND 1)"

definition serialise :: "to_slice \<Rightarrow> usize \<Rightarrow> TraceEvent \<Rightarrow> (log_state, nat option) km" where
  "serialise to_slice hart event =
     kbind (kgets bufs) (\<lambda>bs.
     kbind (kindex bs (buf_index hart)) (\<lambda>buf.
       case to_slice event buf of (buf', used) \<Rightarrow>
         kseq (kmodify (\<lambda>s. s\<lparr>bufs := (bufs s)[buf_index hart := buf']\<rparr>)) (kret used)))"

definition write_used :: "usize \<Rightarrow> nat \<Rightarrow> (log_state, unit) km" where
  "write_used hart n =
     kbind (kgets bufs) (\<lambda>bs.
     kbind (kindex bs (buf_index hart)) (\<lambda>buf.
     kbind (SEGGER_RTT_WriteNoLock 1 (take n buf)) (\<lambda>_. kret ())))"

definition log_telemetry_bytes :: "to_slice \<Rightarrow> usize \<Rightarrow> TraceEvent \<Rightarrow> (log_state, unit) km" where
  "log_telemetry_bytes to_slice hart event =
     kbind (serialise to_slice hart event) (\<lambda>used.
       case used of None \<Rightarrow> kret () | Some n \<Rightarrow> write_used hart n)"

definition log_init :: log_state where
  "log_init = \<lparr>bufs = BUFS, rtt_calls = []\<rparr>"

text \<open>
  Two harts log at the same time: each is either outside \<^verbatim>\<open>log_telemetry\<close> or between the
  serialisation and the write, holding the event and the length \<^verbatim>\<open>used\<close>. Text output is interleaved.
  \<open>sent\<close> records the events whose write has happened, \<open>lost\<close> those that did not fit.
\<close>

record log_config =
  out :: log_state
  in_flight :: "usize \<Rightarrow> (TraceEvent \<times> nat) option"
  sent :: "TraceEvent list"
  lost :: "TraceEvent list"

definition log_start :: "log_config \<Rightarrow> bool" where
  "log_start c = (c = \<lparr>out = log_init, in_flight = (\<lambda>_. None), sent = [], lost = []\<rparr>)"

inductive log_step :: "to_slice \<Rightarrow> log_config \<Rightarrow> log_config \<Rightarrow> bool" for to_slice where
  log_serialise: "hart < 2 \<Longrightarrow> in_flight c hart = None \<Longrightarrow>
     serialise to_slice hart ev (out c) = (o', Ok (Some n)) \<Longrightarrow>
     log_step to_slice c (c\<lparr>out := o', in_flight := (in_flight c)(hart := Some (ev, n))\<rparr>)"
| log_drop: "hart < 2 \<Longrightarrow> in_flight c hart = None \<Longrightarrow>
     serialise to_slice hart ev (out c) = (o', Ok None) \<Longrightarrow>
     log_step to_slice c (c\<lparr>out := o', lost := lost c @ [ev]\<rparr>)"
| log_write: "in_flight c hart = Some (ev, n) \<Longrightarrow> write_used hart n (out c) = (o', Ok ()) \<Longrightarrow>
     log_step to_slice c (c\<lparr>out := o', in_flight := (in_flight c)(hart := None), sent := sent c @ [ev]\<rparr>)"
| log_text: "write_str str (out c) = (o', Ok ()) \<Longrightarrow> log_step to_slice c (c\<lparr>out := o'\<rparr>)"

text \<open>The host: read events off the channel until it is empty. Every event takes at least a byte, so
  the length of the stream is enough fuel.\<close>

fun decode_within :: "from_bytes \<Rightarrow> nat \<Rightarrow> u8 list \<Rightarrow> TraceEvent list option" where
  "decode_within from_bytes k [] = Some []"
| "decode_within from_bytes 0 (b # bs) = None"
| "decode_within from_bytes (Suc k) (b # bs) =
     (case from_bytes (b # bs) of
        None \<Rightarrow> None
      | Some (ev, rest) \<Rightarrow> map_option ((#) ev) (decode_within from_bytes k rest))"

definition decode_stream :: "from_bytes \<Rightarrow> u8 list \<Rightarrow> TraceEvent list option" where
  "decode_stream from_bytes bs = decode_within from_bytes (length bs) bs"

section \<open>The serialiser\<close>

text \<open>
  The format that \<^verbatim>\<open>postcard\<close> documents: the variant's position as a varint, \<^verbatim>\<open>u8\<close> fields as one byte,
  \<^verbatim>\<open>u32\<close> fields as varints of seven bits per byte, least significant first, the top bit set on all
  bytes but the last.
\<close>

fun varint :: "nat \<Rightarrow> u8 list" where
  "varint n = (if n < 128 then [of_nat n] else of_nat (n mod 128 + 128) # varint (n div 128))"

declare varint.simps [simp del]

fun unvarint :: "u8 list \<Rightarrow> (nat \<times> u8 list) option" where
  "unvarint [] = None"
| "unvarint (b # bs) =
     (if unat b < 128 then Some (unat b, bs)
      else map_option (\<lambda>(n, rest). (unat b - 128 + 128 * n, rest)) (unvarint bs))"

fun wire_event :: "TraceEvent \<Rightarrow> u8 list" where
  "wire_event (TaskSwap from to cycles) = [0, from, to] @ varint (unat cycles)"
| "wire_event (IpcTransfer endpoint bytes) = [1, endpoint, bytes]"
| "wire_event (FaultInterception cause epc) = 2 # varint (unat cause) @ varint (unat epc)"

definition wire_to_slice :: to_slice where
  "wire_to_slice ev buf = (let bs = wire_event ev in
     if length bs \<le> length buf then (bs @ drop (length bs) buf, Some (length bs)) else (buf, None))"

fun wire_from_bytes :: from_bytes where
  "wire_from_bytes (b # bs) =
     (if b = 0 then case bs of
          from # to # bs' \<Rightarrow> map_option (\<lambda>(n, rest). (TaskSwap from to (of_nat n), rest)) (unvarint bs')
        | _ \<Rightarrow> None
      else if b = 1 then case bs of
          endpoint # bytes # rest \<Rightarrow> Some (IpcTransfer endpoint bytes, rest)
        | _ \<Rightarrow> None
      else if b = 2 then case unvarint bs of
          Some (n, bs') \<Rightarrow> map_option (\<lambda>(m, rest). (FaultInterception (of_nat n) (of_nat m), rest)) (unvarint bs')
        | None \<Rightarrow> None
      else None)"
| "wire_from_bytes [] = None"

text \<open>Bytes that a reader takes for one event, whatever follows.\<close>

definition frame_of :: "from_bytes \<Rightarrow> u8 list \<Rightarrow> TraceEvent \<Rightarrow> bool" where
  "frame_of from_bytes bs ev = (\<forall>rest. from_bytes (bs @ rest) = Some (ev, rest))"

text \<open>One hart's buffer holds the frame of the event in flight there, whatever the other hart does;
  the writes on channel 1 are the frames of the events sent.\<close>

definition log_inv :: "from_bytes \<Rightarrow> log_config \<Rightarrow> bool" where
  "log_inv from_bytes c \<longleftrightarrow> length (bufs (out c)) = 2 \<and> (\<forall>buf \<in> set (bufs (out c)). length buf = 32)
     \<and> (\<forall>hart ev n. in_flight c hart = Some (ev, n) \<longrightarrow>
          hart < 2 \<and> frame_of from_bytes (take n (bufs (out c) ! buf_index hart)) ev)
     \<and> list_all2 (frame_of from_bytes) (channel_chunks 1 (out c)) (sent c)
     \<and> lost c = []"

text \<open>Channel 1 holds the frames of the kernel's trace.\<close>

definition trace_rel :: "from_bytes \<Rightarrow> kernel \<Rightarrow> log_state \<Rightarrow> bool" where
  "trace_rel from_bytes k s \<longleftrightarrow> length (bufs s) = 2 \<and> (\<forall>buf \<in> set (bufs s). length buf = 32)
     \<and> list_all2 (frame_of from_bytes) (channel_chunks 1 s) (trace k)"

text \<open>
  What \<^verbatim>\<open>log_telemetry\<close> and its reader rely on: the buffer keeps its length, a 32-byte buffer is
  enough for every event, and the used bytes are a self-delimiting encoding of the event.
\<close>

locale event_codec =
  fixes to_slice :: to_slice and from_bytes :: from_bytes
  assumes buffer_kept: "length (fst (to_slice ev buf)) = length buf"
    and fits: "32 \<le> length buf \<Longrightarrow> snd (to_slice ev buf) \<noteq> None"
    and decodes: "to_slice ev buf = (buf', Some n) \<Longrightarrow> from_bytes (take n buf' @ rest) = Some (ev, rest)"
begin

lemma frame_of_exists: "\<exists>bs. frame_of from_bytes bs ev"
proof -
  have "snd (to_slice ev (replicate 32 0)) \<noteq> None" by (rule fits) simp
  then obtain buf' n where "to_slice ev (replicate 32 0) = (buf', Some n)" by (metis not_None_eq prod.collapse)
  from decodes [OF this] show ?thesis by (auto simp: frame_of_def)
qed

text \<open>An empty frame would make every stream decode to the same event.\<close>

lemma frame_of_nonempty: "frame_of from_bytes bs ev \<Longrightarrow> bs \<noteq> []"
proof
  assume f: "frame_of from_bytes bs ev" and "bs = []"
  then have e: "from_bytes rest = Some (ev, rest)" for rest by (simp add: frame_of_def)
  obtain cs where "frame_of from_bytes cs (IpcTransfer 0 0)" using frame_of_exists by blast
  moreover obtain ds where "frame_of from_bytes ds (FaultInterception 0 0)" using frame_of_exists by blast
  ultimately show False using e by (auto simp: frame_of_def) 
qed

lemma decode_frames:
  "list_all2 (frame_of from_bytes) cs evs \<Longrightarrow> length (concat cs) \<le> k \<Longrightarrow> decode_within from_bytes k (concat cs) = Some evs"
proof (induction arbitrary: k rule: list_all2_induct)
  case Nil then show ?case by simp
next
  case (Cons c cs ev evs)
  obtain b bs where c: "c = b # bs" using frame_of_nonempty [OF Cons(1)] by (cases c) auto
  then obtain k' where k: "k = Suc k'" using Cons.prems by (cases k) auto
  have "from_bytes (b # bs @ concat cs) = Some (ev, concat cs)"
    using Cons(1) by (simp add: frame_of_def c flip: append_Cons)
  moreover have "length (concat cs) \<le> k'" using Cons.prems by (simp add: c k)
  ultimately show ?case using Cons.IH by (simp add: c k)
qed

lemma decode_stream_frames: "list_all2 (frame_of from_bytes) cs evs \<Longrightarrow> decode_stream from_bytes (concat cs) = Some evs"
  by (simp add: decode_stream_def decode_frames)

end

section \<open>Lemmas\<close>

lemma buf_index_less [simp]: "buf_index hart < 2"
  using unat_and_mask [of hart 1] by (simp add: buf_index_def mask_eq_exp_minus_1)

lemma less_2_cases: "hart < 2 \<Longrightarrow> hart = 0 \<or> hart = 1" for hart :: usize
proof -
  assume "hart < 2"
  then have "unat hart = 0 \<or> unat hart = 1" by (auto simp: word_less_nat_alt)
  then show ?thesis by (metis unat_inj unsigned_0 unsigned_1)
qed

lemma buf_index_inj: "hart < 2 \<Longrightarrow> hart' < 2 \<Longrightarrow> (buf_index hart = buf_index hart') = (hart = hart')"
  by (auto dest!: less_2_cases simp: buf_index_def)

lemma channel_chunks_write [simp]:
  "channel_chunks c (s\<lparr>rtt_calls := rtt_calls s @ [(c', bs)]\<rparr>) = channel_chunks c s @ (if c' = c then [bs] else [])"
  "channel_chunks c (s\<lparr>bufs := b\<rparr>) = channel_chunks c s"
  by (simp_all add: channel_chunks_def)

lemma write_str_run: "write_str str s = (s\<lparr>rtt_calls := rtt_calls s @ [(0, str)]\<rparr>, Ok ())"
  by (simp add: write_str_def SEGGER_RTT_WriteNoLock_def kdefs)

lemma serialise_run:
  assumes "length (bufs s) = 2"
  shows "serialise to_slice hart ev s =
    (s\<lparr>bufs := (bufs s)[buf_index hart := fst (to_slice ev (bufs s ! buf_index hart))]\<rparr>,
     Ok (snd (to_slice ev (bufs s ! buf_index hart))))"
  using assms by (simp add: serialise_def kdefs split: prod.split)

lemma write_used_run:
  assumes "length (bufs s) = 2"
  shows "write_used hart n s = (s\<lparr>rtt_calls := rtt_calls s @ [(1, take n (bufs s ! buf_index hart))]\<rparr>, Ok ())"
  using assms by (simp add: write_used_def SEGGER_RTT_WriteNoLock_def kdefs)

context event_codec
begin

lemma serialise_frame:
  assumes "length (bufs s) = 2" and "\<forall>buf \<in> set (bufs s). length buf = 32"
    and "serialise to_slice hart ev s = (s', Ok used)"
  obtains n where "used = Some n" "frame_of from_bytes (take n (bufs s' ! buf_index hart)) ev"
    "s' = s\<lparr>bufs := (bufs s)[buf_index hart := bufs s' ! buf_index hart]\<rparr>" "length (bufs s' ! buf_index hart) = 32"
proof -
  let ?b = "bufs s ! buf_index hart"
  have len: "length ?b = 32" using assms(1,2) by (simp add: nth_mem)
  then have "snd (to_slice ev ?b) \<noteq> None" by (intro fits) simp
  then obtain b' n where r: "to_slice ev ?b = (b', Some n)" by (metis not_None_eq prod.collapse)
  then have "length b' = 32" using buffer_kept [of ev ?b] len by simp
  moreover have "frame_of from_bytes (take n b') ev" using decodes [OF r] by (simp add: frame_of_def)
  ultimately show thesis using that assms(3) r by (auto simp: serialise_run [OF assms(1)] assms(1))
qed

lemma log_inv_step: "log_inv from_bytes c \<Longrightarrow> log_step to_slice c c' \<Longrightarrow> log_inv from_bytes c'"
proof (erule log_step.cases, goal_cases)
  case (1 hart c1 ev o' n)
  then have inv: "log_inv from_bytes c1" by simp
  then have b: "length (bufs (out c1)) = 2" "\<forall>buf \<in> set (bufs (out c1)). length buf = 32"
    by (simp_all add: log_inv_def)
  obtain m where m: "Some n = Some m" "frame_of from_bytes (take m (bufs o' ! buf_index hart)) ev"
    "o' = (out c1)\<lparr>bufs := (bufs (out c1))[buf_index hart := bufs o' ! buf_index hart]\<rparr>"
    "length (bufs o' ! buf_index hart) = 32"
    by (rule serialise_frame [OF b 1(6)])
  define buf where "buf = bufs o' ! buf_index hart"
  have o: "o' = (out c1)\<lparr>bufs := (bufs (out c1))[buf_index hart := buf]\<rparr>" using m(3) by (simp only: buf_def)
  have "frame_of from_bytes (take n buf) ev" "length buf = 32" using m by (simp_all add: buf_def)
  then show ?case
    using inv 1 by (auto simp: log_inv_def o b nth_list_update buf_index_inj dest: set_update_subset_insert [THEN subsetD])
next
  case (2 hart c1 ev o')
  then show ?case by (metis log_inv_def option.distinct(1) serialise_frame)
next
  case (3 c1 hart ev n o')
  then show ?case by (auto simp: log_inv_def write_used_run intro!: list_all2_appendI)
next
  case (4 str c1 o')
  then show ?case by (auto simp: log_inv_def write_str_run)
qed

lemma log_inv_start: "log_start c \<Longrightarrow> log_inv from_bytes c"
  by (simp add: log_start_def log_inv_def log_init_def BUFS_def channel_chunks_def numeral_2_eq_2)

end

sublocale event_codec \<subseteq> logging: inductive_invariant log_start "log_step to_slice" "log_inv from_bytes"
  by unfold_locales (rule log_inv_start, assumption, rule log_inv_step)

context event_codec
begin

lemma log_reach_decodes:
  assumes "reach log_start (log_step to_slice) c"
  shows "decode_stream from_bytes (channel_stream 1 (out c)) = Some (sent c)" "lost c = []"
  using logging.reach_inv [OF assms]
  by (simp_all add: log_inv_def channel_stream_def decode_stream_frames)

end

section \<open>The wire format is a codec\<close>

lemma unvarint_varint [simp]: "unvarint (varint n @ rest) = Some (n, rest)"
proof (induction n rule: varint.induct)
  case (1 n)
  show ?case
  proof (cases "n < 128")
    case True
    then show ?thesis by (simp add: varint.simps [of n] unat_of_nat)
  next
    case False
    have "unat (of_nat (n mod 128 + 128) :: u8) = n mod 128 + 128"
      by (simp add: unat_of_nat del: of_nat_add)
    moreover have "n mod 128 + 128 * (n div 128) = n" by simp
    ultimately show ?thesis using 1 False by (simp add: varint.simps [of n])
  qed
qed

lemma length_varint: "n < 128 ^ Suc k \<Longrightarrow> length (varint n) \<le> Suc k"
proof (induction k arbitrary: n)
  case 0 then show ?case by (simp add: varint.simps)
next
  case (Suc k)
  then have "n div 128 < 128 ^ Suc k" by (simp add: less_mult_imp_div_less)
  with Suc.IH show ?case by (simp add: varint.simps [of n])
qed

lemma length_varint_u32: "length (varint (unat (w :: u32))) \<le> 5"
  using length_varint [of "unat w" 4] unat_u32_less [of w] by simp

lemma length_wire_event: "length (wire_event ev) \<le> 11"
proof (cases ev)
  case (TaskSwap src dst cycles)
  then show ?thesis using length_varint_u32 [of cycles] by simp
next
  case (FaultInterception cause epc)
  then show ?thesis using length_varint_u32 [of cause] length_varint_u32 [of epc] by simp
qed simp

lemma wire_from_bytes_wire [simp]: "wire_from_bytes (wire_event ev @ rest) = Some (ev, rest)"
  by (cases ev) simp_all

interpretation wire: event_codec wire_to_slice wire_from_bytes
proof
  show "length (fst (wire_to_slice ev buf)) = length buf" for ev buf
    by (simp add: wire_to_slice_def Let_def)
  show "32 \<le> length buf \<Longrightarrow> snd (wire_to_slice ev buf) \<noteq> None" for ev buf
    using length_wire_event [of ev] by (simp add: wire_to_slice_def Let_def)
  show "wire_to_slice ev buf = (buf', Some n) \<Longrightarrow> wire_from_bytes (take n buf' @ rest) = Some (ev, rest)"
    for ev buf buf' n rest
    by (auto simp: wire_to_slice_def Let_def split: if_splits)
qed

section \<open>The text formatter\<close>

lemma unhex_digit_hex_digit: "d < 16 \<Longrightarrow> unhex_digit (hex_digit d) = Some d" for d :: u8
proof -
  assume "d < 16"
  then have "unat d < 16" by (simp add: word_less_nat_alt)
  then have "d \<in> of_nat ` {0..<16}" by (intro image_eqI [where x = "unat d"]) simp_all
  then show ?thesis by (auto simp: atLeastLessThan_upt upt_rec unhex_digit_def hex_digit_def)
qed

lemma nibbles: "drop_bit 4 b < 16" "b AND 15 < 16" "push_bit 4 (drop_bit 4 b) OR (b AND 15) = b" for b :: u8
proof -
  show "b AND 15 < 16" by (simp add: word_less_nat_alt unat_and_15)
  show "drop_bit 4 b < 16" using unat_u8_less [of b] by (simp add: word_less_nat_alt drop_bit_eq_div unat_div_distrib)
  show "push_bit 4 (drop_bit 4 b) OR (b AND 15) = b"
  proof (rule bit_word_eqI)
    have m: "(15 :: u8) = mask 4" by (simp add: mask_eq_exp_minus_1)
    show "n < LENGTH(8) \<Longrightarrow> bit (push_bit 4 (drop_bit 4 b) OR (b AND 15)) n = bit b n" for n
      unfolding m by (cases "n < 4") (simp_all only: bit_simps, simp_all)
  qed
qed

lemma unhex_dump [simp]: "unhex (concat (map hex_byte bs)) = Some bs"
  by (induction bs) (simp_all add: hex_byte_def unhex_digit_hex_digit nibbles)

text \<open>A writer that only appends, like \<^verbatim>\<open>RttWriter\<close>: the dump is the digits of every byte, in order.\<close>

lemma HexSlice_fmt_append: "HexSlice_fmt (\<lambda>digits f. (f @ digits, True)) bs f = (f @ concat (map hex_byte bs), True)"
  by (induction bs arbitrary: f) simp_all

text \<open>A writer that fails ends the dump at the first byte it refuses.\<close>

lemma HexSlice_fmt_error:
  "HexSlice_fmt (\<lambda>digits f. if length f + 2 \<le> cap then (f @ digits, True) else (f, False)) bs []
     = (concat (map hex_byte (take (cap div 2) bs)), 2 * length bs \<le> cap)"
proof -
  let ?wr = "\<lambda>digits f. if length f + 2 \<le> cap then (f @ digits, True) else (f, False)"
  have "HexSlice_fmt ?wr bs f = (f @ concat (map hex_byte (take ((cap - length f) div 2) bs)), length f + 2 * length bs \<le> cap)"
    if "length f \<le> cap" for f
    using that
  proof (induction bs arbitrary: f)
    case (Cons b bs)
    show ?case
    proof (cases "length f + 2 \<le> cap")
      case True
      moreover from this have "(cap - length f) div 2 = Suc ((cap - Suc (Suc (length f))) div 2)" by simp
      ultimately show ?thesis using Cons.IH [of "f @ hex_byte b"] by (simp add: hex_byte_def)
    next
      case False
      then have "(cap - length f) div 2 = 0" by simp
      with False show ?thesis by simp
    qed
  qed simp
  from this [of "[]"] show ?thesis by simp
qed

lemma rtt_print_run:
  "rtt_print pieces s = (s\<lparr>rtt_calls := rtt_calls s @ map (Pair 0) pieces\<rparr>, Ok ())"
  unfolding rtt_print_def by (induction pieces arbitrary: s) (simp_all add: kdefs write_str_run)

lemma rtt_println_run:
  "rtt_println pieces s = (s\<lparr>rtt_calls := rtt_calls s @ map (Pair 0) pieces @ [(0, [10])]\<rparr>, Ok ())"
  using rtt_print_run [of pieces s] by (simp add: rtt_println_def rtt_print_def kdefs write_str_run)

lemma rtt_println_streams:
  "channel_stream 0 (fst (rtt_println pieces s)) = channel_stream 0 s @ concat pieces @ [10]"
  "channel_stream 1 (fst (rtt_println pieces s)) = channel_stream 1 s"
  by (simp_all add: rtt_println_run channel_stream_def channel_chunks_def filter_map o_def)

text \<open>The output of the security crate goes to the same channel in the same form.\<close>

lemma security_output: "security_write_str = write_str" "security_rtt_println = rtt_println"
proof -
  show eq: "security_write_str = write_str"
    by (simp add: fun_eq_iff security_write_str_def write_str_def)
  show "security_rtt_println = rtt_println"
    by (simp add: fun_eq_iff security_rtt_println_def rtt_println_def eq)
qed

section \<open>\<open>log_telemetry\<close> implements the trace\<close>

context event_codec
begin

lemma log_telemetry_bytes_run:
  assumes "length (bufs s) = 2" and "\<forall>buf \<in> set (bufs s). length buf = 32"
  obtains s' bs where "log_telemetry_bytes to_slice hart ev s = (s', Ok ())" "frame_of from_bytes bs ev"
    "rtt_calls s' = rtt_calls s @ [(1, bs)]" "length (bufs s') = 2" "\<forall>buf \<in> set (bufs s'). length buf = 32"
proof -
  obtain s1 used where r: "serialise to_slice hart ev s = (s1, Ok used)" using serialise_run [OF assms(1)] by blast
  obtain n where n: "used = Some n" "frame_of from_bytes (take n (bufs s1 ! buf_index hart)) ev"
    "s1 = s\<lparr>bufs := (bufs s)[buf_index hart := bufs s1 ! buf_index hart]\<rparr>" "length (bufs s1 ! buf_index hart) = 32"
    by (rule serialise_frame [OF assms r])
  define buf where "buf = bufs s1 ! buf_index hart"
  have s1: "s1 = s\<lparr>bufs := (bufs s)[buf_index hart := buf]\<rparr>" "length buf = 32" "frame_of from_bytes (take n buf) ev"
    using n by (simp_all only: buf_def)
  then have "length (bufs s1) = 2" using assms(1) by simp
  moreover from this have "log_telemetry_bytes to_slice hart ev s =
      (s1\<lparr>rtt_calls := rtt_calls s @ [(1, take n buf)]\<rparr>, Ok ())"
    using n(1) by (simp add: log_telemetry_bytes_def kdefs r write_used_run s1 assms(1))
  moreover have "\<forall>b \<in> set (bufs s1). length b = 32"
    using assms s1 by (auto dest: set_update_subset_insert [THEN subsetD])
  ultimately show thesis using that s1(3) by simp
qed

lemma trace_rel_decodes: "trace_rel from_bytes k s \<Longrightarrow> decode_stream from_bytes (channel_stream 1 s) = Some (trace k)"
  by (simp add: trace_rel_def channel_stream_def decode_stream_frames)

lemma log_telemetry_refines:
  assumes "trace_rel from_bytes k s"
  obtains k' s' where "log_telemetry ev k = (k', Ok ())" "log_telemetry_bytes to_slice hart ev s = (s', Ok ())" "trace_rel from_bytes k' s'"
proof -
  obtain s' bs where "log_telemetry_bytes to_slice hart ev s = (s', Ok ())" "frame_of from_bytes bs ev"
    "rtt_calls s' = rtt_calls s @ [(1, bs)]" "length (bufs s') = 2" "\<forall>buf \<in> set (bufs s'). length buf = 32"
    using log_telemetry_bytes_run assms by (metis trace_rel_def)
  moreover from this have "trace_rel from_bytes (k\<lparr>trace := trace k @ [ev]\<rparr>) s'"
    using assms by (auto simp: trace_rel_def channel_chunks_def intro!: list_all2_appendI)
  ultimately show thesis using that by (simp add: log_telemetry_def kmodify_def)
qed

lemma trace_rel_boot: "trace k = [] \<Longrightarrow> trace_rel from_bytes k log_init"
  by (simp add: trace_rel_def log_init_def BUFS_def channel_chunks_def numeral_2_eq_2)

end

section \<open>The logger lock\<close>

text \<open>\<^verbatim>\<open>acquire\<close> never keeps a hart out: every set of harts can be inside at once.\<close>

lemma logger_lock_not_exclusive:
  "reach (\<lambda>c. c = (False, {})) logger_step (True, {0, 1})"
proof -
  have "logger_step (False, {}) (True, {0})"
    using logger_enter [of 0 "{}" False] by (simp add: logger_acquire_def compare_exchange_def)
  moreover have "logger_step (True, {0}) (True, {0, 1})"
    using logger_enter [of 1 "{0}" True] by (simp add: logger_acquire_def compare_exchange_def insert_commute)
  moreover have "reach (\<lambda>c. c = (False, {})) logger_step (False, {})" by (rule reach_init) simp
  ultimately show ?thesis by (metis reach_step)
qed

section \<open>Properties\<close>

text \<open>No hart waits for the other: it can always serialise, and then write.\<close>

context event_codec
begin

lemma log_can_serialise:
  assumes r: "reach log_start (log_step to_slice) c" and h: "hart < 2" "in_flight c hart = None"
  shows "\<exists>o' n. reach log_start (log_step to_slice) (c\<lparr>out := o', in_flight := (in_flight c)(hart := Some (ev, n))\<rparr>)"
proof -
  have b: "length (bufs (out c)) = 2" "\<forall>buf \<in> set (bufs (out c)). length buf = 32"
    using logging.reach_inv [OF r] by (simp_all add: log_inv_def)
  obtain o' used where s: "serialise to_slice hart ev (out c) = (o', Ok used)" using serialise_run [OF b(1)] by blast
  obtain n where "used = Some n" by (rule serialise_frame [OF b s])
  with s log_serialise [OF h] show ?thesis using reach_step [OF r] by metis
qed

lemma log_can_write:
  assumes r: "reach log_start (log_step to_slice) c" and h: "in_flight c hart = Some (ev, n)"
  shows "\<exists>o'. reach log_start (log_step to_slice)
    (c\<lparr>out := o', in_flight := (in_flight c)(hart := None), sent := sent c @ [ev]\<rparr>)"
proof -
  have "length (bufs (out c)) = 2" using logging.reach_inv [OF r] by (simp add: log_inv_def)
  with log_write [OF h] write_used_run show ?thesis using reach_step [OF r] by metis
qed

text \<open>A run in which both harts serialise before either writes.\<close>

lemma log_run_both:
  obtains c where "reach log_start (log_step to_slice) c" "sent c = [ev1, ev0]"
proof -
  let ?c0 = "\<lparr>out = log_init, in_flight = (\<lambda>_. None), sent = [], lost = []\<rparr>"
  have r0: "reach log_start (log_step to_slice) ?c0" by (rule reach_init) (simp add: log_start_def)
  obtain o1 n0 where r1: "reach log_start (log_step to_slice) (?c0\<lparr>out := o1, in_flight := (\<lambda>_. None)(0 := Some (ev0, n0))\<rparr>)"
    using log_can_serialise [OF r0, of 0 ev0] by auto
  obtain o2 n1 where r2: "reach log_start (log_step to_slice)
      (?c0\<lparr>out := o2, in_flight := (\<lambda>_. None)(0 := Some (ev0, n0), 1 := Some (ev1, n1))\<rparr>)"
    using log_can_serialise [OF r1, of 1 ev1] by auto
  obtain o3 where r3: "reach log_start (log_step to_slice)
      (?c0\<lparr>out := o3, in_flight := (\<lambda>_. None)(0 := Some (ev0, n0), 1 := None), sent := [ev1]\<rparr>)"
    using log_can_write [OF r2, of 1 ev1 n1] by auto
  obtain o4 where "reach log_start (log_step to_slice)
      (?c0\<lparr>out := o4, in_flight := (\<lambda>_. None)(0 := None, 1 := None), sent := [ev1, ev0]\<rparr>)"
    using log_can_write [OF r3, of 0 ev0 n0] by auto
  then show thesis by (rule that) simp
qed

end

text \<open>C24: whatever the interleaving of the two harts' \<^verbatim>\<open>log_telemetry\<close> calls (each serialises into the
  buffer of its own hart, then writes) and of text output on channel 0, decoding channel 1 gives
  exactly the events whose write has happened, in the order of the writes, and no event is
  dropped for lack of room. The hypothesis is the contract of the serialiser.\<close>

theorem telemetry_stream_decodes:
  assumes "event_codec to_slice from_bytes" and "reach log_start (log_step to_slice) c"
  shows "decode_stream from_bytes (channel_stream 1 (out c)) = Some (sent c) \<and> lost c = []"
  using event_codec.log_reach_decodes [OF assms] by simp

theorem telemetry_stream_decodes_witness:
  "\<exists>c. reach log_start (log_step wire_to_slice) c
     \<and> decode_stream wire_from_bytes (channel_stream 1 (out c)) = Some [IpcTransfer 1 64, TaskSwap 0 1 12345]"
proof -
  obtain c where "reach log_start (log_step wire_to_slice) c" "sent c = [IpcTransfer 1 64, TaskSwap 0 1 12345]"
    by (rule wire.log_run_both)
  with telemetry_stream_decodes [OF wire.event_codec_axioms this(1)] show ?thesis by auto
qed

text \<open>C25: \<^verbatim>\<open>log_telemetry\<close> on bytes implements the append to the kernel's trace, on either hart: from a log
  whose channel 1 holds the trace, it returns, with no panic, in a log whose channel 1 holds and
  decodes to the trace with the new event at the end. The hypothesis on the serialiser is its
  contract.\<close>

theorem log_telemetry_implements_trace:
  assumes "event_codec to_slice from_bytes" and "trace_rel from_bytes k s"
  shows "\<exists>k' s'. log_telemetry ev k = (k', Ok ()) \<and> trace k' = trace k @ [ev]
    \<and> log_telemetry_bytes to_slice hart ev s = (s', Ok ()) \<and> trace_rel from_bytes k' s'
    \<and> decode_stream from_bytes (channel_stream 1 s') = Some (trace k')"
proof -
  obtain k' s' where *: "log_telemetry ev k = (k', Ok ())" "log_telemetry_bytes to_slice hart ev s = (s', Ok ())"
      "trace_rel from_bytes k' s'"
    by (rule event_codec.log_telemetry_refines [OF assms])
  moreover have "trace k' = trace k @ [ev]" using *(1) by (auto simp: log_telemetry_def kmodify_def)
  ultimately show ?thesis using event_codec.trace_rel_decodes [OF assms(1)] by blast
qed

theorem log_telemetry_implements_trace_witness:
  "\<exists>s'. log_telemetry_bytes wire_to_slice 1 (FaultInterception 6 0x20001234) log_init = (s', Ok ())
     \<and> decode_stream wire_from_bytes (channel_stream 1 s') = Some [FaultInterception 6 0x20001234]"
proof -
  obtain k :: kernel where k: "trace k = []" by (meson kernel.select_convs)
  have "trace_rel wire_from_bytes k log_init" by (rule wire.trace_rel_boot [OF k])
  from log_telemetry_implements_trace [OF wire.event_codec_axioms this, of "FaultInterception 6 0x20001234" 1] k
  show ?thesis by auto
qed

end
