(* ===== verification/Harness.thy ===== *)
theory Harness
  imports Bench Security Telemetry_Log
begin

text \<open>
  The repository's own checks, run on the model: the unit tests of \<^verbatim>\<open>scheduler\<close>, \<^verbatim>\<open>network\<close>,
  \<^verbatim>\<open>security\<close> and \<^verbatim>\<open>telemetry\<close>, the Kani harness of the scheduler with its nondeterministic values
  as arguments, and the benchmark loop. A test is a program whose result is \<open>Ok ()\<close> when every
  assertion holds and a panic otherwise, so that the theorems say what running the tests says, and
  for the harness and the stack tests on every input.
\<close>

section \<open>Scheduler tests\<close>

definition assert_that :: "bool \<Rightarrow> ('s, unit) km" where
  "assert_that = kassert AssertFailed"

text \<open>The helper \<^verbatim>\<open>tcb\<close> of the tests.\<close>

definition test_tcb :: "u8 \<Rightarrow> TaskState \<Rightarrow> TaskControlBlock" where
  "test_tcb prio st = \<lparr>saved_sp = 0, priority = prio, active_priority = prio, task_state = st,
     task_name = ''test'', capabilities = replicate 8 NoCap\<rparr>"

definition set_ticks :: "u32 \<Rightarrow> (BitMapScheduler, unit) km" where
  "set_ticks n = kmodify (\<lambda>s. s\<lparr>remaining_mif_ticks := n\<rparr>)"

definition assert_current :: "nat \<Rightarrow> (BitMapScheduler, unit) km" where
  "assert_current i = kbind (kgets current_partition_idx) (\<lambda>j. assert_that (j = i))"

definition assert_state :: "nat \<Rightarrow> TaskState \<Rightarrow> (BitMapScheduler, unit) km" where
  "assert_state i st =
     kbind (kgets task_table) (\<lambda>table.
     kbind (kindex table i) (\<lambda>entry.
     kbind (kunwrap entry) (\<lambda>tcb. assert_that (task_state tcb = st))))"

definition schedule_stays_on_current_task_while_slice_remains :: "unit res" where
  "schedule_stays_on_current_task_while_slice_remains =
     snd (kseq (register_task (test_tcb 0 Running))
         (kseq (set_ticks 5)
         (kbind (schedule True) (\<lambda>result.
          kseq (assert_that (result = None))
          (assert_current 0)))) scheduler_new)"

definition schedule_switches_to_next_ready_task_when_slice_expires :: "unit res" where
  "schedule_switches_to_next_ready_task_when_slice_expires =
     snd (kseq (register_task (test_tcb 0 Running))
         (kseq (register_task (test_tcb 1 Ready))
         (kseq (set_ticks 1)
         (kbind (schedule True) (\<lambda>result.
          kseq (assert_that (result \<noteq> None))
         (kseq (assert_current 1)
         (kseq (assert_state 1 Running)
          (assert_state 0 Ready))))))) scheduler_new)"

definition schedule_forced_yield_switches_even_with_ticks_remaining :: "unit res" where
  "schedule_forced_yield_switches_even_with_ticks_remaining =
     snd (kseq (register_task (test_tcb 0 Running))
         (kseq (register_task (test_tcb 1 Ready))
         (kseq (set_ticks 50)
         (kbind (schedule False) (\<lambda>result.
          kseq (assert_that (result \<noteq> None))
          (assert_current 1))))) scheduler_new)"

definition schedule_falls_back_to_idle_partition_when_nothing_else_ready :: "unit res" where
  "schedule_falls_back_to_idle_partition_when_nothing_else_ready =
     snd (kseq (register_task (test_tcb 0 (Blocked 10)))
         (kseq (register_task (test_tcb 31 Ready))
         (kseq (set_ticks 0)
         (kbind (schedule True) (\<lambda>result.
          kseq (assert_that (result \<noteq> None))
          (assert_current 31))))) scheduler_new)"

definition schedule_returns_none_when_no_task_is_ready :: "unit res" where
  "schedule_returns_none_when_no_task_is_ready =
     snd (kseq (register_task (test_tcb 0 (Blocked 10)))
         (kseq (set_ticks 0)
         (kbind (schedule True) (\<lambda>result. assert_that (result = None)))) scheduler_new)"

definition scheduler_tests :: "unit res list" where
  "scheduler_tests =
     [schedule_stays_on_current_task_while_slice_remains,
      schedule_switches_to_next_ready_task_when_slice_expires,
      schedule_forced_yield_switches_even_with_ticks_remaining,
      schedule_falls_back_to_idle_partition_when_nothing_else_ready,
      schedule_returns_none_when_no_task_is_ready]"

section \<open>Stack tests\<close>

text \<open>The tests of \<^verbatim>\<open>initialize_stack\<close>, at the width of the target: the stack array is anywhere in
  memory, and so is the entry function.\<close>

definition initialize_stack_returns_16_byte_aligned_sp :: "usize \<Rightarrow> usize \<Rightarrow> mem \<Rightarrow> unit res" where
  "initialize_stack_returns_16_byte_aligned_sp stack dummy_entry m =
     (case initialize_stack stack 256 dummy_entry m of (m', sp) \<Rightarrow>
        if sp mod 16 = 0 then Ok () else Panic AssertFailed)"

definition initialize_stack_writes_entry_fn_as_mepc :: "usize \<Rightarrow> usize \<Rightarrow> mem \<Rightarrow> unit res" where
  "initialize_stack_writes_entry_fn_as_mepc stack dummy_entry m =
     (case initialize_stack stack 512 dummy_entry m of (m', sp) \<Rightarrow>
        if read_frame m' sp 28 = dummy_entry then Ok () else Panic AssertFailed)"

definition initialize_stack_writes_u_mode_mstatus :: "usize \<Rightarrow> usize \<Rightarrow> mem \<Rightarrow> unit res" where
  "initialize_stack_writes_u_mode_mstatus stack dummy_entry m =
     (case initialize_stack stack 512 dummy_entry m of (m', sp) \<Rightarrow>
        if read_frame m' sp 29 = 0x80 then Ok () else Panic AssertFailed)"

section \<open>CAN tests\<close>

text \<open>\<^verbatim>\<open>unwrap\<close> on a result.\<close>

definition unwrap_result :: "'e + 'a \<Rightarrow> ('s, 'a) km" where
  "unwrap_result r = (case r of Inl _ \<Rightarrow> kpanic UnwrapNone | Inr a \<Rightarrow> kret a)"

definition parse_extracts_id_dlc_and_payload :: "unit res" where
  "parse_extracts_id_dlc_and_payload =
     snd (kbind (unwrap_result (parse (raw_frame 0x123 4 [0xAA, 0xBB, 0xCC, 0xDD]))) (\<lambda>frame.
          kseq (assert_that (frame_id frame = 0x123))
         (kseq (assert_that (dlc frame = 4))
          (assert_that (take 4 (payload frame) = [0xAA, 0xBB, 0xCC, 0xDD])))) ())"

definition parse_rejects_blocked_diagnostic_ids :: "unit res" where
  "parse_rejects_blocked_diagnostic_ids =
     snd (assert_that (parse (raw_frame 0x7DF 0 []) = Inl (BlockedId 0x7DF)) ())"

definition parse_rejects_dlc_over_eight :: "unit res" where
  "parse_rejects_dlc_over_eight =
     (let raw = (raw_frame 0x100 0 [])[2 := 9] in
      snd (assert_that (parse raw = Inl (InvalidDlc 9)) ()))"

definition empty_frame :: "u16 \<Rightarrow> CanFrame" where
  "empty_frame i = \<lparr>frame_id = i, dlc = 0, payload = replicate CAN_MAX_PAYLOAD 0\<rparr>"

definition push_unwrap :: "u16 \<Rightarrow> (CanRingBuffer, unit) km" where
  "push_unwrap i = kbind (ring_push (empty_frame i)) unwrap_result"

definition assert_empty :: "(CanRingBuffer, unit) km" where
  "assert_empty = kbind (kgets is_empty) assert_that"

definition ring_buffer_push_pop_preserves_order :: "unit res" where
  "ring_buffer_push_pop_preserves_order =
     snd (kseq assert_empty
         (kseq (kforeach [0, 1, 2, 3] push_unwrap)
         (kseq (kforeach [0, 1, 2, 3] (\<lambda>i.
            kbind ring_pop (\<lambda>popped.
            kbind (kunwrap popped) (\<lambda>frame. assert_that (frame_id frame = i)))))
          assert_empty)) ring_new)"

definition ring_buffer_rejects_push_when_full :: "unit res" where
  "ring_buffer_rejects_push_when_full =
     snd (kseq (kforeach (map of_nat [0..<RING_CAPACITY - 1]) push_unwrap)
         (kseq (kbind (kgets is_full) assert_that)
         (kbind (ring_push (empty_frame 999)) (\<lambda>overflow. assert_that (overflow = Inl BufferFull)))) ring_new)"

definition can_tests :: "unit res list" where
  "can_tests =
     [parse_extracts_id_dlc_and_payload, parse_rejects_blocked_diagnostic_ids, parse_rejects_dlc_over_eight,
      ring_buffer_push_pop_preserves_order, ring_buffer_rejects_push_when_full]"

section \<open>Secure boot tests\<close>

definition assert_ok :: "bool \<Rightarrow> unit res" where
  "assert_ok b = (if b then Ok () else Panic AssertFailed)"

definition trusted_payload_hash_matches :: "(u8 list \<Rightarrow> u8 list) \<Rightarrow> unit res" where
  "trusted_payload_hash_matches sha = assert_ok (sha256_matches sha TRUSTED_PAYLOAD)"

definition first_byte_tampered :: "u8 list" where
  "first_byte_tampered = TRUSTED_PAYLOAD[0 := TRUSTED_PAYLOAD ! 0 XOR 1]"

definition single_byte_tamper_is_detected :: "(u8 list \<Rightarrow> u8 list) \<Rightarrow> unit res" where
  "single_byte_tamper_is_detected sha = assert_ok (\<not> sha256_matches sha first_byte_tampered)"

definition verify_secure_boot_passes_on_untampered_payload :: "(u8 list \<Rightarrow> u8 list) \<Rightarrow> unit res" where
  "verify_secure_boot_passes_on_untampered_payload sha = assert_ok (verify_secure_boot sha)"

definition verify_tampered_secure_boot_rejects_the_mutated_copy :: "(u8 list \<Rightarrow> u8 list) \<Rightarrow> unit res" where
  "verify_tampered_secure_boot_rejects_the_mutated_copy sha = assert_ok (\<not> verify_tampered_secure_boot sha)"

definition secure_boot_tests :: "(u8 list \<Rightarrow> u8 list) \<Rightarrow> unit res list" where
  "secure_boot_tests sha =
     [trusted_payload_hash_matches sha, single_byte_tamper_is_detected sha,
      verify_secure_boot_passes_on_untampered_payload sha, verify_tampered_secure_boot_rejects_the_mutated_copy sha]"

section \<open>Telemetry tests\<close>

definition round_trip :: "to_slice \<Rightarrow> from_bytes \<Rightarrow> TraceEvent \<Rightarrow> unit res" where
  "round_trip to_slice from_bytes event =
     (case to_slice event (replicate 32 0) of
        (buf, None) \<Rightarrow> Panic UnwrapNone
      | (buf, Some n) \<Rightarrow>
          (case from_bytes (take n buf) of
             None \<Rightarrow> Panic UnwrapNone
           | Some (decoded, _) \<Rightarrow> assert_ok (decoded = event)))"

definition telemetry_tests :: "to_slice \<Rightarrow> from_bytes \<Rightarrow> unit res list" where
  "telemetry_tests to_slice from_bytes =
     map (round_trip to_slice from_bytes) [TaskSwap 1 2 12345, IpcTransfer 2 64, FaultInterception 6 0x20001234]"

section \<open>The Kani harness\<close>

text \<open>The values of \<^verbatim>\<open>kani::any\<close> for one slot of the table, in the order of the calls.\<close>

record any_slot =
  any_present :: bool
  any_variant :: u8
  any_wake_tick :: u32
  any_mutex_idx :: u8
  any_saved_sp :: usize

definition any_task_state :: "any_slot \<Rightarrow> TaskState" where
  "any_task_state a =
     (let v = any_variant a mod 5 in
      if v = 0 then Ready
      else if v = 1 then Running
      else if v = 2 then Blocked (any_wake_tick a)
      else if v = 3 then BlockedOnMutex (any_mutex_idx a)
      else Terminated)"

definition symbolic_tcb :: "nat \<Rightarrow> any_slot \<Rightarrow> TaskControlBlock" where
  "symbolic_tcb i a = \<lparr>saved_sp = any_saved_sp a, priority = of_nat i, active_priority = of_nat i,
     task_state = any_task_state a, task_name = ''Symbolic Task'', capabilities = replicate 8 NoCap\<rparr>"

definition symbolic_table :: "(nat \<Rightarrow> any_slot) \<Rightarrow> TaskControlBlock option list" where
  "symbolic_table a = map (\<lambda>i. if any_present (a i) then Some (symbolic_tcb i (a i)) else None) [0..<MAX_PARTITIONS]"

text \<open>A path that \<^verbatim>\<open>kani::assume\<close> discards has no outcome.\<close>

definition verify_scheduler_invariants :: "(nat \<Rightarrow> any_slot) \<Rightarrow> bool \<Rightarrow> usize \<Rightarrow> u32 \<Rightarrow> unit res option" where
  "verify_scheduler_invariants a is_tick any_idx any_ticks =
     (let current = unat any_idx mod MAX_PARTITIONS;
          sched = scheduler_new\<lparr>task_table := symbolic_table a, current_partition_idx := current\<rparr> in
      if task_table sched ! current = None then None
      else if \<not> any_ticks \<le> 100 then None
      else
        let sched1 = sched\<lparr>remaining_mif_ticks := any_ticks\<rparr>;
            has_ready_task = list_ex (\<lambda>i. case task_table sched1 ! i of
                None \<Rightarrow> False
              | Some tcb \<Rightarrow> task_state tcb = Ready \<or> (i = current \<and> task_state tcb = Running)) [0..<MAX_PARTITIONS]
        in Some (snd (kbind (schedule is_tick) (\<lambda>result.
             case result of
               Some _ \<Rightarrow> kbind (kgets current_partition_idx) (\<lambda>next_idx. assert_state next_idx Running)
             | None \<Rightarrow>
                 if has_ready_task then
                   kbind (kgets task_table) (\<lambda>table.
                   kbind (kindex table current) (\<lambda>entry.
                   kbind (kunwrap entry) (\<lambda>tcb.
                     assert_that (task_state tcb = Running \<or> task_state tcb = Ready))))
                 else kret ()) sched1)))"

section \<open>The benchmark\<close>

definition bench_scheduler :: "nat \<Rightarrow> unit res" where
  "bench_scheduler iterations =
     (case setup_benchmark_scheduler 5 of
        Ok sched \<Rightarrow> snd (kforeach [0..<iterations] (\<lambda>_. kbind (schedule True) (\<lambda>_. kret ())) sched)
      | Panic p \<Rightarrow> Panic p
      | Spin \<Rightarrow> Spin)"

section \<open>Lemmas\<close>

lemma scheduler_tests_ok: "scheduler_tests = replicate 5 (Ok ())"
  by code_simp

lemma can_tests_ok: "can_tests = replicate 5 (Ok ())"
  by code_simp

lemma aligned_mod_16: "((x AND NOT 0xF) - 128) mod 16 = 0" for x :: usize
proof -
  define y where "y = (x AND NOT 0xF)"
  have "unat y = 16 * (unat x div 16)" using align_16_nat [of x] by (simp add: y_def)
  then have "16 dvd unat y" by simp
  then have "unat (y - 128) mod 16 = 0"
    by (simp add: unat_sub_if' word_le_nat_alt)
  then have "unat ((y - 128) mod 16) = 0" by (simp add: unat_mod_distrib)
  then show ?thesis by (simp only: unat_eq_0 y_def)
qed

lemma stack_tests_ok:
  "initialize_stack_returns_16_byte_aligned_sp stack dummy_entry m = Ok ()"
  "initialize_stack_writes_entry_fn_as_mepc stack dummy_entry m = Ok ()"
  "initialize_stack_writes_u_mode_mstatus stack dummy_entry m = Ok ()"
proof -
  show "initialize_stack_returns_16_byte_aligned_sp stack dummy_entry m = Ok ()"
    by (simp only: initialize_stack_returns_16_byte_aligned_sp_def case_prod_unfold initialize_stack_sp
        aligned_mod_16 if_True simp_thms)
  show "initialize_stack_writes_entry_fn_as_mepc stack dummy_entry m = Ok ()"
    by (simp add: initialize_stack_writes_entry_fn_as_mepc_def initialize_stack_read split: prod.split)
  show "initialize_stack_writes_u_mode_mstatus stack dummy_entry m = Ok ()"
    by (simp add: initialize_stack_writes_u_mode_mstatus_def initialize_stack_read split: prod.split)
qed

lemma secure_boot_tests_iff:
  "secure_boot_tests sha = replicate 4 (Ok ()) \<longleftrightarrow>
     sha TRUSTED_PAYLOAD = EXPECTED_HASH \<and> sha first_byte_tampered \<noteq> EXPECTED_HASH \<and> sha tampered_payload \<noteq> EXPECTED_HASH"
  using linkage_holds
  by (auto simp: secure_boot_tests_def trusted_payload_hash_matches_def single_byte_tamper_is_detected_def
      verify_secure_boot_passes_on_untampered_payload_def verify_tampered_secure_boot_rejects_the_mutated_copy_def
      assert_ok_def sha256_matches_def verify_secure_boot_def verify_tampered_secure_boot_def replicate_num)

context event_codec
begin

lemma round_trip_ok: "round_trip to_slice from_bytes ev = Ok ()"
proof -
  have "snd (to_slice ev (replicate 32 0)) \<noteq> None" by (rule fits) simp
  then obtain buf n where r: "to_slice ev (replicate 32 0) = (buf, Some n)" by (metis not_None_eq prod.collapse)
  from decodes [OF this, of "[]"] show ?thesis by (simp add: round_trip_def r assert_ok_def)
qed

lemma telemetry_tests_ok: "telemetry_tests to_slice from_bytes = replicate 3 (Ok ())"
  by (simp add: telemetry_tests_def round_trip_ok replicate_num)

end

lemma symbolic_slot:
  "i < 32 \<Longrightarrow> slot (symbolic_table a) i = (if any_present (a i) then Some (symbolic_tcb i (a i)) else None)"
  by (simp add: symbolic_table_def slot_def MAX_PARTITIONS_def)

lemma length_symbolic_table [simp]: "length (symbolic_table a) = 32"
  by (simp add: symbolic_table_def MAX_PARTITIONS_def)

lemma assert_state_run:
  "assert_state i st s =
     (s, if i < length (task_table s) then
           (case slot (task_table s) i of None \<Rightarrow> Panic UnwrapNone | Some tcb \<Rightarrow>
              if task_state tcb = st then Ok () else Panic AssertFailed)
         else Panic IndexOutOfBounds)"
  by (simp add: assert_state_def kdefs assert_that_def slot_def split: option.split)

lemma bench_loop: "sched_wf s \<Longrightarrow> \<exists>s'. kforeach xs (\<lambda>_. kbind (schedule True) (\<lambda>_. kret ())) s = (s', Ok ()) \<and> sched_wf s'"
proof (induction xs arbitrary: s)
  case Nil then show ?case by (simp add: kdefs)
next
  case (Cons x xs)
  obtain s1 r where "schedule True s = (s1, Ok r)" "sched_wf s1"
    using schedule_wf [OF Cons.prems, of True] by (metis prod.collapse)
  with Cons.IH show ?case by (simp add: kdefs)
qed

lemma bench_scheduler_ok: "bench_scheduler n = Ok ()"
proof -
  let ?s = "scheduler_new\<lparr>task_table := map (\<lambda>i. if i < 5 then Some (mock_task i) else None) [0..<32]\<rparr>"
  have "sched_wf ?s"
    by (auto simp: sched_wf_def sched_shape_def scheduler_new_def MAX_PARTITIONS_def state_at_def slot_def mock_task_def
        split: if_splits)
  from bench_loop [OF this, of "[0..<n]"] show ?thesis
    by (auto simp: bench_scheduler_def setup_benchmark_scheduler_result)
qed

lemma symbolic_ready:
  assumes "c < 32" and tab: "task_table s = symbolic_table a"
  shows "list_ex (\<lambda>i. case symbolic_table a ! i of
      None \<Rightarrow> False
    | Some tcb \<Rightarrow> task_state tcb = Ready \<or> (i = c \<and> task_state tcb = Running)) [0..<MAX_PARTITIONS] \<longleftrightarrow>
    (\<exists>i. state_at s i = Some Ready) \<or> state_at s c = Some Running"
proof -
  have "state_at s i = Some st \<longleftrightarrow> i < 32 \<and> (\<exists>tcb. symbolic_table a ! i = Some tcb \<and> task_state tcb = st)" for i st
    by (auto simp: state_at_def tab slot_def)
  then show ?thesis using assms(1) by (auto simp: list_ex_iff MAX_PARTITIONS_def split: option.splits)
qed

text \<open>The unit tests of the repository pass on the model: those of the scheduler and of the CAN parser and ring
  buffer by evaluation, those of the initial stack frame for every address of the stack, entry point and memory, those of
  the telemetry events on the serialiser's documented format; the benchmark loop never panics, however many
  iterations run; and the secure boot tests pass exactly for a hash that maps the payload to the recorded digest and
  neither of the two tampered copies to it.\<close>

lemma repository_tests_pass:
  "scheduler_tests = replicate 5 (Ok ()) \<and> can_tests = replicate 5 (Ok ())
   \<and> initialize_stack_returns_16_byte_aligned_sp stack dummy_entry m = Ok ()
   \<and> initialize_stack_writes_entry_fn_as_mepc stack dummy_entry m = Ok ()
   \<and> initialize_stack_writes_u_mode_mstatus stack dummy_entry m = Ok ()
   \<and> telemetry_tests wire_to_slice wire_from_bytes = replicate 3 (Ok ())
   \<and> bench_scheduler iterations = Ok ()
   \<and> (secure_boot_tests sha = replicate 4 (Ok ()) \<longleftrightarrow>
        sha TRUSTED_PAYLOAD = EXPECTED_HASH \<and> sha first_byte_tampered \<noteq> EXPECTED_HASH
        \<and> sha tampered_payload \<noteq> EXPECTED_HASH)"
  by (intro conjI scheduler_tests_ok can_tests_ok stack_tests_ok wire.telemetry_tests_ok bench_scheduler_ok
      secure_boot_tests_iff)

section \<open>Properties\<close>

text \<open>C26: the Kani harness of the scheduler, for every value of its symbolic inputs (any table of 32 optional tasks,
  any current partition, any tick count, tick or yield): a path that its assumptions admit ends with no panic and
  no failed assertion, where Kani explores the same harness up to its unwinding bound; the other paths are
  discarded.\<close>

theorem kani_harness_passes:
  "verify_scheduler_invariants a is_tick any_idx any_ticks =
     (if any_present (a (unat any_idx mod 32)) \<and> any_ticks \<le> 100 then Some (Ok ()) else None)"
proof -
  let ?c = "unat any_idx mod 32"
  let ?s = "scheduler_new\<lparr>task_table := symbolic_table a, current_partition_idx := ?c, remaining_mif_ticks := any_ticks\<rparr>"
  show ?thesis
  proof (cases "any_present (a ?c) \<and> any_ticks \<le> 100")
    case True
    have shape: "sched_shape ?s" by (simp add: sched_shape_def scheduler_new_def MAX_PARTITIONS_def)
    have reg: "slot (task_table ?s) (current_partition_idx ?s) \<noteq> None" using True by (simp add: symbolic_slot)
    have len: "schedule is_tick ?s = (s', r) \<Longrightarrow> length (task_table s') = 32 \<and> current_partition_idx s' < 32" for s' r
      by (rule schedule_cases [OF shape reg, of is_tick])
        (use shape in \<open>auto simp: swap_partition_def sched_shape_def dest: slot_Some_less\<close>)
    note kani = kani_scheduler_invariants [OF shape reg, of is_tick]
    obtain s' r where run: "schedule is_tick ?s = (s', Ok r)"
      using kani by (auto split: prod.splits res.splits)
    note step = kbind_eval kret_def kgets_def kindex_def assert_state_run assert_that_def kassert_def kunwrap_def
    show ?thesis
    proof (cases r)
      case None
      with run kani symbolic_ready [of ?c ?s a] len [OF run] show ?thesis
        using True by (auto simp: verify_scheduler_invariants_def Let_def MAX_PARTITIONS_def step symbolic_slot
            slot_nth [symmetric] state_at_def)
    next
      case (Some p)
      with run kani len [OF run] show ?thesis
        using True by (auto simp: verify_scheduler_invariants_def Let_def MAX_PARTITIONS_def step symbolic_slot
            slot_nth [symmetric] state_at_def)
    qed
  next
    case False
    then show ?thesis
      by (auto simp: verify_scheduler_invariants_def Let_def MAX_PARTITIONS_def symbolic_table_def)
  qed
qed

end
