(* ===== verification/Spec2Isabelle.thy ===== *)
theory Spec2Isabelle
  imports Startup Rendezvous Watchdog_Verdict Privilege Harness
begin

text \<open>
  \<^bold>\<open>Cerberus-OS: a verification library for the kernel and its partitions.\<close>

  Cerberus-OS is a dual-core RISC-V kernel in Rust. Core 0 runs the Watchdog, Task A and the HSM partition, core 1 runs
  Task B and Task C; each core has an idle task. Every trap enters \<^verbatim>\<open>trap_handler\<close>, which works on the schedulers
  and mutexes of both cores under \<^verbatim>\<open>SCHED_LOCK\<close> and \<^verbatim>\<open>MUTEX_LOCK\<close>, and on every context switch reprograms the PMP
  of its hart for the task switched to. Tasks use mutexes and message endpoints through capabilities. The theories
  follow the source files; source names are kept where they do not clash.

  \<^bold>\<open>Parts, theories, source files\<close> (paths under \<^verbatim>\<open>src/\<close>)

  \<^item> \<open>Prelude\<close>, \<open>Memory\<close>: machine integers, the state monad with the outcomes value, panic and spin, weakest
    preconditions (collections \<open>kdefs\<close> and \<open>kvc\<close>), reachability and the interface \<open>inductive_invariant\<close>; memory as
    bytes at 32-bit addresses, stack frames as 32 words.
  \<^item> \<open>Tcb\<close>: \<^verbatim>\<open>scheduler/src/tcb.rs\<close>, \<^verbatim>\<open>kernel/src/trap_entry.s\<close>. Capabilities, task states, control blocks, the
    initial frame, saving and loading of a register context.
  \<^item> \<open>Bitmap\<close>: \<^verbatim>\<open>scheduler/src/bitmap.rs\<close>; \<open>Bench\<close>: \<^verbatim>\<open>benchmarks/src/lib.rs\<close>. \<open>Harness\<close>: the unit tests of all
    crates, the Kani harness of the scheduler and the benchmark loop, as programs run on the model.
  \<^item> \<open>Spin_Lock\<close>: \<^verbatim>\<open>kernel/src/kernel/spinlock.rs\<close>, as sequential operations (interface \<open>reentrant_lock\<close>) and as the
    interleaved accesses of two harts (relation \<open>spin_step\<close>) with traps of the same hart around them (\<open>spin_run\<close>).
  \<^item> \<open>Pmp\<close>: \<^verbatim>\<open>kernel/src/memory/pmp.rs\<close> and \<^verbatim>\<open>init_memory_protection\<close> of \<^verbatim>\<open>kernel/src/main.rs\<close>. The protection unit is
    the interface \<open>pmp_unit\<close>, interpreted by the matching rules of the RISC-V privileged specification.
  \<^item> \<open>Kernel\<close>, \<open>Kernel_Mutex\<close>, \<open>Kernel_Ipc\<close>, \<open>Trap\<close>: \<^verbatim>\<open>kernel/src/trap.rs\<close>. The state \<open>kernel\<close> collects the statics that
    the handler uses; \<open>Kernel\<close> has \<^verbatim>\<open>switch_task\<close> and the invariant \<open>kinv\<close>, \<open>Kernel_Mutex\<close> system calls 3 and 4 and
    the mutex recovery, \<open>Kernel_Ipc\<close> system calls 6 and 7, \<open>Trap\<close> the interrupts, the other system calls, the emulation
    of the cycle counter, fault containment and the dispatch.
  \<^item> \<open>Boot\<close>, \<open>Watchdog\<close>: \<^verbatim>\<open>kmain\<close>, \<^verbatim>\<open>start_first_task\<close> and \<^verbatim>\<open>watchdog_task\<close> of \<^verbatim>\<open>kernel/src/main.rs\<close>. \<open>System\<close>: the
    running system as a step relation.
  \<^item> \<open>Syscalls\<close>, \<open>Demo\<close>, \<open>Mutex_Calls\<close>, \<open>Ipc_Calls\<close>, \<open>Task_Control\<close>: what a trap does, branch by branch, with concrete
    kernel states. \<open>User_Calls\<close>: the same from the caller's side, through the wrappers of
    \<^verbatim>\<open>telemetry/src/syscalls.rs\<close> (and their copies in \<^verbatim>\<open>kernel/src/main.rs\<close>), trap entry and trap exit.
    \<open>Rendezvous\<close>: two calls of two tasks, the first of which blocks.
  \<^item> \<open>Confinement\<close>: the authority that the boot gives to each task, over all reachable states of \<open>System\<close>.
    \<open>Watchdog_Verdict\<close>: the health check and its consequences.
  \<^item> \<open>Privilege\<close>: the privilege mode and control registers of a hart, as the boot (\<^verbatim>\<open>kernel/src/main.rs\<close>) and trap
    entry and exit (\<^verbatim>\<open>kernel/src/trap_entry.s\<close>) set them.
  \<^item> \<open>Telemetry_Log\<close>: \<^verbatim>\<open>telemetry/src/lib.rs\<close> at the level of bytes, and the text output and logger of
    \<^verbatim>\<open>kernel/src/main.rs\<close> and \<^verbatim>\<open>security/src/lib.rs\<close>. The serialiser is the interface \<open>event_codec\<close>, interpreted by
    the wire format that \<^verbatim>\<open>postcard\<close> documents.
  \<^item> \<open>Fifo\<close>, \<open>Can\<close>: \<^verbatim>\<open>network/src/can.rs\<close>. \<open>Fifo\<close> is the interface \<open>bounded_fifo\<close> that the ring buffer provides.
  \<^item> \<open>Security\<close>: \<^verbatim>\<open>security/src/bootloader.rs\<close>, and the HMAC of \<^verbatim>\<open>security/src/hsm.rs\<close> and \<^verbatim>\<open>security/src/hmac.rs\<close>.
  \<^item> \<open>User_Tasks\<close>: Tasks A, B and C, the HSM task and \<^verbatim>\<open>verify_frame_secure\<close> as programs over system calls, and two
    tasks in conversation over endpoints.
  \<^item> \<open>Startup\<close>: \<^verbatim>\<open>kmain\<close> of both cores at once (secure-boot check, self-test of the CAN stack, metrics of
    \<^verbatim>\<open>kernel/src/kernel/metrics.rs\<close>, the handshake over \<^verbatim>\<open>BOOT_BARRIER\<close> and \<^verbatim>\<open>CORE_1_READY\<close>).

  \<^bold>\<open>What is shown\<close>

  \<^item> The whole system: in every state that boot, traps on either hart in any order, access faults inside message copies,
    stores of the tasks outside the statics and the watchdog's own accesses can reach, the kernel invariant holds, the PMP
    of a hart matches its current task, and the handler ends in no panic but two deliberate ones (this theory, over \<open>sys\<close>). In
    the same states every slot holds the task that the boot put there, tasks own and wait for mutexes and endpoints only with
    a capability of theirs, and sends and receives move bytes along three channels only (\<open>Confinement\<close>).
  \<^item> Modes: tasks run in user mode, the handler with interrupts off, as long as no forged \<^verbatim>\<open>mstatus\<close> word is loaded; on the
    kernel stack until the handler itself traps; and that tasks can forge the words.
  \<^item> Every system call on each of its branches: refusals, mutex grant, wait and hand-over, message transfer and waiting,
    sleep and wake-up, termination, fault containment, emulation of the cycle counter; and that a send and a receive of
    two tasks, in either order, through wrappers, trap entry and exit, implement the rendezvous of the abstract
    conversation of \<open>User_Tasks\<close>, the one that blocked going on as if its call had just returned.
  \<^item> The scheduler: the result of one call, well-formedness, a bound on the wait of a ready partition; the repository's
    Kani harness passes for every value of its symbolic inputs, its unit tests pass by evaluation (\<open>Harness\<close>).
  \<^item> The watchdog: which task a check names, with exact deadlines; what a turn does to it and to its mutexes.
  \<^item> Telemetry: with both harts logging at once the stream on channel 1 decodes to the logged events, and
    \<^verbatim>\<open>log_telemetry\<close> implements the trace of \<open>Kernel\<close>.
  \<^item> The spinlock: mutual exclusion of two harts with traps between their calls, that the plain depth field is written by
    the owner only, and that a trap in the middle of a call breaks exclusion.
  \<^item> Memory protection: the exact access rights after boot and after each switch, and which stacks stay open.
  \<^item> Boot: every task starts at its entry point; the two cores' handshake always completes, in the state of the
    sequential boot, when the hash check passes, and registers nothing when it fails.
  \<^item> The CAN stack: parser against its specification, round trip, and the ring buffer as a bounded queue.
  \<^item> Security: the tag is the standard HMAC, verification through the HSM terminates with the exact verdict.

  Properties that state a defect say so: forged frames on open stacks, software interrupts that are never taken, handlers on
  task memory after a nested trap, a lock call torn by a trap, foreign unlocks, system call 8 and tasks that survive it,
  the HSM's unchecked length code, restarts without grace period. Two more are lemmas: the statics are open to the tasks
  (\<open>Confinement.statics_open_to_tasks\<close>), a fault in a message copy leaks \<^verbatim>\<open>SCHED_LOCK\<close> (\<open>System.copy_fault_leaks_lock\<close>).

  \<^bold>\<open>Bounds and assumptions\<close>

  Integers have the width of the 32-bit target and wrap, as in the release profile. Loops are bounded in the source and
  total here; a spin on a lock held by the other hart is the outcome \<open>Spin\<close>. The conversation of two programs carries a
  step bound: three steps serve one signing request and six the demo, and larger bounds give the same result. SHA-256,
  the layout of \<^verbatim>\<open>CanFrame\<close> in memory, the protection unit, cycle counters, timer values and entry addresses are
  parameters, as is the serialiser of telemetry events; decoding a stream has as many steps as the stream has bytes.
  Atomics are sequentially consistent. In \<open>System\<close> a trap is one step, since its handler holds
  \<^verbatim>\<open>SCHED_LOCK\<close> around its accesses; an access fault in a message copy abandons the handler and enters another, which
  is also a step; the lock calls of the watchdog are not interrupted; and tasks write memory but not the kernel's statics, neither
  by stores nor through pointers that they pass to the kernel. The PMP does not enforce the last point.
  \<open>Startup\<close> ends when both first tasks run, so traps taken by one core in the short time before the other has started its first task are outside both. Frames and message buffers are assumed
  apart where a property says so; the kernel does not check it.

  \<^bold>\<open>Not modelled\<close>

  Which text each call site logs, and when (the output functions are in \<open>Telemetry_Log\<close>; the text has no effect on the
  kernel's state); \<^verbatim>\<open>panic\<close> and \<^verbatim>\<open>idle_task\<close>, endless loops without state (a panic is the outcome \<open>Panic\<close>);
  \<^verbatim>\<open>_mp_hook\<close>, which answers the runtime crate's question for the boot hart; the host and Kani stubs of the system call
  wrappers; \<^verbatim>\<open>build.rs\<close>, the Criterion benchmarks' measurements and the host tools. The scheduler's and the tasks'
  timing in cycles is not modelled. \<open>Privilege\<close> is a model of one hart beside \<open>System\<close>: it does not follow the contents
  of the frames, and takes them as intact where it says so.

  \<^bold>\<open>Plan\<close>

  Next: whole turns of the tasks' programs executed on the kernel, over \<open>Rendezvous\<close>; traps of a core whose partner is
  still booting, as steps of \<open>Startup\<close>; the modes of \<open>Privilege\<close> joined with the frames of \<open>System\<close>; torn lock calls
  of the watchdog as steps of \<open>System\<close>.
\<close>

section \<open>Properties of the running system\<close>

text \<open>C1: in every state the system can reach after boot, under any traps on either hart, faults in message copies, stores of
  the tasks outside the kernel's statics and watchdog activity (its lock calls taken whole), the trap handler never fails an array index or an
  \<^verbatim>\<open>unwrap\<close>. It returns, keeps the system invariant and leaves \<^verbatim>\<open>SCHED_LOCK\<close> as it found it; or it waits, and then the other
  hart holds \<^verbatim>\<open>SCHED_LOCK\<close>; or it stops in one of its two deliberate panics: the ownership assertion of system
  call 4, or an exception cause that is neither handled nor contained. The same holds of a handler entered by an access
  fault of an unfinished message copy, under the lock of the handler that faulted; this one never waits, and the lock of
  the abandoned handler stays taken. Accesses to the frame of the interrupted task succeed: trap entry has just
  stored it.\<close>

theorem reachable_trap_outcome:
  assumes "reach (booted L) (kernel_step L) s" "hart_id e < 2" "stacks e = L"
    and "t = s \<or> in_copy (hart_id e) s t"
  shows "case trap_handler e mcause sp start t of
      (s', Ok sp') \<Rightarrow> sys_inv L s' \<and> sched_lock s' = sched_lock t
    | (s', Spin) \<Rightarrow> t = s \<and> held_by_other (hart_id e) (sched_lock s)
    | (s', Panic p) \<Rightarrow>
        p = AssertFailed \<and> mcause = 8 \<and> read_frame (ram t) sp 13 = 4 \<and> foreign_unlock e sp t
      \<or> p = UnhandledException mcause \<and> mcause \<notin> set contained_causes
          \<union> {push_bit 31 1 OR 7, push_bit 31 1 OR 3, 8}"
proof -
  have s: "sys_inv L s" using sys.reach_inv [OF assms(1)] .
  have i: "sys_inv L t" using assms(4) s in_copy_inv(1) [OF s assms(2)] by blast
  have "locks_ok (hart_id e) t \<or> t = s \<and> held_by_other (hart_id e) (sched_lock t)"
    using assms(4) sys_inv_locks [OF i assms(2)] in_copy_inv(2) [OF s assms(2)] by blast
  then show ?thesis
  proof
    assume "locks_ok (hart_id e) t"
    from trap_handler_safe [OF _ this assms(2), of mcause sp start] i assms(3) show ?thesis
      by (auto simp: wp_def sys_inv_def settled_def split: prod.splits res.splits)
  next
    assume h: "t = s \<and> held_by_other (hart_id e) (sched_lock t)"
    from trap_blocked [OF conjunct2 [OF h], of mcause sp start] trap_step_inv [OF i assms(2,3)] h show ?thesis
      by (auto simp: needs_sched_lock_def split: if_splits)
  qed
qed

theorem reachable_trap_outcome_witness:
  "(case trap_handler (demo_env 1) 8 0x3FC90800 0 demo_kernel of
      (s', Ok sp') \<Rightarrow> sys_inv demo_layout s' \<and> sched_lock s' = spinlock_new
    | (s', Spin) \<Rightarrow> False
    | (s', Panic p) \<Rightarrow> p = AssertFailed)
   \<and> (case trap_handler (demo_env 1) 7 0x3FC95000 0 (demo_kernel\<lparr>sched_lock := taken 1, ram := \<lambda>_. 0\<rparr>) of
      (s', Ok sp') \<Rightarrow> sys_inv demo_layout s' \<and> sched_lock s' = taken 1
    | _ \<Rightarrow> False)"
proof
  from reachable_trap_outcome [OF demo_reach, of "demo_env 1" demo_kernel 8 "0x3FC90800" 0] demo_kernel_facts(2)
  show "case trap_handler (demo_env 1) 8 0x3FC90800 0 demo_kernel of
      (s', Ok sp') \<Rightarrow> sys_inv demo_layout s' \<and> sched_lock s' = spinlock_new
    | (s', Spin) \<Rightarrow> False
    | (s', Panic p) \<Rightarrow> p = AssertFailed"
    by (auto simp: held_by_other_def spinlock_new_def split: prod.splits res.splits)
next
  let ?t = "demo_kernel\<lparr>sched_lock := taken 1, ram := \<lambda>_. 0\<rparr>"
  have "in_copy 1 demo_kernel ?t"
    unfolding in_copy_def using spin_lock_free [of 1] demo_kernel_facts(2)
    by (intro exI [of _ "taken 1"] exI [of _ "\<lambda>_. 0"]) (simp add: taken_usable)
  then show "case trap_handler (demo_env 1) 7 0x3FC95000 0 ?t of
      (s', Ok sp') \<Rightarrow> sys_inv demo_layout s' \<and> sched_lock s' = taken 1 | _ \<Rightarrow> False"
    using reachable_trap_outcome [OF demo_reach, of "demo_env 1" ?t 7 "0x3FC95000" 0]
    by (auto simp: contained_causes_def held_by_other_def demo_kernel_facts(2) spinlock_new_def split: prod.splits res.splits)
qed

text \<open>C3: in every reachable state (tasks that store into the statics apart) the PMP registers of each hart are programmed for the task that is
  current on that hart, so that on any protection unit that follows the RISC-V rule user mode has
  exactly that task's rights.\<close>

theorem reachable_pmp_matches_current_task:
  assumes "reach (booted L) (kernel_step L) s" "h < 2" "layout_ok L" "pmp_unit user_access"
  shows "\<exists>tcb. tcb_at s h (current_partition_idx (schedulers s ! h)) = Some tcb
     \<and> (\<forall>a x. user_access (pmp s h) a x = user_rights L (task_name tcb) a x)"
proof -
  have "kinv L s" using sys.reach_inv [OF assms(1)] by (simp add: sys_inv_def)
  from kinvD(5) [OF this assms(2)] show ?thesis
    using pmp_unit.access_matrix [OF assms(4,3)] by (fastforce simp: pmp_current_def)
qed

theorem reachable_pmp_matches_current_task_witness:
  "\<not> riscv_user_access (pmp demo_kernel 1) (TASK_A_STACK demo_layout) AccWrite"
proof -
  from reachable_pmp_matches_current_task [OF demo_reach _ demo_layout_ok riscv.pmp_unit_axioms, of 1]
  show ?thesis
    using boot_first_slot(2) [of demo_layout]
    by (auto simp: demo_kernel_facts(5) tcb_at_def start_on_def user_rights_def in_flash_def in_range_def
        demo_layout_def)
qed

text \<open>C2: reachable states are well typed (tasks that store into the statics apart, as in \<open>System\<close>). There are two schedulers of 32 slots, eight mutexes and 32 check-in records; on each
  hart the current partition is a registered slot, and the only one that can be \<open>Running\<close>; a control block carries its
  slot as priority and eight capabilities; a mutex is locked exactly when it has an owner, and its owner and waiters
  are registered tasks.\<close>

theorem reachable_well_typed:
  assumes "reach (booted L) (kernel_step L) s"
  shows "length (schedulers s) = 2 \<and> length (mutexes s) = 8 \<and> length (last_checkin_tick s) = 32
   \<and> (\<forall>h. h < 2 \<longrightarrow> length (task_table (schedulers s ! h)) = 32 \<and> length (partition_durations (schedulers s ! h)) = 32
        \<and> current s h < 32 \<and> tcb_at s h (current s h) \<noteq> None
        \<and> (\<forall>i. kstate s h i = Some Running \<longrightarrow> i = current s h)
        \<and> (\<forall>i tcb. tcb_at s h i = Some tcb \<longrightarrow> unat (priority tcb) = i \<and> length (capabilities tcb) = 8))
   \<and> (\<forall>k m. slot (mutexes s) k = Some m \<longrightarrow> (locked m \<longleftrightarrow> owner_task_idx m \<noteq> None)
        \<and> (\<forall>w. bit (waiters_bitmap m) w \<longrightarrow> tcb_at s (waiter_hart w) w \<noteq> None)
        \<and> (\<forall>t. owner_task_idx m = Some t \<longrightarrow> tcb_at s (waiter_hart (unat t)) (unat t) \<noteq> None))"
proof -
  have k: "kinv L s" using sys.reach_inv [OF assms] by (simp add: sys_inv_def)
  have "length (task_table (schedulers s ! h)) = 32 \<and> length (partition_durations (schedulers s ! h)) = 32
        \<and> current s h < 32 \<and> tcb_at s h (current s h) \<noteq> None
        \<and> (\<forall>i. kstate s h i = Some Running \<longrightarrow> i = current s h)
        \<and> (\<forall>i tcb. tcb_at s h i = Some tcb \<longrightarrow> unat (priority tcb) = i \<and> length (capabilities tcb) = 8)" if "h < 2" for h
    using sched_wfD [OF kinvD(4) [OF k that]] kinvD(6) [OF k that]
    by (auto simp: sched_shape_def tcb_at_def kstate_state_at tcb_ok_def)
  moreover have "mutex_ok s m" if "slot (mutexes s) n = Some m" for n m using kinvD(7) [OF k, of 0] that by simp
  ultimately show ?thesis using kinvD(1-3) [OF k, of 0] by (simp add: mutex_ok_def)
qed

theorem reachable_well_typed_witness:
  "length (mutexes demo_kernel) = 8 \<and> tcb_at demo_kernel 1 (current demo_kernel 1) \<noteq> None \<and> current demo_kernel 1 < 32"
  using reachable_well_typed [OF demo_reach] by simp

end
